(* ===== verification/Rank_Prelude.thy ===== *)
theory Rank_Prelude
  imports Main "HOL-Library.Word"
begin

unbundle bit_operations_syntax

text \<open>
  Shared vocabulary of the development: Rust's fixed-width integers, \<open>Result\<close> as a sum type
  (\<open>Inl\<close> is \<open>Err\<close>), the checked and saturating operations of the standard library, slices of
  byte vectors, little-endian byte codecs with their round trips, and the FNV-1a fold the crate
  uses for its tags and fingerprints.

  \<open>usize\<close> is the 64-bit \<open>usize\<close> of the supported hosts: a length is a natural number and every
  operation that can leave the range \<open>0 .. 2 ^ 64 - 1\<close> is written with its check.
\<close>

section \<open>Types\<close>

type_synonym u8 = "8 word"
type_synonym u16 = "16 word"
type_synonym u32 = "32 word"
type_synonym u64 = "64 word"
type_synonym bytes = "8 word list"

abbreviation u32_max :: nat where "u32_max \<equiv> 2 ^ 32 - 1"
abbreviation u64_max :: nat where "u64_max \<equiv> 2 ^ 64 - 1"
abbreviation u128_max :: nat where "u128_max \<equiv> 2 ^ 128 - 1"
abbreviation usize_max :: nat where "usize_max \<equiv> 2 ^ 64 - 1"

named_theorems result_simps \<open>unfolding of the error monad\<close>
named_theorems machine_simps \<open>unfolding of checked and saturating arithmetic\<close>
named_theorems codec_simps \<open>lengths and round trips of the byte codecs\<close>

section \<open>Results\<close>

definition bind_r :: "'e + 'a \<Rightarrow> ('a \<Rightarrow> 'e + 'b) \<Rightarrow> 'e + 'b" where
  "bind_r r f = (case r of Inl e \<Rightarrow> Inl e | Inr a \<Rightarrow> f a)"

definition map_err :: "('e \<Rightarrow> 'f) \<Rightarrow> 'e + 'a \<Rightarrow> 'f + 'a" where
  "map_err g r = (case r of Inl e \<Rightarrow> Inl (g e) | Inr a \<Rightarrow> Inr a)"

definition ok_or :: "'a option \<Rightarrow> 'e \<Rightarrow> 'e + 'a" where
  "ok_or x e = (case x of None \<Rightarrow> Inl e | Some a \<Rightarrow> Inr a)"

definition check_r :: "bool \<Rightarrow> 'e \<Rightarrow> 'e + unit" where
  "check_r b e = (if b then Inr () else Inl e)"

definition is_ok :: "'e + 'a \<Rightarrow> bool" where
  "is_ok r = (case r of Inl _ \<Rightarrow> False | Inr _ \<Rightarrow> True)"

text \<open>A computation that can also panic: \<open>Fault\<close> is the \<open>Err\<close> it returns.\<close>

datatype 'e fault = Fault 'e | Panic string

text \<open>\<open>iter().map(f).collect::<Result<Vec<_>, _>>()\<close>: stops at the first error.\<close>

primrec traverse_r :: "('a \<Rightarrow> 'e + 'b) \<Rightarrow> 'a list \<Rightarrow> 'e + 'b list" where
  "traverse_r f [] = Inr []"
| "traverse_r f (x # xs) = bind_r (f x) (\<lambda>y. bind_r (traverse_r f xs) (\<lambda>ys. Inr (y # ys)))"

text \<open>A \<open>for\<close> loop whose body may return early with an error.\<close>

primrec fold_r :: "('a \<Rightarrow> 's \<Rightarrow> 'e + 's) \<Rightarrow> 'a list \<Rightarrow> 's \<Rightarrow> 'e + 's" where
  "fold_r f [] s = Inr s"
| "fold_r f (x # xs) s = bind_r (f x s) (fold_r f xs)"

text \<open>\<open>try_fold\<close> over options.\<close>

primrec fold_o :: "('a \<Rightarrow> 's \<Rightarrow> 's option) \<Rightarrow> 'a list \<Rightarrow> 's \<Rightarrow> 's option" where
  "fold_o f [] s = Some s"
| "fold_o f (x # xs) s = (case f x s of None \<Rightarrow> None | Some s' \<Rightarrow> fold_o f xs s')"

primrec traverse_o :: "('a \<Rightarrow> 'b option) \<Rightarrow> 'a list \<Rightarrow> 'b list option" where
  "traverse_o f [] = Some []"
| "traverse_o f (x # xs) =
     (case f x of None \<Rightarrow> None
      | Some y \<Rightarrow> (case traverse_o f xs of None \<Rightarrow> None | Some ys \<Rightarrow> Some (y # ys)))"

text \<open>\<open>iter().position(p)\<close>.\<close>

primrec position :: "('a \<Rightarrow> bool) \<Rightarrow> 'a list \<Rightarrow> nat option" where
  "position p [] = None"
| "position p (x # xs) = (if p x then Some 0 else map_option Suc (position p xs))"

text \<open>\<open>VecDeque::remove(index)\<close>, \<open>Vec::remove(index)\<close>.\<close>

definition remove_at :: "nat \<Rightarrow> 'a list \<Rightarrow> 'a list" where
  "remove_at i xs = take i xs @ drop (Suc i) xs"

lemma bind_r_simps [simp]:
  "bind_r (Inl e) f = Inl e" "bind_r (Inr a) f = f a"
  by (simp_all add: bind_r_def)

lemma bind_r_eq_Inr: "bind_r r f = Inr b \<longleftrightarrow> (\<exists>a. r = Inr a \<and> f a = Inr b)"
  by (cases r) simp_all

lemma bind_r_eq_Inl: "bind_r r f = Inl e \<longleftrightarrow> r = Inl e \<or> (\<exists>a. r = Inr a \<and> f a = Inl e)"
  by (cases r) simp_all

lemma bind_r_cong [fundef_cong]:
  "r = r' \<Longrightarrow> (\<And>a. r' = Inr a \<Longrightarrow> f a = g a) \<Longrightarrow> bind_r r f = bind_r r' g"
  by (cases r') simp_all

lemma map_err_simps [simp]: "map_err g (Inl e) = Inl (g e)" "map_err g (Inr a) = Inr a"
  by (simp_all add: map_err_def)

lemma map_err_eq_Inr [simp]: "map_err g r = Inr a \<longleftrightarrow> r = Inr a"
  by (cases r) simp_all

lemma map_err_eq_Inl: "map_err g r = Inl e \<longleftrightarrow> (\<exists>e'. r = Inl e' \<and> e = g e')"
  by (cases r) auto

lemma ok_or_simps [simp]: "ok_or None e = Inl e" "ok_or (Some a) e = Inr a"
  by (simp_all add: ok_or_def)

lemma ok_or_eq_Inr [simp]: "ok_or x e = Inr a \<longleftrightarrow> x = Some a"
  by (cases x) simp_all

lemma ok_or_eq_Inl [simp]: "ok_or x e = Inl e' \<longleftrightarrow> x = None \<and> e' = e"
  by (cases x) auto

lemma check_r_eq_Inr [simp]: "check_r b e = Inr u \<longleftrightarrow> b"
  by (simp add: check_r_def)

lemma check_r_eq_Inl [simp]: "check_r b e = Inl e' \<longleftrightarrow> \<not> b \<and> e' = e"
  by (auto simp: check_r_def)

lemma check_r_simps [simp]: "check_r True e = Inr ()" "check_r False e = Inl e"
  by (simp_all add: check_r_def)

lemma is_ok_simps [simp]: "is_ok (Inr a)" "\<not> is_ok (Inl e)"
  by (simp_all add: is_ok_def)

lemma is_ok_iff: "is_ok r \<longleftrightarrow> (\<exists>a. r = Inr a)"
  by (cases r) simp_all

lemmas result_eqs [result_simps] =
  bind_r_eq_Inr bind_r_eq_Inl map_err_eq_Inr map_err_eq_Inl
  ok_or_eq_Inr ok_or_eq_Inl check_r_eq_Inr check_r_eq_Inl

lemma traverse_r_length: "traverse_r f xs = Inr ys \<Longrightarrow> length ys = length xs"
  by (induction xs arbitrary: ys) (auto simp: result_simps)

lemma traverse_r_nth:
  "traverse_r f xs = Inr ys \<Longrightarrow> i < length xs \<Longrightarrow> f (xs ! i) = Inr (ys ! i)"
proof (induction xs arbitrary: ys i)
  case (Cons x xs)
  then show ?case by (cases i) (auto simp: result_simps)
qed simp

lemma traverse_r_all_ok:
  "(\<And>x. x \<in> set xs \<Longrightarrow> f x = Inr (g x)) \<Longrightarrow> traverse_r f xs = Inr (map g xs)"
  by (induction xs) simp_all

lemma traverse_r_okD:
  "traverse_r f xs = Inr ys \<Longrightarrow> x \<in> set xs \<Longrightarrow> \<exists>y \<in> set ys. f x = Inr y"
  by (induction xs arbitrary: ys) (auto simp: result_simps)

lemma traverse_r_iff:
  "traverse_r f xs = Inr ys \<longleftrightarrow> list_all2 (\<lambda>x y. f x = Inr y) xs ys"
  by (induction xs arbitrary: ys) (auto simp: result_simps list_all2_Cons1)

lemma traverse_r_is_ok: "is_ok (traverse_r f xs) \<longleftrightarrow> (\<forall>x \<in> set xs. is_ok (f x))"
  by (induction xs) (auto simp: is_ok_iff bind_r_eq_Inr)

lemma fold_r_invariant:
  assumes "fold_r f xs s = Inr s'" and "P s"
    and "\<And>x s s'. x \<in> set xs \<Longrightarrow> P s \<Longrightarrow> f x s = Inr s' \<Longrightarrow> P s'"
  shows "P s'"
  using assms
proof (induction xs arbitrary: s)
  case (Cons x xs)
  then obtain t where t: "f x s = Inr t" "fold_r f xs t = Inr s'"
    by (auto simp: bind_r_eq_Inr)
  have "P t" using Cons.prems(2) t(1) by (rule Cons.prems(3)[rotated]) simp
  with t(2) show ?case by (rule Cons.IH) (rule Cons.prems(3), auto)
qed simp

lemma fold_r_append [simp]: "fold_r f (xs @ ys) s = bind_r (fold_r f xs s) (fold_r f ys)"
proof (induction xs arbitrary: s)
  case (Cons x xs)
  then show ?case by (cases "f x s") simp_all
qed simp

lemma traverse_o_length: "traverse_o f xs = Some ys \<Longrightarrow> length ys = length xs"
  by (induction xs arbitrary: ys) (auto split: option.splits)

lemma traverse_o_iff:
  "traverse_o f xs = Some ys \<longleftrightarrow> list_all2 (\<lambda>x y. f x = Some y) xs ys"
proof (induction xs arbitrary: ys)
  case (Cons x xs)
  show ?case
    by (cases "f x"; cases "traverse_o f xs")
       (auto simp: list_all2_Cons1 Cons.IH[symmetric])
qed auto

lemma traverse_o_None: "traverse_o f xs = None \<longleftrightarrow> (\<exists>x \<in> set xs. f x = None)"
  by (induction xs) (auto split: option.splits)

lemma fold_o_invariant:
  assumes "fold_o f xs s = Some s'" and "P s"
    and "\<And>x s s'. x \<in> set xs \<Longrightarrow> P s \<Longrightarrow> f x s = Some s' \<Longrightarrow> P s'"
  shows "P s'"
  using assms
proof (induction xs arbitrary: s)
  case (Cons x xs)
  then obtain t where t: "f x s = Some t" "fold_o f xs t = Some s'"
    by (auto split: option.splits)
  have "P t" using Cons.prems(2) t(1) by (rule Cons.prems(3)[rotated]) simp
  with t(2) show ?case by (rule Cons.IH) (rule Cons.prems(3), auto)
qed simp

lemma position_Some:
  "position p xs = Some i \<Longrightarrow> i < length xs \<and> p (xs ! i) \<and> (\<forall>j < i. \<not> p (xs ! j))"
proof (induction xs arbitrary: i)
  case (Cons x xs)
  show ?case
  proof (cases "p x")
    case True
    with Cons.prems show ?thesis by auto
  next
    case False
    with Cons.prems obtain k where k: "position p xs = Some k" "i = Suc k" by auto
    with Cons.IH[OF k(1)] False show ?thesis
      by (auto simp: nth_Cons split: nat.splits)
  qed
qed simp

lemma position_None: "position p xs = None \<longleftrightarrow> (\<forall>x \<in> set xs. \<not> p x)"
  by (induction xs) auto

lemma length_remove_at: "i < length xs \<Longrightarrow> length (remove_at i xs) = length xs - 1"
  by (simp add: remove_at_def)

lemma set_remove_at: "set (remove_at i xs) \<subseteq> set xs"
  by (auto simp: remove_at_def dest: in_set_takeD in_set_dropD)

section \<open>Checked and saturating arithmetic\<close>

text \<open>The width \<open>w\<close> is explicit: \<open>checked_add 64\<close> is \<open>u64::checked_add\<close> and \<open>usize::checked_add\<close>.\<close>

definition checked_add :: "nat \<Rightarrow> nat \<Rightarrow> nat \<Rightarrow> nat option" where
  "checked_add w a b = (if a + b < 2 ^ w then Some (a + b) else None)"

definition checked_mul :: "nat \<Rightarrow> nat \<Rightarrow> nat \<Rightarrow> nat option" where
  "checked_mul w a b = (if a * b < 2 ^ w then Some (a * b) else None)"

definition saturating_add :: "nat \<Rightarrow> nat \<Rightarrow> nat \<Rightarrow> nat" where
  "saturating_add w a b = min (a + b) (2 ^ w - 1)"

definition saturating_mul :: "nat \<Rightarrow> nat \<Rightarrow> nat \<Rightarrow> nat" where
  "saturating_mul w a b = min (a * b) (2 ^ w - 1)"

text \<open>\<open>usize::div_ceil\<close>.\<close>

definition div_ceil :: "nat \<Rightarrow> nat \<Rightarrow> nat" where
  "div_ceil a b = a div b + (if a mod b > 0 then 1 else 0)"

text \<open>\<open>usize::try_from(u64)\<close>.\<close>

definition usize_try_from :: "u64 \<Rightarrow> nat option" where
  "usize_try_from v = (if unat v \<le> usize_max then Some (unat v) else None)"

text \<open>\<open>u64::try_from(usize)\<close>.\<close>

definition u64_try_from :: "nat \<Rightarrow> u64 option" where
  "u64_try_from n = (if n \<le> u64_max then Some (of_nat n) else None)"

lemma checked_add_Some [machine_simps]:
  "checked_add w a b = Some c \<longleftrightarrow> c = a + b \<and> a + b < 2 ^ w"
  by (auto simp: checked_add_def)

lemma checked_add_None [machine_simps]: "checked_add w a b = None \<longleftrightarrow> 2 ^ w \<le> a + b"
  by (auto simp: checked_add_def)

lemma checked_mul_Some [machine_simps]:
  "checked_mul w a b = Some c \<longleftrightarrow> c = a * b \<and> a * b < 2 ^ w"
  by (auto simp: checked_mul_def)

lemma checked_mul_None [machine_simps]: "checked_mul w a b = None \<longleftrightarrow> 2 ^ w \<le> a * b"
  by (auto simp: checked_mul_def)

lemma saturating_add_le: "saturating_add w a b \<le> 2 ^ w - 1"
  by (simp add: saturating_add_def)

lemma saturating_mul_le: "saturating_mul w a b \<le> 2 ^ w - 1"
  by (simp add: saturating_mul_def)

lemma saturating_add_exact: "a + b < 2 ^ w \<Longrightarrow> saturating_add w a b = a + b"
  by (simp add: saturating_add_def)

lemma saturating_add_mono:
  "a \<le> a' \<Longrightarrow> b \<le> b' \<Longrightarrow> saturating_add w a b \<le> saturating_add w a' b'"
  unfolding saturating_add_def by (rule min.mono) simp_all

lemma saturating_add_assoc:
  "saturating_add w (saturating_add w a b) c = saturating_add w a (saturating_add w b c)"
  unfolding saturating_add_def by (simp add: min_def) arith

lemma usize_try_from_eq [simp]: "usize_try_from v = Some (unat v)"
proof -
  have "unat v < 2 ^ 64" using unsigned_less[of v] by simp
  then show ?thesis by (simp add: usize_try_from_def)
qed

lemma unat_u64_succ: "unat w + 1 < 2 ^ 64 \<Longrightarrow> unat (w + 1) = Suc (unat w)" for w :: u64
  by (simp add: unat_word_ariths)

lemma u64_try_from_Some:
  "u64_try_from n = Some v \<Longrightarrow> unat v = n"
  by (auto simp: u64_try_from_def unat_of_nat take_bit_nat_def split: if_splits)

lemma div_ceil_mult_ge: "0 < b \<Longrightarrow> a \<le> b * div_ceil a b"
proof -
  assume b: "0 < b"
  have "a \<le> q + (if r > 0 then b else 0)" if "q + r = a" "r < b" for q r
    using that by auto
  from this[of "b * (a div b)" "a mod b"] b show ?thesis
    by (simp add: div_ceil_def algebra_simps split: if_splits)
qed

section \<open>Slices of byte vectors\<close>

text \<open>\<open>&bytes[a..b]\<close>; the callers check the bounds as the source does.\<close>

definition subslice :: "nat \<Rightarrow> nat \<Rightarrow> 'a list \<Rightarrow> 'a list" where
  "subslice a b xs = take (b - a) (drop a xs)"

text \<open>The same with the bounds check of the slice operation, which panics.\<close>

definition slice_f :: "nat \<Rightarrow> nat \<Rightarrow> 'a list \<Rightarrow> 'e fault + 'a list" where
  "slice_f a b xs =
     (if a \<le> b \<and> b \<le> length xs then Inr (subslice a b xs)
      else Inl (Panic ''slice index out of range''))"

text \<open>\<open>bytes[off..off + v.len()].copy_from_slice(v)\<close>.\<close>

definition copy_at :: "'a list \<Rightarrow> nat \<Rightarrow> 'a list \<Rightarrow> 'a list" where
  "copy_at xs off v = take off xs @ v @ drop (off + length v) xs"

lemma length_subslice [codec_simps]: "b \<le> length xs \<Longrightarrow> length (subslice a b xs) = b - a"
  by (simp add: subslice_def)

lemma length_copy_at [codec_simps]:
  "off + length v \<le> length xs \<Longrightarrow> length (copy_at xs off v) = length xs"
  by (simp add: copy_at_def)

lemma copy_at_prefix:
  "off = length xs \<Longrightarrow> length v \<le> length ys \<Longrightarrow>
     copy_at (xs @ ys) off v = (xs @ v) @ drop (length v) ys"
  by (simp add: copy_at_def)

lemma copy_at_zeros:
  "off = length xs \<Longrightarrow> length v \<le> n \<Longrightarrow>
     copy_at (xs @ replicate n z) off v = (xs @ v) @ replicate (n - length v) z"
  by (simp add: copy_at_def)

lemma list_update_copy_at: "i < length xs \<Longrightarrow> xs[i := x] = copy_at xs i [x]"
  by (simp add: copy_at_def upd_conv_take_nth_drop)

lemma subslice_append_mid:
  "length xs = a \<Longrightarrow> a + length ys = b \<Longrightarrow> subslice a b (xs @ ys @ zs) = ys"
  by (auto simp: subslice_def)

lemma subslice_append_left: "b \<le> length xs \<Longrightarrow> subslice a b (xs @ ys) = subslice a b xs"
  by (cases "a \<le> length xs") (auto simp: subslice_def)

lemma subslice_subslice_append:
  "a \<le> b \<Longrightarrow> b \<le> c \<Longrightarrow> subslice a b xs @ subslice b c xs = subslice a c xs"
proof -
  assume "a \<le> b" "b \<le> c"
  then have "subslice b c xs = take (c - b) (drop (b - a) (drop a xs))"
    by (simp add: subslice_def add.commute)
  moreover have "c - a = (b - a) + (c - b)" using \<open>a \<le> b\<close> \<open>b \<le> c\<close> by simp
  ultimately show ?thesis
    by (simp add: subslice_def take_add)
qed

lemma subslice_nth: "i < b - a \<Longrightarrow> b \<le> length xs \<Longrightarrow> subslice a b xs ! i = xs ! (a + i)"
  by (simp add: subslice_def)

lemma subslice_two: "Suc a < length xs \<Longrightarrow> [xs ! a, xs ! Suc a] = subslice a (Suc (Suc a)) xs"
  by (simp add: subslice_def numeral_2_eq_2 take_Suc_conv_app_nth)

lemma subslice_full: "subslice 0 (length xs) xs = xs"
  by (simp add: subslice_def)

section \<open>Little-endian byte codecs\<close>

definition le_bytes :: "nat \<Rightarrow> 'a::len word \<Rightarrow> bytes" where
  "le_bytes n w = map (\<lambda>i. ucast (drop_bit (8 * i) w)) [0..<n]"

primrec from_le_bytes :: "bytes \<Rightarrow> 'a::len word" where
  "from_le_bytes [] = 0"
| "from_le_bytes (b # bs) = ucast b OR push_bit 8 (from_le_bytes bs)"

abbreviation u16_le :: "u16 \<Rightarrow> bytes" where "u16_le \<equiv> le_bytes 2"
abbreviation u32_le :: "u32 \<Rightarrow> bytes" where "u32_le \<equiv> le_bytes 4"
abbreviation u64_le :: "u64 \<Rightarrow> bytes" where "u64_le \<equiv> le_bytes 8"

lemma length_le_bytes [simp, codec_simps]: "length (le_bytes n w) = n"
  by (simp add: le_bytes_def)

lemma bit_from_le_bytes:
  "bit (from_le_bytes bs :: 'a::len word) i \<longleftrightarrow>
     i < LENGTH('a) \<and> i div 8 < length bs \<and> bit (bs ! (i div 8)) (i mod 8)"
proof (induction bs arbitrary: i)
  case (Cons b bs)
  show ?case
  proof (cases "i < 8")
    case True
    then show ?thesis by (auto simp: bit_simps)
  next
    case False
    then obtain j where j: "i = j + 8" by (metis add.commute le_add_diff_inverse not_less)
    have "\<not> bit b i" using False by (auto dest: bit_imp_le_length)
    moreover have "(j + 8) div 8 = Suc (j div 8)" by simp
    ultimately show ?thesis using Cons.IH[of j] j by (auto simp: bit_simps)
  qed
qed simp

lemma from_le_bytes_le_bytes:
  assumes "LENGTH('a) = 8 * n"
  shows "from_le_bytes (le_bytes n w) = (w :: 'a::len word)"
proof (rule bit_word_eqI)
  fix i assume i: "i < LENGTH('a)"
  then have "i div 8 < n" using assms by simp
  then show "bit (from_le_bytes (le_bytes n w) :: 'a word) i = bit w i"
    using i by (simp add: bit_from_le_bytes le_bytes_def bit_simps)
qed

lemma le_bytes_from_le_bytes:
  assumes "length bs = n" and "LENGTH('a) = 8 * n"
  shows "le_bytes n (from_le_bytes bs :: 'a::len word) = bs"
proof (rule nth_equalityI)
  fix i assume "i < length (le_bytes n (from_le_bytes bs :: 'a word))"
  then have i: "i < n" by simp
  show "le_bytes n (from_le_bytes bs :: 'a word) ! i = bs ! i"
  proof (rule bit_word_eqI)
    fix j assume j: "j < LENGTH(8)"
    have "(8 * i + j) div 8 = i" "(8 * i + j) mod 8 = j" "8 * i + j < LENGTH('a)"
      using j i assms(2) by auto
    then show "bit (le_bytes n (from_le_bytes bs :: 'a word) ! i) j = bit (bs ! i) j"
      using i j assms(1) by (simp add: le_bytes_def bit_simps bit_from_le_bytes)
  qed
qed (simp add: assms(1))

lemma le_codec_16 [simp, codec_simps]: "from_le_bytes (u16_le w) = w"
  by (rule from_le_bytes_le_bytes) simp

lemma le_codec_32 [simp, codec_simps]: "from_le_bytes (u32_le w) = w"
  by (rule from_le_bytes_le_bytes) simp

lemma le_codec_64 [simp, codec_simps]: "from_le_bytes (u64_le w) = w"
  by (rule from_le_bytes_le_bytes) simp

lemma le_bytes_inj: "LENGTH('a) = 8 * n \<Longrightarrow> le_bytes n v = le_bytes n w \<Longrightarrow> v = (w :: 'a::len word)"
  by (metis from_le_bytes_le_bytes)

section \<open>FNV-1a\<close>

text \<open>The loop body \<open>hash ^= u64::from(byte); hash = hash.wrapping_mul(0x100000001b3)\<close>.\<close>

definition fnv_step :: "u8 \<Rightarrow> u64 \<Rightarrow> u64" where
  "fnv_step b hash = (hash XOR ucast b) * 0x100000001b3"

definition fnv_bytes :: "bytes \<Rightarrow> u64 \<Rightarrow> u64" where
  "fnv_bytes bs hash = fold fnv_step bs hash"

definition fnv_offset :: u64 where
  "fnv_offset = 0xcbf29ce484222325"

lemma fnv_bytes_Nil [simp]: "fnv_bytes [] h = h"
  by (simp add: fnv_bytes_def)

lemma fnv_bytes_append: "fnv_bytes (xs @ ys) h = fnv_bytes ys (fnv_bytes xs h)"
  by (simp add: fnv_bytes_def)

section \<open>Decimal and hexadecimal text\<close>

text \<open>\<open>usize::to_string\<close> and the digits of \<open>{:016x}\<close>.\<close>

definition digit_char :: "nat \<Rightarrow> char" where
  "digit_char d = (if d < 10 then char_of (48 + d) else char_of (87 + d))"

fun show_nat :: "nat \<Rightarrow> string" where
  "show_nat n = (if n < 10 then [digit_char n] else show_nat (n div 10) @ [digit_char (n mod 10)])"

declare show_nat.simps [simp del]

definition hex16 :: "u64 \<Rightarrow> string" where
  "hex16 w = map (\<lambda>i. digit_char (unat (drop_bit (4 * (15 - i)) w) mod 16)) [0..<16]"

end
