(* ===== verification/Wire_Protocol.thy ===== *)
theory Wire_Protocol
  imports Rank_Prelude
begin

text \<open>
  The versioned wire contract of \<^verbatim>\<open>src/rank/protocol.rs\<close>: opcodes, element types, the 80-byte frame
  header with its validation, whole frames and their two codecs. The payload checksum is
  \<^verbatim>\<open>crc32fast::hash\<close>, a third-party crate: it is the parameter \<open>crc\<close> of every definition that
  computes or checks it, and no law of it is assumed.

  A formatted error text is kept as its template with the interpolated values (\<open>Msg\<close>).
\<close>

section \<open>Constants\<close>

definition PROTOCOL_MAGIC :: bytes where
  "PROTOCOL_MAGIC = [0x47, 0x58, 0x43, 0x4c]"

definition PROTOCOL_VERSION :: u16 where "PROTOCOL_VERSION = 3"
definition FRAME_HEADER_BYTES :: nat where "FRAME_HEADER_BYTES = 80"
definition MAX_FRAME_PAYLOAD_BYTES :: nat where "MAX_FRAME_PAYLOAD_BYTES = 2 ^ 30"
definition ANY_RANK :: u32 where "ANY_RANK = 0xffffffff"
definition FLAG_PAYLOAD :: u16 where "FLAG_PAYLOAD = 1"
definition FLAG_COUNTS_PREFIX :: u16 where "FLAG_COUNTS_PREFIX = 2"
definition FLAG_P2P_CHANNEL :: u16 where "FLAG_P2P_CHANNEL = 4"

named_theorems wire_consts \<open>the numeric constants of the protocol\<close>

lemmas wire_const_defs [wire_consts] =
  PROTOCOL_MAGIC_def PROTOCOL_VERSION_def FRAME_HEADER_BYTES_def MAX_FRAME_PAYLOAD_BYTES_def
  ANY_RANK_def FLAG_PAYLOAD_def FLAG_COUNTS_PREFIX_def FLAG_P2P_CHANNEL_def

section \<open>Opcodes and element types\<close>

datatype opcode =
    Join | Ready | Broadcast | AllGather | Gather | Scatter | Reduce | AllReduce
  | ReduceScatter | AllToAll | AllToAllV | Barrier | Send | Receive | Abort
  | Heartbeat | Leave | SetTimeout | PeerEndpoint

datatype element_type =
    ElemNone | U8 | U32 | I32 | F32 | F16 | BF16 | Bool | I8 | I16 | I64 | F64 | U16 | U64
  | Complex64 | Complex128 | F8E4M3Fn | F8E5M2 | F8E4M3Fnuz | F8E5M2Fnuz | F8E8M0Fnu
  | F4E2M1FnX2

record operation_descriptor =
  od_opcode :: opcode
  od_element_type :: element_type
  od_root_rank :: u32
  od_element_count :: u64
  od_layout_hash :: u64

datatype protocol_error =
    TruncatedHeader nat
  | BadMagic bytes
  | UnsupportedVersion u16
  | UnsupportedHeaderLength nat
  | UnknownOpcode u8
  | UnknownElementType u8
  | UnknownFlags u16
  | UnexpectedCountsPrefix opcode
  | UnexpectedP2pChannelFlag opcode
  | EmptyWorld
  | RankOutOfRange string u32 u32
  | PayloadTooLarge nat
  | PayloadFlagMismatch
  | ElementLengthMismatch
  | PayloadLengthMismatch nat nat
  | FrameLengthMismatch nat nat
  | ChecksumMismatch u32 u32
  | SequenceMismatch u64 u64
  | DuplicateSubmission nat u64
  | CollectiveMismatch u64 operation_descriptor operation_descriptor
  | SequenceOverflow

text \<open>\<open>self.opcode as u8\<close>: the explicit discriminants of the \<^verbatim>\<open>repr(u8)\<close> enum.\<close>

fun opcode_code :: "opcode \<Rightarrow> u8" where
  "opcode_code Join = 1" | "opcode_code Ready = 2" | "opcode_code Broadcast = 3"
| "opcode_code AllGather = 4" | "opcode_code Gather = 5" | "opcode_code Scatter = 6"
| "opcode_code Reduce = 7" | "opcode_code AllReduce = 8" | "opcode_code ReduceScatter = 9"
| "opcode_code AllToAll = 10" | "opcode_code AllToAllV = 11" | "opcode_code Barrier = 12"
| "opcode_code Send = 13" | "opcode_code Receive = 14" | "opcode_code Abort = 15"
| "opcode_code Heartbeat = 16" | "opcode_code Leave = 17" | "opcode_code SetTimeout = 18"
| "opcode_code PeerEndpoint = 19"

definition opcode_try_from :: "u8 \<Rightarrow> protocol_error + opcode" where
  "opcode_try_from v =
     (if v = 1 then Inr Join else if v = 2 then Inr Ready else if v = 3 then Inr Broadcast
      else if v = 4 then Inr AllGather else if v = 5 then Inr Gather else if v = 6 then Inr Scatter
      else if v = 7 then Inr Reduce else if v = 8 then Inr AllReduce
      else if v = 9 then Inr ReduceScatter else if v = 10 then Inr AllToAll
      else if v = 11 then Inr AllToAllV else if v = 12 then Inr Barrier else if v = 13 then Inr Send
      else if v = 14 then Inr Receive else if v = 15 then Inr Abort else if v = 16 then Inr Heartbeat
      else if v = 17 then Inr Leave else if v = 18 then Inr SetTimeout
      else if v = 19 then Inr PeerEndpoint else Inl (UnknownOpcode v))"

fun element_code :: "element_type \<Rightarrow> u8" where
  "element_code ElemNone = 0" | "element_code U8 = 1" | "element_code U32 = 2"
| "element_code I32 = 3" | "element_code F32 = 4" | "element_code F16 = 5"
| "element_code BF16 = 6" | "element_code Bool = 7" | "element_code I8 = 8"
| "element_code I16 = 9" | "element_code I64 = 10" | "element_code F64 = 11"
| "element_code U16 = 12" | "element_code U64 = 13" | "element_code Complex64 = 14"
| "element_code Complex128 = 15" | "element_code F8E4M3Fn = 16" | "element_code F8E5M2 = 17"
| "element_code F8E4M3Fnuz = 18" | "element_code F8E5M2Fnuz = 19" | "element_code F8E8M0Fnu = 20"
| "element_code F4E2M1FnX2 = 21"

definition element_try_from :: "u8 \<Rightarrow> protocol_error + element_type" where
  "element_try_from v =
     (if v = 0 then Inr ElemNone else if v = 1 then Inr U8 else if v = 2 then Inr U32
      else if v = 3 then Inr I32 else if v = 4 then Inr F32 else if v = 5 then Inr F16
      else if v = 6 then Inr BF16 else if v = 7 then Inr Bool else if v = 8 then Inr I8
      else if v = 9 then Inr I16 else if v = 10 then Inr I64 else if v = 11 then Inr F64
      else if v = 12 then Inr U16 else if v = 13 then Inr U64 else if v = 14 then Inr Complex64
      else if v = 15 then Inr Complex128 else if v = 16 then Inr F8E4M3Fn
      else if v = 17 then Inr F8E5M2 else if v = 18 then Inr F8E4M3Fnuz
      else if v = 19 then Inr F8E5M2Fnuz else if v = 20 then Inr F8E8M0Fnu
      else if v = 21 then Inr F4E2M1FnX2 else Inl (UnknownElementType v))"

fun byte_width :: "element_type \<Rightarrow> nat" where
  "byte_width ElemNone = 0"
| "byte_width U8 = 1" | "byte_width Bool = 1" | "byte_width I8 = 1"
| "byte_width F8E4M3Fn = 1" | "byte_width F8E5M2 = 1" | "byte_width F8E4M3Fnuz = 1"
| "byte_width F8E5M2Fnuz = 1" | "byte_width F8E8M0Fnu = 1" | "byte_width F4E2M1FnX2 = 1"
| "byte_width F16 = 2" | "byte_width BF16 = 2" | "byte_width I16 = 2" | "byte_width U16 = 2"
| "byte_width U32 = 4" | "byte_width I32 = 4" | "byte_width F32 = 4"
| "byte_width I64 = 8" | "byte_width F64 = 8" | "byte_width U64 = 8" | "byte_width Complex64 = 8"
| "byte_width Complex128 = 16"

definition is_low_precision_storage :: "element_type \<Rightarrow> bool" where
  "is_low_precision_storage e \<longleftrightarrow>
     e = F8E4M3Fn \<or> e = F8E5M2 \<or> e = F8E4M3Fnuz \<or> e = F8E5M2Fnuz \<or> e = F8E8M0Fnu \<or> e = F4E2M1FnX2"

lemma opcode_code_roundtrip [simp]: "opcode_try_from (opcode_code c) = Inr c"
  by (cases c) (simp_all add: opcode_try_from_def)

lemma opcode_try_from_ok: "opcode_try_from v = Inr c \<Longrightarrow> opcode_code c = v"
  by (auto simp: opcode_try_from_def split: if_splits)

lemma element_code_roundtrip [simp]: "element_try_from (element_code e) = Inr e"
  by (cases e) (simp_all add: element_try_from_def)

lemma element_try_from_ok: "element_try_from v = Inr e \<Longrightarrow> element_code e = v"
  by (auto simp: element_try_from_def split: if_splits)

lemma byte_width_pos_iff: "0 < byte_width e \<longleftrightarrow> e \<noteq> ElemNone"
  by (cases e) simp_all

lemma byte_width_le: "byte_width e \<le> 16"
  by (cases e) simp_all

lemma low_precision_codes:
  "is_low_precision_storage e \<longleftrightarrow> 16 \<le> unat (element_code e)"
  by (cases e) (simp_all add: is_low_precision_storage_def)

section \<open>Frame headers\<close>

record frame_header =
  fh_opcode :: opcode
  fh_element_type :: element_type
  fh_flags :: u16
  fh_source_rank :: u32
  fh_destination_rank :: u32
  fh_root_rank :: u32
  fh_world_size :: u32
  fh_sequence :: u64
  fh_tag :: u64
  fh_element_count :: u64
  fh_payload_bytes :: u64
  fh_unique_id :: bytes
  fh_payload_checksum :: u32

record frame =
  f_header :: frame_header
  f_payload :: bytes

text \<open>The source type \<^verbatim>\<open>UniqueId([u8; 16])\<close> fixes the length of the identifier.\<close>

definition unique_id_ok :: "bytes \<Rightarrow> bool" where
  "unique_id_ok u \<longleftrightarrow> length u = 16"

text \<open>\<open>UniqueId::new\<close>: clock, process id and counter mixed in 128 bits.\<close>

definition unique_id_new :: "128 word \<Rightarrow> u32 \<Rightarrow> u64 \<Rightarrow> bytes" where
  "unique_id_new time process counter =
     le_bytes 16 (time XOR push_bit 64 (ucast counter) XOR push_bit 32 (ucast process))"

definition collective_header ::
  "(bytes \<Rightarrow> u32) \<Rightarrow> bytes \<Rightarrow> opcode \<Rightarrow> element_type \<Rightarrow> u32 \<Rightarrow> u32 \<Rightarrow> u32 \<Rightarrow> u64 \<Rightarrow> u64 \<Rightarrow> frame_header" where
  "collective_header crc uid opc et source_rank root_rank world_size seqn element_count =
     \<lparr> fh_opcode = opc, fh_element_type = et, fh_flags = 0, fh_source_rank = source_rank,
       fh_destination_rank = ANY_RANK, fh_root_rank = root_rank, fh_world_size = world_size,
       fh_sequence = seqn, fh_tag = 0, fh_element_count = element_count, fh_payload_bytes = 0,
       fh_unique_id = uid, fh_payload_checksum = crc [] \<rparr>"

definition validate_rank :: "string \<Rightarrow> u32 \<Rightarrow> u32 \<Rightarrow> bool \<Rightarrow> protocol_error + unit" where
  "validate_rank name rank world_size allow_any =
     (if (allow_any \<and> rank = ANY_RANK) \<or> rank < world_size then Inr ()
      else Inl (RankOutOfRange name rank world_size))"

text \<open>The element-length clause of \<open>FrameHeader::validate\<close>.\<close>

definition validate_lengths :: "frame_header \<Rightarrow> protocol_error + unit" where
  "validate_lengths h =
     (if fh_element_type h = ElemNone then
        (if fh_element_count h \<noteq> 0 \<or> fh_payload_bytes h \<noteq> 0 then Inl ElementLengthMismatch
         else Inr ())
      else if fh_flags h AND FLAG_PAYLOAD \<noteq> 0 then
        bind_r (ok_or (checked_mul 64 (unat (fh_element_count h)) (byte_width (fh_element_type h)))
                  ElementLengthMismatch) (\<lambda>element_bytes.
        bind_r (if fh_flags h AND FLAG_COUNTS_PREFIX \<noteq> 0
                then ok_or (checked_mul 64 (unat (fh_world_size h)) 8) ElementLengthMismatch
                else Inr 0) (\<lambda>prefix_bytes.
        bind_r (ok_or (checked_add 64 element_bytes prefix_bytes) ElementLengthMismatch) (\<lambda>expected.
        check_r (expected = unat (fh_payload_bytes h)) ElementLengthMismatch)))
      else Inr ())"

definition validate_payload ::
  "(bytes \<Rightarrow> u32) \<Rightarrow> frame_header \<Rightarrow> bytes option \<Rightarrow> nat \<Rightarrow> protocol_error + unit" where
  "validate_payload crc h payload payload_bytes =
     (case payload of None \<Rightarrow> Inr ()
      | Some p \<Rightarrow>
          if length p \<noteq> payload_bytes then Inl (PayloadLengthMismatch payload_bytes (length p))
          else if crc p \<noteq> fh_payload_checksum h
            then Inl (ChecksumMismatch (fh_payload_checksum h) (crc p))
          else Inr ())"

definition validate ::
  "(bytes \<Rightarrow> u32) \<Rightarrow> frame_header \<Rightarrow> bytes option \<Rightarrow> protocol_error + unit" where
  "validate crc h payload =
     (let unknown_flags = fh_flags h AND NOT (FLAG_PAYLOAD OR FLAG_COUNTS_PREFIX OR FLAG_P2P_CHANNEL);
          has_counts_prefix = (fh_flags h AND FLAG_COUNTS_PREFIX \<noteq> 0);
          has_payload = (fh_flags h AND FLAG_PAYLOAD \<noteq> 0)
      in if unknown_flags \<noteq> 0 then Inl (UnknownFlags unknown_flags)
      else if has_counts_prefix \<and> fh_opcode h \<noteq> AllToAllV
        then Inl (UnexpectedCountsPrefix (fh_opcode h))
      else if fh_flags h AND FLAG_P2P_CHANNEL \<noteq> 0 \<and> fh_opcode h \<noteq> Join \<and> fh_opcode h \<noteq> Ready
        then Inl (UnexpectedP2pChannelFlag (fh_opcode h))
      else if fh_world_size h = 0 then Inl EmptyWorld
      else bind_r (validate_rank ''source'' (fh_source_rank h) (fh_world_size h) False) (\<lambda>_.
           bind_r (validate_rank ''destination'' (fh_destination_rank h) (fh_world_size h) True) (\<lambda>_.
           bind_r (validate_rank ''root'' (fh_root_rank h) (fh_world_size h) True) (\<lambda>_.
           bind_r (ok_or (usize_try_from (fh_payload_bytes h)) (PayloadTooLarge usize_max))
             (\<lambda>payload_bytes.
           if payload_bytes > MAX_FRAME_PAYLOAD_BYTES then Inl (PayloadTooLarge payload_bytes)
           else if has_payload \<noteq> (fh_payload_bytes h \<noteq> 0) then Inl PayloadFlagMismatch
           else bind_r (validate_lengths h) (\<lambda>_. validate_payload crc h payload payload_bytes))))))"

definition with_payload ::
  "(bytes \<Rightarrow> u32) \<Rightarrow> frame_header \<Rightarrow> bytes \<Rightarrow> protocol_error + frame_header" where
  "with_payload crc h payload =
     (if length payload > MAX_FRAME_PAYLOAD_BYTES then Inl (PayloadTooLarge (length payload))
      else let h' = h\<lparr> fh_flags := fh_flags h OR FLAG_PAYLOAD,
                       fh_payload_bytes := of_nat (length payload),
                       fh_payload_checksum := crc payload \<rparr>
           in bind_r (validate crc h' None) (\<lambda>_. Inr h'))"

definition put_u16 :: "bytes \<Rightarrow> nat \<Rightarrow> u16 \<Rightarrow> bytes" where
  "put_u16 bs off v = copy_at bs off (u16_le v)"
definition put_u32 :: "bytes \<Rightarrow> nat \<Rightarrow> u32 \<Rightarrow> bytes" where
  "put_u32 bs off v = copy_at bs off (u32_le v)"
definition put_u64 :: "bytes \<Rightarrow> nat \<Rightarrow> u64 \<Rightarrow> bytes" where
  "put_u64 bs off v = copy_at bs off (u64_le v)"
definition get_u16 :: "bytes \<Rightarrow> nat \<Rightarrow> u16" where
  "get_u16 bs off = from_le_bytes (subslice off (off + 2) bs)"
definition get_u32 :: "bytes \<Rightarrow> nat \<Rightarrow> u32" where
  "get_u32 bs off = from_le_bytes (subslice off (off + 4) bs)"
definition get_u64 :: "bytes \<Rightarrow> nat \<Rightarrow> u64" where
  "get_u64 bs off = from_le_bytes (subslice off (off + 8) bs)"

definition encode_header :: "(bytes \<Rightarrow> u32) \<Rightarrow> frame_header \<Rightarrow> protocol_error + bytes" where
  "encode_header crc h =
     bind_r (validate crc h None) (\<lambda>_.
       let b = replicate FRAME_HEADER_BYTES 0;
           b = copy_at b 0 PROTOCOL_MAGIC;
           b = put_u16 b 4 PROTOCOL_VERSION;
           b = put_u16 b 6 (of_nat FRAME_HEADER_BYTES);
           b = b[8 := opcode_code (fh_opcode h)];
           b = b[9 := element_code (fh_element_type h)];
           b = put_u16 b 10 (fh_flags h);
           b = put_u32 b 12 (fh_source_rank h);
           b = put_u32 b 16 (fh_destination_rank h);
           b = put_u32 b 20 (fh_root_rank h);
           b = put_u32 b 24 (fh_world_size h);
           b = put_u64 b 28 (fh_sequence h);
           b = put_u64 b 36 (fh_tag h);
           b = put_u64 b 44 (fh_element_count h);
           b = put_u64 b 52 (fh_payload_bytes h);
           b = copy_at b 60 (fh_unique_id h);
           b = put_u32 b 76 (fh_payload_checksum h)
       in Inr b)"

definition decode_header :: "(bytes \<Rightarrow> u32) \<Rightarrow> bytes \<Rightarrow> protocol_error + frame_header" where
  "decode_header crc bs =
     (if length bs < FRAME_HEADER_BYTES then Inl (TruncatedHeader (length bs))
      else if subslice 0 4 bs \<noteq> PROTOCOL_MAGIC then Inl (BadMagic (subslice 0 4 bs))
      else if get_u16 bs 4 \<noteq> PROTOCOL_VERSION then Inl (UnsupportedVersion (get_u16 bs 4))
      else if unat (get_u16 bs 6) \<noteq> FRAME_HEADER_BYTES
        then Inl (UnsupportedHeaderLength (unat (get_u16 bs 6)))
      else bind_r (opcode_try_from (bs ! 8)) (\<lambda>opc.
           bind_r (element_try_from (bs ! 9)) (\<lambda>et.
           let h = \<lparr> fh_opcode = opc, fh_element_type = et, fh_flags = get_u16 bs 10,
                     fh_source_rank = get_u32 bs 12, fh_destination_rank = get_u32 bs 16,
                     fh_root_rank = get_u32 bs 20, fh_world_size = get_u32 bs 24,
                     fh_sequence = get_u64 bs 28, fh_tag = get_u64 bs 36,
                     fh_element_count = get_u64 bs 44, fh_payload_bytes = get_u64 bs 52,
                     fh_unique_id = subslice 60 76 bs, fh_payload_checksum = get_u32 bs 76 \<rparr>
           in bind_r (validate crc h None) (\<lambda>_. Inr h))))"

section \<open>Frames\<close>

definition frame_new :: "(bytes \<Rightarrow> u32) \<Rightarrow> frame_header \<Rightarrow> bytes \<Rightarrow> protocol_error + frame" where
  "frame_new crc h payload =
     bind_r (if payload = [] then bind_r (validate crc h (Some payload)) (\<lambda>_. Inr h)
             else with_payload crc h payload)
       (\<lambda>h'. Inr \<lparr> f_header = h', f_payload = payload \<rparr>)"

definition encode_frame :: "(bytes \<Rightarrow> u32) \<Rightarrow> frame \<Rightarrow> protocol_error + bytes" where
  "encode_frame crc f =
     bind_r (validate crc (f_header f) (Some (f_payload f))) (\<lambda>_.
     bind_r (encode_header crc (f_header f)) (\<lambda>hb. Inr (hb @ f_payload f)))"

definition encode_transport_header :: "(bytes \<Rightarrow> u32) \<Rightarrow> frame \<Rightarrow> protocol_error + bytes" where
  "encode_transport_header crc f =
     bind_r (ok_or (usize_try_from (fh_payload_bytes (f_header f))) (PayloadTooLarge usize_max))
       (\<lambda>declared.
        if length (f_payload f) \<noteq> declared
          then Inl (PayloadLengthMismatch declared (length (f_payload f)))
        else encode_header crc (f_header f))"

definition decode_frame :: "(bytes \<Rightarrow> u32) \<Rightarrow> bytes \<Rightarrow> protocol_error + frame" where
  "decode_frame crc bs =
     bind_r (decode_header crc bs) (\<lambda>h.
     bind_r (ok_or (usize_try_from (fh_payload_bytes h)) (PayloadTooLarge usize_max)) (\<lambda>payload_bytes.
     bind_r (ok_or (checked_add 64 FRAME_HEADER_BYTES payload_bytes) (PayloadTooLarge payload_bytes))
       (\<lambda>expected.
        if length bs \<noteq> expected then Inl (FrameLengthMismatch expected (length bs))
        else let payload = drop FRAME_HEADER_BYTES bs
             in bind_r (validate crc h (Some payload)) (\<lambda>_.
                Inr \<lparr> f_header = h, f_payload = payload \<rparr>))))"

section \<open>Validation\<close>

lemma validate_rank_ok:
  "validate_rank name r n any = Inr u \<longleftrightarrow> (any \<and> r = ANY_RANK) \<or> r < n"
  by (simp add: validate_rank_def)

lemma validate_payload_None [simp]: "validate_payload crc h None n = Inr ()"
  by (simp add: validate_payload_def)

lemma validate_Some:
  "validate crc h (Some p) =
     bind_r (validate crc h None) (\<lambda>_. validate_payload crc h (Some p) (unat (fh_payload_bytes h)))"
  unfolding validate_def Let_def
  by (cases "validate_lengths h") (auto simp: bind_r_def split: sum.splits)

lemma validate_None_crc: "validate crc h None = validate crc' h None"
  by (simp add: validate_def Let_def)

lemma validate_payload_ok:
  "validate_payload crc h (Some p) n = Inr u \<longleftrightarrow> length p = n \<and> crc p = fh_payload_checksum h"
  by (auto simp: validate_payload_def)

text \<open>The declarative reading of a well-formed header.\<close>

definition header_wf :: "frame_header \<Rightarrow> bool" where
  "header_wf h \<longleftrightarrow>
     fh_flags h AND NOT 7 = 0 \<and>
     (bit (fh_flags h) 1 \<longrightarrow> fh_opcode h = AllToAllV) \<and>
     (bit (fh_flags h) 2 \<longrightarrow> fh_opcode h \<in> {Join, Ready}) \<and>
     fh_source_rank h < fh_world_size h \<and>
     (fh_destination_rank h = ANY_RANK \<or> fh_destination_rank h < fh_world_size h) \<and>
     (fh_root_rank h = ANY_RANK \<or> fh_root_rank h < fh_world_size h) \<and>
     unat (fh_payload_bytes h) \<le> 2 ^ 30 \<and>
     (bit (fh_flags h) 0 \<longleftrightarrow> fh_payload_bytes h \<noteq> 0) \<and>
     (fh_element_type h = ElemNone \<longrightarrow> fh_element_count h = 0 \<and> fh_payload_bytes h = 0) \<and>
     (fh_element_type h \<noteq> ElemNone \<and> fh_payload_bytes h \<noteq> 0 \<longrightarrow>
        unat (fh_payload_bytes h) =
          unat (fh_element_count h) * byte_width (fh_element_type h)
          + (if bit (fh_flags h) 1 then 8 * unat (fh_world_size h) else 0))"

lemma flag_bits:
  "(f AND FLAG_PAYLOAD \<noteq> 0) = bit f 0"
  "(f AND FLAG_COUNTS_PREFIX \<noteq> 0) = bit f 1"
  "(f AND FLAG_P2P_CHANNEL \<noteq> 0) = bit f 2"
  for f :: u16
proof -
  have A: "f AND 2 ^ n \<noteq> 0 \<longleftrightarrow> bit f n" for n
    by (simp add: and_exp_eq_0_iff_not_bit)
  show "(f AND FLAG_PAYLOAD \<noteq> 0) = bit f 0" using A[of 0] by (simp add: wire_consts)
  show "(f AND FLAG_COUNTS_PREFIX \<noteq> 0) = bit f 1" using A[of 1] by (simp add: wire_consts)
  show "(f AND FLAG_P2P_CHANNEL \<noteq> 0) = bit f 2" using A[of 2] by (simp add: wire_consts)
qed

lemma validate_lengths_ok:
  assumes "bit (fh_flags h) 0 \<longleftrightarrow> fh_payload_bytes h \<noteq> 0"
  shows "validate_lengths h = Inr u \<longleftrightarrow>
    (fh_element_type h = ElemNone \<longrightarrow> fh_element_count h = 0 \<and> fh_payload_bytes h = 0) \<and>
    (fh_element_type h \<noteq> ElemNone \<and> fh_payload_bytes h \<noteq> 0 \<longrightarrow>
       unat (fh_payload_bytes h) =
         unat (fh_element_count h) * byte_width (fh_element_type h)
         + (if bit (fh_flags h) 1 then 8 * unat (fh_world_size h) else 0))"
proof -
  have "unat (fh_payload_bytes h) < 2 ^ 64" using unsigned_less[of "fh_payload_bytes h"] by simp
  moreover have "unat (fh_world_size h) < 2 ^ 32" using unsigned_less[of "fh_world_size h"] by simp
  ultimately show ?thesis
    using assms
    by (auto simp: validate_lengths_def flag_bits result_simps machine_simps)
qed

lemma validate_ok_iff: "validate crc h None = Inr u \<longleftrightarrow> header_wf h"
proof -
  have F: "NOT (FLAG_PAYLOAD OR FLAG_COUNTS_PREFIX OR FLAG_P2P_CHANNEL) = NOT (7 :: u16)"
    by (simp add: wire_consts)
  have W: "fh_source_rank h < fh_world_size h \<Longrightarrow> fh_world_size h \<noteq> 0" by auto
  show ?thesis
    unfolding validate_def Let_def F flag_bits header_wf_def
    using W
    by (auto simp: result_simps validate_rank_ok validate_payload_def validate_lengths_ok
        MAX_FRAME_PAYLOAD_BYTES_def simp del: word_not_simps)
qed

section \<open>Codec of headers\<close>

text \<open>The wire image of a header, field by field.\<close>

definition header_layout :: "frame_header \<Rightarrow> bytes" where
  "header_layout h =
     PROTOCOL_MAGIC @ u16_le PROTOCOL_VERSION @ u16_le (of_nat FRAME_HEADER_BYTES)
     @ [opcode_code (fh_opcode h)] @ [element_code (fh_element_type h)]
     @ u16_le (fh_flags h) @ u32_le (fh_source_rank h) @ u32_le (fh_destination_rank h)
     @ u32_le (fh_root_rank h) @ u32_le (fh_world_size h) @ u64_le (fh_sequence h)
     @ u64_le (fh_tag h) @ u64_le (fh_element_count h) @ u64_le (fh_payload_bytes h)
     @ fh_unique_id h @ u32_le (fh_payload_checksum h)"

lemma length_PROTOCOL_MAGIC [simp, codec_simps]: "length PROTOCOL_MAGIC = 4"
  by (simp add: PROTOCOL_MAGIC_def)

lemma length_header_layout [codec_simps]:
  "unique_id_ok (fh_unique_id h) \<Longrightarrow> length (header_layout h) = FRAME_HEADER_BYTES"
  by (simp add: header_layout_def unique_id_ok_def FRAME_HEADER_BYTES_def)

lemma encode_header_layout:
  assumes "unique_id_ok (fh_unique_id h)"
  shows "encode_header crc h = bind_r (validate crc h None) (\<lambda>_. Inr (header_layout h))"
proof -
  note step = copy_at_zeros list_update_copy_at put_u16_def put_u32_def put_u64_def
  have len: "length (fh_unique_id h) = 16" using assms by (simp add: unique_id_ok_def)
  have start: "copy_at (replicate FRAME_HEADER_BYTES 0) 0 PROTOCOL_MAGIC
      = PROTOCOL_MAGIC @ replicate 76 0"
    using copy_at_zeros[of 0 "[]" PROTOCOL_MAGIC FRAME_HEADER_BYTES 0]
    by (simp add: FRAME_HEADER_BYTES_def)
  show ?thesis
    unfolding encode_header_def Let_def start
    by (simp add: step len del: append_assoc) (simp add: header_layout_def)
qed

lemma header_eta:
  "\<lparr> fh_opcode = fh_opcode h, fh_element_type = fh_element_type h, fh_flags = fh_flags h,
     fh_source_rank = fh_source_rank h, fh_destination_rank = fh_destination_rank h,
     fh_root_rank = fh_root_rank h, fh_world_size = fh_world_size h, fh_sequence = fh_sequence h,
     fh_tag = fh_tag h, fh_element_count = fh_element_count h,
     fh_payload_bytes = fh_payload_bytes h, fh_unique_id = fh_unique_id h,
     fh_payload_checksum = fh_payload_checksum h \<rparr> = (h :: frame_header)"
  by simp

lemma decode_header_layout:
  assumes "unique_id_ok (fh_unique_id h)"
  shows "decode_header crc (header_layout h @ rest) = bind_r (validate crc h None) (\<lambda>_. Inr h)"
proof -
  have len: "length (fh_unique_id h) = 16" using assms by (simp add: unique_id_ok_def)
  have "\<not> length (header_layout h @ rest) < FRAME_HEADER_BYTES"
    using assms by (simp add: codec_simps)
  then show ?thesis
    by (simp add: decode_header_def header_layout_def get_u16_def get_u32_def get_u64_def
        subslice_def len nth_append FRAME_HEADER_BYTES_def Let_def header_eta)
qed

lemma decode_header_Inr:
  assumes "decode_header crc bs = Inr h"
  shows "header_wf h" and "unique_id_ok (fh_unique_id h)" and "FRAME_HEADER_BYTES \<le> length bs"
    and "header_layout h = take FRAME_HEADER_BYTES bs"
proof -
  have len: "80 \<le> length bs"
    using assms by (auto simp: decode_header_def FRAME_HEADER_BYTES_def split: if_splits)
  from assms have magic: "PROTOCOL_MAGIC = subslice 0 4 bs"
    and ver: "PROTOCOL_VERSION = get_u16 bs 4"
    and hlen: "unat (get_u16 bs 6) = FRAME_HEADER_BYTES"
    and opc: "opcode_code (fh_opcode h) = bs ! 8"
    and et: "element_code (fh_element_type h) = bs ! 9"
    and fields: "fh_flags h = get_u16 bs 10" "fh_source_rank h = get_u32 bs 12"
      "fh_destination_rank h = get_u32 bs 16" "fh_root_rank h = get_u32 bs 20"
      "fh_world_size h = get_u32 bs 24" "fh_sequence h = get_u64 bs 28" "fh_tag h = get_u64 bs 36"
      "fh_element_count h = get_u64 bs 44" "fh_payload_bytes h = get_u64 bs 52"
      "fh_unique_id h = subslice 60 76 bs" "fh_payload_checksum h = get_u32 bs 76"
    and val: "validate crc h None = Inr ()"
    by (auto simp: decode_header_def Let_def result_simps dest: opcode_try_from_ok
        element_try_from_ok split: if_splits)
  show "header_wf h" using val by (simp add: validate_ok_iff)
  show "unique_id_ok (fh_unique_id h)"
    using len by (simp add: fields unique_id_ok_def length_subslice)
  show "FRAME_HEADER_BYTES \<le> length bs" using len by (simp add: FRAME_HEADER_BYTES_def)
  have le: "u16_le (get_u16 bs i) = subslice i (i + 2) bs" if "i + 2 \<le> 80" for i
    unfolding get_u16_def using that len
    by (intro le_bytes_from_le_bytes) (simp_all add: length_subslice)
  have le4: "u32_le (get_u32 bs i) = subslice i (i + 4) bs" if "i + 4 \<le> 80" for i
    unfolding get_u32_def using that len
    by (intro le_bytes_from_le_bytes) (simp_all add: length_subslice)
  have le8: "u64_le (get_u64 bs i) = subslice i (i + 8) bs" if "i + 8 \<le> 80" for i
    unfolding get_u64_def using that len
    by (intro le_bytes_from_le_bytes) (simp_all add: length_subslice)
  have h6: "of_nat FRAME_HEADER_BYTES = get_u16 bs 6" unfolding hlen[symmetric] by simp
  have two: "[bs ! 8] @ [bs ! 9] = subslice 8 10 bs"
    using subslice_two[of 8 bs] len by simp
  have "header_layout h = subslice 0 4 bs @ subslice 4 6 bs @ subslice 6 8 bs @ subslice 8 10 bs
      @ subslice 10 12 bs @ subslice 12 16 bs @ subslice 16 20 bs @ subslice 20 24 bs
      @ subslice 24 28 bs @ subslice 28 36 bs @ subslice 36 44 bs @ subslice 44 52 bs
      @ subslice 52 60 bs @ subslice 60 76 bs @ subslice 76 80 bs"
    unfolding header_layout_def h6 ver magic fields opc et two[symmetric]
    by (simp add: le le4 le8)
  also have "\<dots> = subslice 0 80 bs" by (simp add: subslice_subslice_append)
  finally show "header_layout h = take FRAME_HEADER_BYTES bs"
    by (simp add: subslice_def FRAME_HEADER_BYTES_def)
qed

section \<open>Codec of frames\<close>

text \<open>The invariant every constructed or decoded frame has.\<close>

definition frame_wf :: "(bytes \<Rightarrow> u32) \<Rightarrow> frame \<Rightarrow> bool" where
  "frame_wf crc f \<longleftrightarrow> header_wf (f_header f) \<and> unique_id_ok (fh_unique_id (f_header f)) \<and>
     length (f_payload f) = unat (fh_payload_bytes (f_header f)) \<and>
     crc (f_payload f) = fh_payload_checksum (f_header f)"

lemma header_wf_payload_le: "header_wf h \<Longrightarrow> unat (fh_payload_bytes h) \<le> 2 ^ 30"
  by (simp add: header_wf_def)

lemma validate_frame_wf:
  "unique_id_ok (fh_unique_id (f_header f)) \<Longrightarrow>
   validate crc (f_header f) (Some (f_payload f)) = Inr u \<longleftrightarrow> frame_wf crc f"
  by (auto simp: validate_Some result_simps validate_ok_iff validate_payload_ok frame_wf_def)

lemma with_payload_ok:
  assumes "with_payload crc h p = Inr h'" and "p \<noteq> []"
  shows "header_wf h' \<and> fh_unique_id h' = fh_unique_id h \<and>
    unat (fh_payload_bytes h') = length p \<and> fh_payload_checksum h' = crc p"
proof -
  have le: "length p \<le> 2 ^ 30"
    using assms by (auto simp: with_payload_def MAX_FRAME_PAYLOAD_BYTES_def split: if_splits)
  then have "unat (of_nat (length p) :: u64) = length p"
    by (simp add: unat_of_nat take_bit_nat_def)
  with assms show ?thesis
    by (auto simp: with_payload_def Let_def result_simps validate_ok_iff split: if_splits)
qed

lemma frame_new_wf:
  assumes "frame_new crc h p = Inr f" and "unique_id_ok (fh_unique_id h)"
  shows "frame_wf crc f" and "f_payload f = p"
proof -
  show "f_payload f = p" using assms by (auto simp: frame_new_def result_simps split: if_splits)
  show "frame_wf crc f"
  proof (cases "p = []")
    case True
    with assms validate_frame_wf[of f crc] show ?thesis
      by (auto simp: frame_new_def result_simps)
  next
    case False
    with assms with_payload_ok[OF _ False] show ?thesis
      by (auto simp: frame_new_def result_simps frame_wf_def)
  qed
qed

lemma encode_header_wf:
  "header_wf h \<Longrightarrow> unique_id_ok (fh_unique_id h) \<Longrightarrow> encode_header crc h = Inr (header_layout h)"
  by (simp add: encode_header_layout result_simps flip: validate_ok_iff[of crc _ "()"])

lemma decode_header_wf:
  "header_wf h \<Longrightarrow> unique_id_ok (fh_unique_id h) \<Longrightarrow> decode_header crc (header_layout h @ r) = Inr h"
  by (simp add: decode_header_layout result_simps flip: validate_ok_iff[of crc _ "()"])

lemma encode_frame_wf:
  assumes "frame_wf crc f"
  shows "encode_frame crc f = Inr (header_layout (f_header f) @ f_payload f)"
proof -
  from assms have u: "unique_id_ok (fh_unique_id (f_header f))" by (simp add: frame_wf_def)
  with assms have "validate crc (f_header f) (Some (f_payload f)) = Inr ()"
    by (simp add: validate_frame_wf)
  with assms u show ?thesis by (simp add: encode_frame_def encode_header_wf frame_wf_def)
qed

lemma encode_transport_header_wf:
  "frame_wf crc f \<Longrightarrow> encode_transport_header crc f = Inr (header_layout (f_header f))"
  by (simp add: encode_transport_header_def frame_wf_def encode_header_wf)

lemma frame_eta: "\<lparr> f_header = f_header f, f_payload = f_payload f \<rparr> = (f :: frame)"
  by simp

lemma decode_frame_encoded:
  assumes "frame_wf crc f"
  shows "decode_frame crc (header_layout (f_header f) @ f_payload f) = Inr f"
proof -
  let ?h = "f_header f"
  from assms have w: "header_wf ?h" "unique_id_ok (fh_unique_id ?h)"
    "length (f_payload f) = unat (fh_payload_bytes ?h)" by (simp_all add: frame_wf_def)
  have L: "length (header_layout ?h) = FRAME_HEADER_BYTES" using w(2) by (rule length_header_layout)
  have "validate crc ?h (Some (f_payload f)) = Inr ()"
    using assms w(2) by (simp add: validate_frame_wf)
  moreover have "FRAME_HEADER_BYTES + unat (fh_payload_bytes ?h) < 2 ^ 64"
    using header_wf_payload_le[OF w(1)] by (simp add: FRAME_HEADER_BYTES_def)
  ultimately show ?thesis
    using w L by (simp add: decode_frame_def decode_header_wf checked_add_def frame_eta)
qed

lemma decode_frame_Inr:
  assumes "decode_frame crc bs = Inr f"
  shows "frame_wf crc f" and "bs = header_layout (f_header f) @ f_payload f"
proof -
  from assms have dh: "decode_header crc bs = Inr (f_header f)"
    and pl: "f_payload f = drop FRAME_HEADER_BYTES bs"
    and v: "validate crc (f_header f) (Some (f_payload f)) = Inr ()"
    by (auto simp: decode_frame_def Let_def result_simps split: if_splits)
  note D = decode_header_Inr[OF dh]
  show "frame_wf crc f" using v D(2) by (simp add: validate_frame_wf)
  show "bs = header_layout (f_header f) @ f_payload f" using D(4) pl by simp
qed

section \<open>Properties\<close>

text \<open>
  C2. Frame round trip: every frame built by \<open>Frame::new\<close> from a 16-byte session id encodes to
  exactly 80 header bytes followed by the payload, decoding those bytes gives the frame back, and
  the transport header written without rescanning the payload is the same 80-byte prefix.
\<close>

theorem frame_roundtrip:
  assumes "frame_new crc h payload = Inr f" and "unique_id_ok (fh_unique_id h)"
  shows "\<exists>bs. encode_frame crc f = Inr bs \<and> decode_frame crc bs = Inr f \<and>
    length bs = FRAME_HEADER_BYTES + length payload \<and>
    encode_transport_header crc f = Inr (take FRAME_HEADER_BYTES bs)"
proof -
  note W = frame_new_wf[OF assms]
  then have "length (header_layout (f_header f)) = FRAME_HEADER_BYTES"
    by (intro length_header_layout) (simp add: frame_wf_def)
  with W show ?thesis
    by (auto simp: encode_frame_wf decode_frame_encoded encode_transport_header_wf)
qed

definition sample_header :: frame_header where
  "sample_header =
     (collective_header (\<lambda>bs. of_nat (length bs)) (replicate 16 7) Send U32 1 ANY_RANK 4 9 3)
       \<lparr> fh_destination_rank := 2, fh_tag := 44 \<rparr>"

definition sample_payload :: bytes where
  "sample_payload = [1, 0, 0, 0, 2, 0, 0, 0, 3, 0, 0, 0]"

theorem frame_roundtrip_witness:
  "\<exists>f bs. frame_new (\<lambda>bs. of_nat (length bs)) sample_header sample_payload = Inr f \<and>
     encode_frame (\<lambda>bs. of_nat (length bs)) f = Inr bs \<and>
     decode_frame (\<lambda>bs. of_nat (length bs)) bs = Inr f \<and> length bs = 92"
proof -
  let ?crc = "\<lambda>bs :: bytes. of_nat (length bs) :: u32"
  obtain f where f: "frame_new ?crc sample_header sample_payload = Inr f"
    by (simp add: frame_new_def with_payload_def validate_def validate_lengths_def
        validate_rank_def sample_header_def sample_payload_def collective_header_def wire_consts
        checked_mul_def checked_add_def usize_try_from_def check_r_def)
  have u: "unique_id_ok (fh_unique_id sample_header)"
    by (simp add: sample_header_def collective_header_def unique_id_ok_def)
  from frame_roundtrip[OF f u] f show ?thesis
    by (auto simp: sample_payload_def FRAME_HEADER_BYTES_def)
qed

text \<open>
  C3. The decoder accepts canonical images only: whenever \<open>Frame::decode\<close> accepts a byte string,
  the frame it returns satisfies every header rule and its checksum, and re-encoding that frame
  gives the very same bytes, so no two byte strings decode to the same frame.
\<close>

theorem decode_frame_canonical:
  assumes "decode_frame crc bs = Inr f"
  shows "frame_wf crc f \<and> encode_frame crc f = Inr bs"
  using decode_frame_Inr[OF assms] by (simp add: encode_frame_wf)

theorem decode_frame_canonical_witness:
  "\<exists>f bs. decode_frame (\<lambda>_. 0) bs = Inr f \<and> frame_wf (\<lambda>_. 0) f \<and>
     encode_frame (\<lambda>_. 0) f = Inr bs"
proof -
  let ?h = "collective_header (\<lambda>_. 0) (replicate 16 1) Barrier ElemNone 0 ANY_RANK 2 0 0"
  let ?f = "\<lparr> f_header = ?h, f_payload = [] \<rparr>"
  have "frame_wf (\<lambda>_. 0) ?f"
    by (simp add: frame_wf_def header_wf_def collective_header_def unique_id_ok_def ANY_RANK_def)
  then have d: "decode_frame (\<lambda>_. 0) (header_layout ?h @ []) = Inr ?f"
    using decode_frame_encoded[of "\<lambda>_. 0" ?f] by simp
  from decode_frame_canonical[OF d] d show ?thesis by blast
qed

text \<open>
  Header validation is sound and complete: \<open>FrameHeader::validate\<close> accepts a header without
  payload exactly when it is well-formed (only the three known flags, a counts prefix only on
  ALL_TO_ALL_V, the channel flag only on JOIN and READY, a non-empty world, ranks inside it,
  at most 1 GiB of payload, flag and length in agreement, and element count times element width
  plus the counts prefix equal to the payload length); given the payload it accepts exactly when
  moreover length and checksum agree.
\<close>

theorem validate_sound_complete:
  "(validate crc h None = Inr () \<longleftrightarrow> header_wf h) \<and>
   (validate crc h (Some p) = Inr () \<longleftrightarrow>
      header_wf h \<and> length p = unat (fh_payload_bytes h) \<and> crc p = fh_payload_checksum h)"
  by (auto simp: validate_ok_iff validate_Some result_simps validate_payload_ok)

text \<open>
  C4. Corruption is detected: replacing the payload of an encoded frame by other bytes of the
  same length whose checksum differs makes \<open>Frame::decode\<close> fail with \<open>ChecksumMismatch\<close> naming
  the declared and the actual checksum; truncating or extending the frame makes it fail with
  \<open>FrameLengthMismatch\<close>.
\<close>

theorem decode_frame_detects_corruption:
  assumes f: "frame_wf crc f"
  shows "(length q = length (f_payload f) \<and> crc q \<noteq> crc (f_payload f) \<longrightarrow>
      decode_frame crc (header_layout (f_header f) @ q)
        = Inl (ChecksumMismatch (crc (f_payload f)) (crc q))) \<and>
    (length q \<noteq> length (f_payload f) \<longrightarrow>
      decode_frame crc (header_layout (f_header f) @ q)
        = Inl (FrameLengthMismatch (FRAME_HEADER_BYTES + length (f_payload f))
                 (FRAME_HEADER_BYTES + length q)))"
proof -
  let ?h = "f_header f"
  from f have w: "header_wf ?h" "unique_id_ok (fh_unique_id ?h)"
    "unat (fh_payload_bytes ?h) = length (f_payload f)" "fh_payload_checksum ?h = crc (f_payload f)"
    by (simp_all add: frame_wf_def)
  have L: "length (header_layout ?h) = FRAME_HEADER_BYTES" using w(2) by (rule length_header_layout)
  have b: "FRAME_HEADER_BYTES + length (f_payload f) < 2 ^ 64"
    using header_wf_payload_le[OF w(1)] by (simp add: FRAME_HEADER_BYTES_def w)
  have "validate crc ?h None = Inr ()" using w by (simp add: validate_ok_iff)
  then have v: "validate crc ?h (Some q) = validate_payload crc ?h (Some q) (length (f_payload f))"
    by (simp add: validate_Some w)
  show ?thesis
    using w L b by (simp add: decode_frame_def decode_header_wf checked_add_def v validate_payload_def)
qed

theorem decode_frame_detects_corruption_witness:
  "\<exists>f q. frame_wf (\<lambda>bs. ucast (hd (bs @ [0]))) f \<and> length q = length (f_payload f) \<and>
     decode_frame (\<lambda>bs. ucast (hd (bs @ [0]))) (header_layout (f_header f) @ q)
       = Inl (ChecksumMismatch 5 6)"
proof -
  let ?crc = "\<lambda>bs :: bytes. ucast (hd (bs @ [0])) :: u32"
  let ?f = "\<lparr> f_header = (collective_header ?crc (replicate 16 1) Send U8 0 ANY_RANK 2 0 1)
                \<lparr> fh_flags := 1, fh_payload_bytes := 1, fh_payload_checksum := 5 \<rparr>,
              f_payload = [5] \<rparr>"
  have w: "frame_wf ?crc ?f"
    by (simp add: frame_wf_def header_wf_def collective_header_def unique_id_ok_def ANY_RANK_def)
  have "decode_frame ?crc (header_layout (f_header ?f) @ [6]) = Inl (ChecksumMismatch 5 6)"
    using decode_frame_detects_corruption[OF w, of "[6]"] by simp
  with w show ?thesis by (intro exI[of _ ?f] exI[of _ "[6]"]) simp
qed

end
