(* ===== verification/Agreement.thy ===== *)
theory Agreement
  imports Wire_Protocol
begin

text \<open>
  The coordinator-side sequence agreement \<open>CollectiveAgreement\<close> of \<^verbatim>\<open>src/rank/protocol.rs\<close>: the state
  with its pending table, \<open>submit\<close> with every early return, an abstract specification (the set of
  ranks that voted and the agreed descriptor), the refinement between them, and the contract that
  the routing code relies on, stated as the locale \<open>agreement_service\<close>.
\<close>

section \<open>Model\<close>

record collective_agreement =
  ca_world_size :: nat
  ca_next_sequence :: u64
  ca_pending :: "u64 \<rightharpoonup> operation_descriptor option list"

definition descriptor_new :: "opcode \<Rightarrow> element_type \<Rightarrow> u32 \<Rightarrow> u64 \<Rightarrow> operation_descriptor" where
  "descriptor_new opc et root count =
     \<lparr> od_opcode = opc, od_element_type = et, od_root_rank = root, od_element_count = count,
       od_layout_hash = 0 \<rparr>"

definition with_layout_hash :: "operation_descriptor \<Rightarrow> u64 \<Rightarrow> operation_descriptor" where
  "with_layout_hash d h = d\<lparr> od_layout_hash := h \<rparr>"

definition agreement_new :: "nat \<Rightarrow> protocol_error + collective_agreement" where
  "agreement_new world_size =
     (if world_size = 0 then Inl EmptyWorld
      else Inr \<lparr> ca_world_size = world_size, ca_next_sequence = 0, ca_pending = Map.empty \<rparr>)"

text \<open>\<open>ranks.iter().flatten().next()\<close>.\<close>

primrec first_some :: "'a option list \<Rightarrow> 'a option" where
  "first_some [] = None"
| "first_some (x # xs) = (case x of None \<Rightarrow> first_some xs | Some v \<Rightarrow> Some v)"

text \<open>The state is returned on every path: the pending entry is created before the duplicate and
  the mismatch checks, and it is removed before the sequence overflow is noticed.\<close>

definition submit ::
  "collective_agreement \<Rightarrow> nat \<Rightarrow> u64 \<Rightarrow> operation_descriptor
     \<Rightarrow> (protocol_error + bool) \<times> collective_agreement" where
  "submit a rank seqn d =
     (if rank \<ge> ca_world_size a
        then (Inl (RankOutOfRange ''source'' (of_nat rank) (of_nat (ca_world_size a))), a)
      else if seqn \<noteq> ca_next_sequence a
        then (Inl (SequenceMismatch (ca_next_sequence a) seqn), a)
      else
        let ranks = (case ca_pending a seqn of
                       Some r \<Rightarrow> r | None \<Rightarrow> replicate (ca_world_size a) None);
            a1 = a\<lparr> ca_pending := (ca_pending a)(seqn \<mapsto> ranks) \<rparr>
        in if ranks ! rank \<noteq> None then (Inl (DuplicateSubmission rank seqn), a1)
        else if (case first_some ranks of None \<Rightarrow> False | Some expected \<Rightarrow> expected \<noteq> d)
          then (Inl (CollectiveMismatch seqn (the (first_some ranks)) d), a1)
        else
          let ranks' = ranks[rank := Some d]
          in if list_all (\<lambda>x. x \<noteq> None) ranks'
             then let a2 = a1\<lparr> ca_pending := (ca_pending a1)(seqn := None) \<rparr>
                  in if unat (ca_next_sequence a) + 1 < 2 ^ 64
                     then (Inr True, a2\<lparr> ca_next_sequence := ca_next_sequence a + 1 \<rparr>)
                     else (Inl SequenceOverflow, a2)
             else (Inr False, a1\<lparr> ca_pending := (ca_pending a1)(seqn \<mapsto> ranks') \<rparr>))"

section \<open>Specification\<close>

record agreement_spec =
  as_sequence :: u64
  as_voted :: "nat set"
  as_agreed :: "operation_descriptor option"

definition spec_submit ::
  "nat \<Rightarrow> agreement_spec \<Rightarrow> nat \<Rightarrow> u64 \<Rightarrow> operation_descriptor
     \<Rightarrow> (protocol_error + bool) \<times> agreement_spec" where
  "spec_submit n s rank seqn d =
     (if rank \<ge> n then (Inl (RankOutOfRange ''source'' (of_nat rank) (of_nat n)), s)
      else if seqn \<noteq> as_sequence s then (Inl (SequenceMismatch (as_sequence s) seqn), s)
      else if rank \<in> as_voted s then (Inl (DuplicateSubmission rank seqn), s)
      else if as_agreed s \<noteq> None \<and> as_agreed s \<noteq> Some d
        then (Inl (CollectiveMismatch seqn (the (as_agreed s)) d), s)
      else if insert rank (as_voted s) = {..<n}
        then (if unat (as_sequence s) + 1 < 2 ^ 64
              then (Inr True, \<lparr> as_sequence = as_sequence s + 1, as_voted = {}, as_agreed = None \<rparr>)
              else (Inl SequenceOverflow, s\<lparr> as_voted := {}, as_agreed := None \<rparr>))
      else (Inr False, s\<lparr> as_voted := insert rank (as_voted s), as_agreed := Some d \<rparr>))"

text \<open>Abstraction: who voted, and on what, in the current round.\<close>

definition current_votes :: "collective_agreement \<Rightarrow> operation_descriptor option list" where
  "current_votes a =
     (case ca_pending a (ca_next_sequence a) of
        Some r \<Rightarrow> r | None \<Rightarrow> replicate (ca_world_size a) None)"

definition voted_ranks :: "collective_agreement \<Rightarrow> nat set" where
  "voted_ranks a = {r. r < length (current_votes a) \<and> current_votes a ! r \<noteq> None}"

definition agreed_descriptor :: "collective_agreement \<Rightarrow> operation_descriptor option" where
  "agreed_descriptor a = first_some (current_votes a)"

definition agreement_abs :: "collective_agreement \<Rightarrow> agreement_spec" where
  "agreement_abs a =
     \<lparr> as_sequence = ca_next_sequence a, as_voted = voted_ranks a, as_agreed = agreed_descriptor a \<rparr>"

definition agreement_inv :: "collective_agreement \<Rightarrow> bool" where
  "agreement_inv a \<longleftrightarrow>
     0 < ca_world_size a \<and> dom (ca_pending a) \<subseteq> {ca_next_sequence a} \<and>
     length (current_votes a) = ca_world_size a \<and>
     (\<forall>x \<in> set (current_votes a). x = None \<or> x = agreed_descriptor a) \<and>
     None \<in> set (current_votes a)"

section \<open>Refinement\<close>

lemma first_some_replicate [simp]: "first_some (replicate n None) = None"
  by (induction n) simp_all

lemma first_some_None: "first_some xs = None \<longleftrightarrow> (\<forall>x \<in> set xs. x = None)"
  by (induction xs) (auto split: option.splits)

lemma first_some_update:
  "i < length xs \<Longrightarrow> first_some xs \<in> {None, Some d} \<Longrightarrow> xs ! i = None \<Longrightarrow>
     first_some (xs[i := Some d]) = Some d"
proof (induction xs arbitrary: i)
  case (Cons x xs)
  then show ?case by (cases i) (auto split: option.splits)
qed simp

lemma voted_all_iff:
  assumes "i < length xs" and "length xs = n"
  shows "insert i {r. r < length xs \<and> xs ! r \<noteq> None} = {..<n} \<longleftrightarrow>
    list_all (\<lambda>x. x \<noteq> None) (xs[i := Some d])"
  using assms by (auto simp: list_all_length nth_list_update)

lemma voted_update:
  "i < length xs \<Longrightarrow> {r. r < length (xs[i := Some d]) \<and> xs[i := Some d] ! r \<noteq> None}
     = insert i {r. r < length xs \<and> xs ! r \<noteq> None}"
  by (auto simp: nth_list_update split: if_splits)

lemma agreement_new_inv:
  "agreement_new n = Inr a \<Longrightarrow> agreement_inv a \<and> ca_world_size a = n \<and> ca_next_sequence a = 0 \<and>
     voted_ranks a = {} \<and> agreed_descriptor a = None"
  by (auto simp: agreement_new_def agreement_inv_def current_votes_def agreed_descriptor_def
      voted_ranks_def split: if_splits)

lemma pending_seq:
  "agreement_inv a \<Longrightarrow> ca_pending a = (case ca_pending a (ca_next_sequence a) of None \<Rightarrow> Map.empty
     | Some r \<Rightarrow> [ca_next_sequence a \<mapsto> r])"
  by (rule ext) (auto simp: agreement_inv_def dom_def split: option.splits)

lemma submit_votes:
  assumes "rank < ca_world_size a" and "seqn = ca_next_sequence a"
  shows "submit a rank seqn d =
    (let ranks = current_votes a; a1 = a\<lparr> ca_pending := (ca_pending a)(seqn \<mapsto> ranks) \<rparr>
     in if ranks ! rank \<noteq> None then (Inl (DuplicateSubmission rank seqn), a1)
        else if first_some ranks \<noteq> None \<and> first_some ranks \<noteq> Some d
          then (Inl (CollectiveMismatch seqn (the (first_some ranks)) d), a1)
        else if list_all (\<lambda>x. x \<noteq> None) (ranks[rank := Some d])
          then (let a2 = a\<lparr> ca_pending := (ca_pending a)(seqn := None) \<rparr>
                in if unat seqn + 1 < 2 ^ 64 then (Inr True, a2\<lparr> ca_next_sequence := seqn + 1 \<rparr>)
                   else (Inl SequenceOverflow, a2))
        else (Inr False, a\<lparr> ca_pending := (ca_pending a)(seqn \<mapsto> ranks[rank := Some d]) \<rparr>))"
  using assms
  by (auto simp: submit_def current_votes_def Let_def not_le split: option.splits)

lemma submit_refines:
  assumes inv: "agreement_inv a"
  shows "(fst (submit a rank seqn d), agreement_abs (snd (submit a rank seqn d)))
     = spec_submit (ca_world_size a) (agreement_abs a) rank seqn d"
proof (cases "rank < ca_world_size a \<and> seqn = ca_next_sequence a")
  case False
  then show ?thesis by (auto simp: submit_def spec_submit_def agreement_abs_def not_le)
next
  case True
  let ?v = "current_votes a"
  have len: "length ?v = ca_world_size a" using inv by (simp add: agreement_inv_def)
  have none: "ca_pending a (ca_next_sequence a + 1) = None" if "unat (ca_next_sequence a) + 1 < 2 ^ 64"
  proof -
    have "ca_next_sequence a + 1 \<noteq> ca_next_sequence a" by simp
    then show ?thesis using inv by (auto simp: agreement_inv_def dom_def)
  qed
  have all: "list_all (\<lambda>x. x \<noteq> None) (?v[rank := Some d]) \<longleftrightarrow>
      insert rank (voted_ranks a) = {..<ca_world_size a}"
    unfolding voted_ranks_def using True len by (intro voted_all_iff[symmetric]) simp_all
  have upd: "first_some (?v[rank := Some d]) = Some d"
    if "?v ! rank = None" "first_some ?v = None \<or> first_some ?v = Some d"
    using True len that by (intro first_some_update) auto
  note abs = agreement_abs_def voted_ranks_def agreed_descriptor_def
  show ?thesis
    using True len none upd voted_update[of rank ?v d]
    unfolding submit_votes[OF conjunct1[OF True] conjunct2[OF True]] Let_def spec_submit_def all
    by (auto simp: abs current_votes_def first_some_None split: option.splits)
qed

lemma submit_inv:
  assumes inv: "agreement_inv a"
  shows "agreement_inv (snd (submit a rank seqn d))"
    and "ca_world_size (snd (submit a rank seqn d)) = ca_world_size a"
proof -
  let ?v = "current_votes a"
  have len: "length ?v = ca_world_size a" "0 < ca_world_size a"
    and same: "\<And>x. x \<in> set ?v \<Longrightarrow> x = None \<or> x = first_some ?v" and hole: "None \<in> set ?v"
    and dom: "dom (ca_pending a) \<subseteq> {ca_next_sequence a}"
    using inv by (auto simp: agreement_inv_def agreed_descriptor_def)
  show "ca_world_size (snd (submit a rank seqn d)) = ca_world_size a"
    by (simp add: submit_def Let_def)
  have none: "ca_pending a (ca_next_sequence a + 1) = None"
    using dom by (auto simp: dom_def)
  have upd: "\<forall>x \<in> set (?v[rank := Some d]). x = None \<or> x = first_some (?v[rank := Some d])"
    if "rank < ca_world_size a" "?v ! rank = None" "first_some ?v = None \<or> first_some ?v = Some d"
  proof -
    have "first_some (?v[rank := Some d]) = Some d" using that len by (intro first_some_update) auto
    then show ?thesis using same that(3) set_update_subset_insert[of ?v rank "Some d"] by fastforce
  qed
  show "agreement_inv (snd (submit a rank seqn d))"
  proof (cases "rank < ca_world_size a \<and> seqn = ca_next_sequence a")
    case False
    then show ?thesis using inv by (auto simp: submit_def)
  next
    case True
    have put: "agreement_inv (a\<lparr> ca_pending := (ca_pending a)(seqn \<mapsto> r) \<rparr>)"
      if "length r = ca_world_size a" "\<forall>x \<in> set r. x = None \<or> x = first_some r" "None \<in> set r" for r
      using that True len(2) dom
      by (simp add: agreement_inv_def agreed_descriptor_def current_votes_def)
    have keep: "agreement_inv (a\<lparr> ca_pending := (ca_pending a)(seqn \<mapsto> ?v) \<rparr>)"
      using len same hole by (intro put) auto
    have full: "agreement_inv (a\<lparr> ca_pending := (ca_pending a)(seqn := None) \<rparr>)"
      "agreement_inv (a\<lparr> ca_pending := (ca_pending a)(seqn := None), ca_next_sequence := seqn + 1 \<rparr>)"
      using True len(2) dom none
      by (auto simp: agreement_inv_def agreed_descriptor_def current_votes_def)
    have vote: "agreement_inv (a\<lparr> ca_pending := (ca_pending a)(seqn \<mapsto> ?v[rank := Some d]) \<rparr>)"
      if "?v ! rank = None" "first_some ?v = None \<or> first_some ?v = Some d"
        "\<not> list_all (\<lambda>x. x \<noteq> None) (?v[rank := Some d])"
      using upd[OF conjunct1[OF True] that(1,2)] that(3) len
      by (intro put) (auto simp: list_all_iff)
    show ?thesis
      unfolding submit_votes[OF conjunct1[OF True] conjunct2[OF True]] Let_def
      using keep full vote by (simp split: if_split)
  qed
qed

section \<open>The contract of an agreement service\<close>

type_synonym 'st submit_op =
  "'st \<Rightarrow> nat \<Rightarrow> u64 \<Rightarrow> operation_descriptor \<Rightarrow> (protocol_error + bool) \<times> 'st"

text \<open>A sequence of calls: the state it ends in and the calls that were accepted.\<close>

primrec submissions_final :: "'st submit_op \<Rightarrow> 'st \<Rightarrow> (nat \<times> u64 \<times> operation_descriptor) list \<Rightarrow> 'st"
  where
  "submissions_final sub st [] = st"
| "submissions_final sub st (c # cs) =
     (case c of (r, s, d) \<Rightarrow> submissions_final sub (snd (sub st r s d)) cs)"

primrec submissions_accepted ::
  "'st submit_op \<Rightarrow> 'st \<Rightarrow> (nat \<times> u64 \<times> operation_descriptor) list
     \<Rightarrow> (nat \<times> u64 \<times> operation_descriptor) list" where
  "submissions_accepted sub st [] = []"
| "submissions_accepted sub st (c # cs) =
     (case c of (r, s, d) \<Rightarrow>
        (if is_ok (fst (sub st r s d)) then [c] else [])
        @ submissions_accepted sub (snd (sub st r s d)) cs)"

text \<open>The loop over the ranks of one round, which stops at the first error.\<close>

primrec submit_ranks ::
  "'st submit_op \<Rightarrow> u64 \<Rightarrow> (nat \<times> operation_descriptor) list \<Rightarrow> 'st
     \<Rightarrow> (protocol_error + unit) \<times> 'st" where
  "submit_ranks sub s [] st = (Inr (), st)"
| "submit_ranks sub s (x # xs) st =
     (case sub st (fst x) s (snd x) of
        (Inl e, st') \<Rightarrow> (Inl e, st')
      | (Inr _, st') \<Rightarrow> submit_ranks sub s xs st')"

text \<open>One complete round: every rank once, one sequence number, one descriptor.\<close>

definition round_ok :: "nat \<Rightarrow> nat \<Rightarrow> (nat \<times> u64 \<times> operation_descriptor) list \<Rightarrow> bool" where
  "round_ok n k blk \<longleftrightarrow> distinct (map fst blk) \<and> set (map fst blk) = {..<n} \<and>
     (\<exists>d. \<forall>x \<in> set blk. snd x = (of_nat k, d))"

lemma distinct_set_card: "distinct xs \<Longrightarrow> set xs \<subset> {..<n} \<Longrightarrow> length xs < n"
  by (metis card_lessThan distinct_card finite_lessThan psubset_card_mono)

lemma round_ok_length: "round_ok n k blk \<Longrightarrow> length blk = n"
  by (metis card_lessThan distinct_card length_map round_ok_def)

locale agreement_service =
  fixes submit_op :: "'st submit_op"
    and inv :: "'st \<Rightarrow> bool"
    and size_of :: "'st \<Rightarrow> nat"
    and seq_of :: "'st \<Rightarrow> u64"
    and voted :: "'st \<Rightarrow> nat set"
    and agreed :: "'st \<Rightarrow> operation_descriptor option"
  assumes inv_submit: "inv st \<Longrightarrow> inv (snd (submit_op st r s d))"
    and size_submit: "inv st \<Longrightarrow> size_of (snd (submit_op st r s d)) = size_of st"
    and submit_spec: "inv st \<Longrightarrow> submit_op st r s d = (res, st') \<Longrightarrow>
      (res, \<lparr> as_sequence = seq_of st', as_voted = voted st', as_agreed = agreed st' \<rparr>) =
      spec_submit (size_of st)
        \<lparr> as_sequence = seq_of st, as_voted = voted st, as_agreed = agreed st \<rparr> r s d"
    and voted_proper: "inv st \<Longrightarrow> voted st \<subset> {..<size_of st}"
    and agreed_voted: "inv st \<Longrightarrow> agreed st = None \<longleftrightarrow> voted st = {}"
begin

lemma submit_more:
  assumes "inv st" "submit_op st r s d = (Inr False, st')"
  shows "r < size_of st" "s = seq_of st" "r \<notin> voted st" "agreed st = None \<or> agreed st = Some d"
    "seq_of st' = seq_of st" "voted st' = insert r (voted st)" "agreed st' = Some d"
    "inv st'" "size_of st' = size_of st"
  using submit_spec[OF assms] inv_submit[OF assms(1), of r s d] size_submit[OF assms(1), of r s d]
    assms(2)
  by (auto simp: spec_submit_def split: if_splits)

lemma submit_done:
  assumes "inv st" "submit_op st r s d = (Inr True, st')"
  shows "r < size_of st" "s = seq_of st" "r \<notin> voted st" "agreed st = None \<or> agreed st = Some d"
    "insert r (voted st) = {..<size_of st}" "unat (seq_of st) + 1 < 2 ^ 64"
    "seq_of st' = seq_of st + 1" "voted st' = {}" "agreed st' = None"
    "inv st'" "size_of st' = size_of st"
  using submit_spec[OF assms] inv_submit[OF assms(1), of r s d] size_submit[OF assms(1), of r s d]
    assms(2)
  by (auto simp: spec_submit_def split: if_splits)

lemma submit_rejected:
  assumes "inv st" "submit_op st r s d = (Inl e, st')" "unat (seq_of st) + 1 < 2 ^ 64"
  shows "seq_of st' = seq_of st" "voted st' = voted st" "agreed st' = agreed st"
    "inv st'" "size_of st' = size_of st"
  using submit_spec[OF assms(1,2)] inv_submit[OF assms(1), of r s d]
    size_submit[OF assms(1), of r s d] assms(2,3)
  by (auto simp: spec_submit_def split: if_splits)

lemma submit_ranks_round:
  assumes "inv st" and "s = seq_of st" and "voted st = {..<k}"
    and "k + length ds = size_of st" and "unat s + 1 < 2 ^ 64"
  shows "(fst (submit_ranks submit_op s (enumerate k ds) st) = Inr () \<longleftrightarrow>
      (\<exists>d. (agreed st = None \<or> agreed st = Some d) \<and> (\<forall>x \<in> set ds. x = d))) \<and>
    (fst (submit_ranks submit_op s (enumerate k ds) st) = Inr () \<longrightarrow>
      (let st' = snd (submit_ranks submit_op s (enumerate k ds) st)
       in inv st' \<and> size_of st' = size_of st \<and> seq_of st' = s + 1 \<and> voted st' = {}))"
  using assms
proof (induction ds arbitrary: k st)
  case Nil
  then show ?case using voted_proper[OF Nil.prems(1)] by simp
next
  case (Cons d ds)
  have k: "k < size_of st" using Cons.prems(4) by simp
  obtain res st' where sub: "submit_op st k s d = (res, st')" by fastforce
  note spec = submit_spec[OF Cons.prems(1) sub]
  show ?case
  proof (cases "agreed st = None \<or> agreed st = Some d")
    case False
    then have "\<exists>e. res = Inl e"
      using spec Cons.prems(2,3) k by (auto simp: spec_submit_def split: if_splits)
    with False sub show ?thesis by auto
  next
    case agr: True
    show ?thesis
    proof (cases "ds = []")
      case True
      then have "size_of st = Suc k" using Cons.prems(4) by simp
      then have "insert k (voted st) = {..<size_of st}" using Cons.prems(3) by (simp add: lessThan_Suc)
      then have r: "res = Inr True"
        using spec agr Cons.prems(2,3,5) k by (auto simp: spec_submit_def split: if_splits)
      from submit_done[OF Cons.prems(1) sub[unfolded r]] sub r True agr Cons.prems(2)
      show ?thesis by auto
    next
      case False
      then have "Suc k < size_of st" using Cons.prems(4) by (cases ds) auto
      moreover have "Suc k \<notin> insert k (voted st)" using Cons.prems(3) by simp
      ultimately have "insert k (voted st) \<noteq> {..<size_of st}" by blast
      then have r: "res = Inr False"
        using spec agr Cons.prems(2,3) k by (auto simp: spec_submit_def split: if_splits)
      note M = submit_more[OF Cons.prems(1) sub[unfolded r]]
      have "voted st' = {..<Suc k}" using M Cons.prems(3) by auto
      with M Cons.prems have IH: "(fst (submit_ranks submit_op s (enumerate (Suc k) ds) st') = Inr () \<longleftrightarrow>
          (\<exists>e. (agreed st' = None \<or> agreed st' = Some e) \<and> (\<forall>x \<in> set ds. x = e))) \<and>
        (fst (submit_ranks submit_op s (enumerate (Suc k) ds) st') = Inr () \<longrightarrow>
          (let u = snd (submit_ranks submit_op s (enumerate (Suc k) ds) st')
           in inv u \<and> size_of u = size_of st' \<and> seq_of u = s + 1 \<and> voted u = {}))"
        by (intro Cons.IH) simp_all
      then show ?thesis using M agr sub r by auto
    qed
  qed
qed

text \<open>Accepted calls are complete unanimous rounds followed by a proper part of one.\<close>

definition history :: "(nat \<times> u64 \<times> operation_descriptor) list \<Rightarrow> 'st \<Rightarrow> bool" where
  "history acc st \<longleftrightarrow> (\<exists>full part. acc = concat full @ part \<and>
     length full = unat (seq_of st) \<and> (\<forall>k < length full. round_ok (size_of st) k (full ! k)) \<and>
     distinct (map fst part) \<and> set (map fst part) = voted st \<and>
     (\<forall>x \<in> set part. fst (snd x) = seq_of st \<and> agreed st = Some (snd (snd x))))"

lemma history_step:
  assumes st: "inv st" and hist: "history acc st" and small: "unat (seq_of st) + 1 < 2 ^ 64"
  shows "history (acc @ (if is_ok (fst (submit_op st r s d)) then [(r, s, d)] else []))
    (snd (submit_op st r s d))"
proof -
  obtain res st' where sub: "submit_op st r s d = (res, st')" by fastforce
  from hist obtain full part where H: "acc = concat full @ part" "length full = unat (seq_of st)"
    "\<forall>k < length full. round_ok (size_of st) k (full ! k)" "distinct (map fst part)"
    "set (map fst part) = voted st"
    "\<forall>x \<in> set part. fst (snd x) = seq_of st \<and> agreed st = Some (snd (snd x))"
    unfolding history_def by blast
  consider (rej) e where "res = Inl e" | (more) "res = Inr False" | (full) "res = Inr True"
    by (cases res) auto
  then show ?thesis
  proof cases
    case rej
    with submit_rejected[OF st sub[unfolded rej] small] hist sub show ?thesis
      by (simp add: history_def)
  next
    case more
    note M = submit_more[OF st sub[unfolded more]]
    have "history (acc @ [(r, s, d)]) st'"
      unfolding history_def
      by (intro exI[of _ full] exI[of _ "part @ [(r, s, d)]"]) (use H M in auto)
    with more sub show ?thesis by simp
  next
    case full
    note D = submit_done[OF st sub[unfolded full]]
    let ?blk = "part @ [(r, s, d)]"
    have seq: "unat (seq_of st') = Suc (length full)"
      using D(7) unat_u64_succ[OF small] H(2) by simp
    have "(of_nat (length full) :: u64) = seq_of st" using H(2) by simp
    then have "round_ok (size_of st) (length full) ?blk"
      unfolding round_ok_def using H D by (auto intro!: exI[of _ d])
    with H(3) have "\<forall>k < length (full @ [?blk]). round_ok (size_of st') k ((full @ [?blk]) ! k)"
      using D by (auto simp: nth_append less_Suc_eq)
    then have "history (acc @ [(r, s, d)]) st'"
      unfolding history_def
      by (intro exI[of _ "full @ [?blk]"] exI[of _ "[]"]) (use H D seq in auto)
    with full sub show ?thesis by simp
  qed
qed

lemma seq_grows_by_one: "inv st \<Longrightarrow> unat (seq_of (snd (submit_op st r s d))) \<le> unat (seq_of st) + 1"
proof -
  assume st: "inv st"
  obtain res st' where sub: "submit_op st r s d = (res, st')" by fastforce
  have "seq_of st' = seq_of st \<or> seq_of st' = seq_of st + 1"
    using submit_spec[OF st sub] by (auto simp: spec_submit_def split: if_splits)
  then show ?thesis using sub by (auto simp: unat_word_ariths intro: order_trans[OF mod_less_eq_dividend])
qed

lemma history_run:
  assumes "inv st" and "history acc st" and "unat (seq_of st) + length calls < 2 ^ 64 - 1"
  shows "history (acc @ submissions_accepted submit_op st calls) (submissions_final submit_op st calls)
    \<and> inv (submissions_final submit_op st calls)
    \<and> size_of (submissions_final submit_op st calls) = size_of st"
  using assms
proof (induction calls arbitrary: st acc)
  case (Cons c cs)
  obtain r s d where c: "c = (r, s, d)" by (cases c) auto
  let ?st = "snd (submit_op st r s d)"
  let ?acc = "acc @ (if is_ok (fst (submit_op st r s d)) then [(r, s, d)] else [])"
  have "history ?acc ?st" using Cons.prems by (intro history_step) auto
  moreover have "unat (seq_of ?st) + length cs < 2 ^ 64 - 1"
    using seq_grows_by_one[OF Cons.prems(1), of r s d] Cons.prems(3) by simp
  ultimately show ?case
    using Cons.IH[OF inv_submit[OF Cons.prems(1)], of ?acc] size_submit[OF Cons.prems(1)] c by auto
qed simp

end

interpretation ca: agreement_service submit agreement_inv ca_world_size ca_next_sequence
  voted_ranks agreed_descriptor
proof
  fix st r s d
  assume inv: "agreement_inv st"
  show "agreement_inv (snd (submit st r s d))" using inv by (rule submit_inv)
  show "ca_world_size (snd (submit st r s d)) = ca_world_size st" using inv by (rule submit_inv)
  show "voted_ranks st \<subset> {..<ca_world_size st}"
  proof -
    obtain i where "i < ca_world_size st" "current_votes st ! i = None"
      using inv by (auto simp: agreement_inv_def in_set_conv_nth)
    then have "i \<in> {..<ca_world_size st} - voted_ranks st" by (simp add: voted_ranks_def)
    moreover have "voted_ranks st \<subseteq> {..<ca_world_size st}"
      using inv by (auto simp: agreement_inv_def voted_ranks_def)
    ultimately show ?thesis by blast
  qed
  show "(agreed_descriptor st = None) = (voted_ranks st = {})"
    unfolding agreed_descriptor_def voted_ranks_def first_some_None by (fastforce simp: in_set_conv_nth)
  fix res st'
  assume "submit st r s d = (res, st')"
  with submit_refines[OF inv, of r s d]
  show "(res, \<lparr> as_sequence = ca_next_sequence st', as_voted = voted_ranks st',
        as_agreed = agreed_descriptor st' \<rparr>) =
      spec_submit (ca_world_size st) \<lparr> as_sequence = ca_next_sequence st, as_voted = voted_ranks st,
        as_agreed = agreed_descriptor st \<rparr> r s d"
    by (simp add: agreement_abs_def)
qed

section \<open>Properties\<close>

text \<open>
  C6. Refinement: on every state that satisfies the agreement invariant, \<open>submit\<close> gives the same
  verdict (acceptance, readiness or exactly the same error) as the specification that only knows
  which ranks voted and on which descriptor, its new state abstracts to the specification's new
  state, and it keeps the invariant (one pending round at most, of world-size length, unanimous
  and incomplete).
\<close>

theorem agreement_refines_spec:
  assumes "agreement_inv a"
  shows "(fst (submit a rank seqn d), agreement_abs (snd (submit a rank seqn d)))
       = spec_submit (ca_world_size a) (agreement_abs a) rank seqn d \<and>
     agreement_inv (snd (submit a rank seqn d))"
  using assms by (simp add: submit_refines submit_inv)

theorem agreement_refines_spec_witness:
  "\<exists>a. agreement_new 2 = Inr a \<and> agreement_inv a \<and>
     fst (submit a 1 0 (descriptor_new Barrier ElemNone ANY_RANK 0)) = Inr False \<and>
     agreement_inv (snd (submit a 1 0 (descriptor_new Barrier ElemNone ANY_RANK 0)))"
proof -
  obtain a where a: "agreement_new 2 = Inr a" by (simp add: agreement_new_def)
  then have inv: "agreement_inv a" using agreement_new_inv[OF a] by simp
  have "fst (submit a 1 0 (descriptor_new Barrier ElemNone ANY_RANK 0)) = Inr False"
    using a by (auto simp: agreement_new_def submit_def numeral_2_eq_2)
  with a inv agreement_refines_spec[OF inv, of 1 0] show ?thesis by blast
qed

text \<open>
  C1. Safety of the coordinator's ordering: start from a fresh agreement of \<open>n\<close> ranks and make
  any calls to \<open>submit\<close> in any order, with any ranks, sequence numbers and descriptors, fewer than
  \<open>2 ^ 64 - 1\<close> of them. The accepted calls are a list of complete rounds, followed by part of one
  more: the \<open>k\<close>-th round holds each rank exactly once, all with sequence number \<open>k\<close> and the same
  descriptor, and the number of complete rounds is the next sequence number.
\<close>

theorem agreement_accepts_unanimous_rounds:
  assumes "agreement_new n = Inr a" and "length calls < 2 ^ 64 - 1"
  shows "\<exists>rounds part. submissions_accepted submit a calls = concat rounds @ part \<and>
    length rounds = unat (ca_next_sequence (submissions_final submit a calls)) \<and>
    (\<forall>k < length rounds. round_ok n k (rounds ! k)) \<and>
    distinct (map fst part) \<and> length part < n"
proof -
  note N = agreement_new_inv[OF assms(1)]
  have start: "ca.history [] a"
    unfolding ca.history_def using N by (auto intro!: exI[of _ "[]"])
  let ?fin = "submissions_final submit a calls"
  have R: "ca.history (submissions_accepted submit a calls) ?fin"
    "agreement_inv ?fin" "ca_world_size ?fin = n"
    using ca.history_run[OF _ start, of calls] N assms(2) by auto
  from R(1) obtain full part where H: "submissions_accepted submit a calls = concat full @ part"
    "length full = unat (ca_next_sequence ?fin)" "\<forall>k < length full. round_ok n k (full ! k)"
    "distinct (map fst part)" "set (map fst part) = voted_ranks ?fin"
    unfolding ca.history_def R(3) by blast
  have "length (map fst part) < n"
    using H(4,5) ca.voted_proper[OF R(2)] R(3) by (intro distinct_set_card) simp_all
  then show ?thesis
    by (intro exI[of _ full] exI[of _ part]) (use H in \<open>simp_all\<close>)
qed

theorem agreement_accepts_unanimous_rounds_witness:
  "\<exists>a d. agreement_new 1 = Inr a \<and>
     submissions_accepted submit a [(0, 0, d), (0, 0, d), (0, 1, d)] = [(0, 0, d), (0, 1, d)] \<and>
     (\<exists>rounds part. [(0, 0, d), (0, 1, d)] = concat rounds @ part \<and> length rounds = 2 \<and>
        (\<forall>k < 2. round_ok 1 k (rounds ! k)))"
proof -
  let ?a = "\<lparr> ca_world_size = 1, ca_next_sequence = 0, ca_pending = Map.empty \<rparr>"
  let ?d = "descriptor_new Barrier ElemNone ANY_RANK 0"
  let ?calls = "[(0, 0, ?d), (0, 0, ?d), (0, 1, ?d)]"
  have a: "agreement_new 1 = Inr ?a" by (simp add: agreement_new_def)
  have acc: "submissions_accepted submit ?a ?calls = [(0, 0, ?d), (0, 1, ?d)]"
    by (simp add: submit_def)
  have fin: "unat (ca_next_sequence (submissions_final submit ?a ?calls)) = 2"
    by (simp add: submit_def)
  have len: "length ?calls < 2 ^ 64 - 1" by simp
  obtain rounds part where "[(0, 0, ?d), (0, 1, ?d)] = concat rounds @ part"
    "length rounds = 2" "\<forall>k < length rounds. round_ok 1 k (rounds ! k)"
    using agreement_accepts_unanimous_rounds[OF a len, unfolded acc fin] by blast
  with a acc show ?thesis by (intro exI[of _ ?a] exI[of _ ?d]) auto
qed

text \<open>
  Completion of a round: when no vote of the current round is pending and every rank of the
  world submits once in rank order, the loop over the ranks succeeds exactly when all descriptors
  are equal, and then the agreement has moved to the next sequence number with an empty round.
\<close>

theorem agreement_round_completes:
  assumes "agreement_inv a" and "voted_ranks a = {}" and "length ds = ca_world_size a"
    and "unat (ca_next_sequence a) + 1 < 2 ^ 64"
  shows "(fst (submit_ranks submit (ca_next_sequence a) (enumerate 0 ds) a) = Inr () \<longleftrightarrow>
      (\<exists>d. \<forall>x \<in> set ds. x = d)) \<and>
    (fst (submit_ranks submit (ca_next_sequence a) (enumerate 0 ds) a) = Inr () \<longrightarrow>
      ca_next_sequence (snd (submit_ranks submit (ca_next_sequence a) (enumerate 0 ds) a))
        = ca_next_sequence a + 1 \<and>
      voted_ranks (snd (submit_ranks submit (ca_next_sequence a) (enumerate 0 ds) a)) = {})"
  using ca.submit_ranks_round[of a "ca_next_sequence a" 0 ds] assms ca.agreed_voted[OF assms(1)]
  by (auto simp: Let_def)

theorem agreement_round_completes_witness:
  "\<exists>a. agreement_new 2 = Inr a \<and>
     fst (submit_ranks submit 0 (enumerate 0 (replicate 2 (descriptor_new Barrier ElemNone ANY_RANK 0))) a)
       = Inr ()"
proof -
  obtain a where a: "agreement_new 2 = Inr a" by (simp add: agreement_new_def)
  note N = agreement_new_inv[OF a]
  let ?ds = "replicate 2 (descriptor_new Barrier ElemNone ANY_RANK 0)"
  from N have h: "agreement_inv a" "voted_ranks a = {}" "length ?ds = ca_world_size a"
    "unat (ca_next_sequence a) + 1 < 2 ^ 64" by auto
  from agreement_round_completes[OF h] N a show ?thesis by auto
qed

end
