(* ===== verification/Frame_Stream.thy ===== *)
theory Frame_Stream
  imports Wire_Protocol
begin

text \<open>
  Frames on a byte stream: the error types of \<^verbatim>\<open>src/rank/network.rs\<close> and \<^verbatim>\<open>src/rank/error.rs\<close>,
  \<open>write_frame\<close> and \<open>read_frame\<close> over the bytes of a TCP connection, and the reader thread that
  turns a connection into events. A connection is the list of bytes that arrive before its end;
  how many bytes the first vectored write takes is the argument \<open>written\<close>.
\<close>

section \<open>Errors\<close>

datatype msg_arg =
    ANat nat | AOpcode opcode | AElem element_type | ABytes bytes | AStr string
  | AErr network_error
and message = Msg string "msg_arg list"
and network_error =
    Io string
  | Protocol protocol_error
  | InvalidConfiguration message
  | RankAlreadyJoined u32
  | WrongSession
  | WrongDestination u32 u32
  | RemoteAbort message
  | NetTimeout message
  | ChannelClosed
  | Poisoned

datatype rank_error =
    RankRankOutOfRange nat nat
  | InvalidLength string
  | Overflow string
  | Network network_error

abbreviation invalid_configuration :: "string \<Rightarrow> msg_arg list \<Rightarrow> network_error" where
  "invalid_configuration t args \<equiv> InvalidConfiguration (Msg t args)"

section \<open>Writing and reading frames\<close>

definition write_frame ::
  "(bytes \<Rightarrow> u32) \<Rightarrow> nat \<Rightarrow> frame \<Rightarrow> network_error + bytes" where
  "write_frame crc written f =
     bind_r (map_err Protocol (encode_transport_header crc f)) (\<lambda>header.
       let total = length header + length (f_payload f);
           first = take written (header @ f_payload f)
       in Inr (if written < length header then first @ drop written header @ f_payload f
               else if written < total then first @ drop (written - length header) (f_payload f)
               else first))"

definition read_frame ::
  "(bytes \<Rightarrow> u32) \<Rightarrow> bytes \<Rightarrow> network_error + (frame \<times> bytes) option" where
  "read_frame crc stream =
     (case stream of
        [] \<Rightarrow> Inr None
      | b # rest \<Rightarrow>
          if length rest < FRAME_HEADER_BYTES - 1 then Inl (Io ''failed to fill whole buffer'')
          else
            let header_bytes = b # take (FRAME_HEADER_BYTES - 1) rest;
                rest = drop (FRAME_HEADER_BYTES - 1) rest
            in bind_r (map_err Protocol (decode_header crc header_bytes)) (\<lambda>header.
               bind_r (ok_or (usize_try_from (fh_payload_bytes header))
                         (invalid_configuration ''frame payload length exceeds usize'' []))
                 (\<lambda>payload_length.
                  if length rest < payload_length then Inl (Io ''failed to fill whole buffer'')
                  else let payload = take payload_length rest
                       in bind_r (map_err Protocol (validate crc header (Some payload))) (\<lambda>_.
                          Inr (Some (\<lparr> f_header = header, f_payload = payload \<rparr>,
                                     drop payload_length rest))))))"

lemma read_frame_shorter:
  "read_frame crc bs = Inr (Some (f, rest)) \<Longrightarrow> length rest < length bs"
  by (auto simp: read_frame_def Let_def result_simps split: list.splits if_splits)

section \<open>The reader thread of a rank connection\<close>

datatype collective_event =
    EvFrame nat frame
  | EvClosed nat
  | EvFailed nat network_error

text \<open>The loop sends one event per frame and stops after the first terminal event.\<close>

function reader_events :: "(bytes \<Rightarrow> u32) \<Rightarrow> nat \<Rightarrow> bytes \<Rightarrow> collective_event list" where
  "reader_events crc rank bs =
     (case read_frame crc bs of
        Inl e \<Rightarrow> [EvFailed rank e]
      | Inr None \<Rightarrow> [EvClosed rank]
      | Inr (Some (f, rest)) \<Rightarrow> EvFrame rank f # reader_events crc rank rest)"
  by pat_completeness auto
termination
  by (relation "measure (\<lambda>(crc, rank, bs). length bs)") (auto dest: read_frame_shorter)

declare reader_events.simps [simp del]

section \<open>Lemmas\<close>

lemma write_frame_wf:
  assumes "frame_wf crc f"
  shows "write_frame crc written f = Inr (header_layout (f_header f) @ f_payload f)"
proof -
  have "take n xs @ drop n xs @ ys = xs @ ys" for n and xs ys :: bytes
    by (metis append.assoc append_take_drop_id)
  then show ?thesis
    by (simp add: write_frame_def encode_transport_header_wf[OF assms] Let_def)
qed

lemma read_frame_written:
  assumes "frame_wf crc f"
  shows "read_frame crc (header_layout (f_header f) @ f_payload f @ rest) = Inr (Some (f, rest))"
proof -
  let ?h = "f_header f"
  from assms have w: "header_wf ?h" "unique_id_ok (fh_unique_id ?h)"
    "unat (fh_payload_bytes ?h) = length (f_payload f)" by (simp_all add: frame_wf_def)
  obtain b hs where hl: "header_layout ?h = b # hs" "length hs = FRAME_HEADER_BYTES - 1"
    using length_header_layout[OF w(2)] by (cases "header_layout ?h") (auto simp: FRAME_HEADER_BYTES_def)
  have d: "decode_header crc (b # hs) = Inr ?h"
    using decode_header_wf[OF w(1,2), of crc "[]"] by (simp add: hl)
  have "validate crc ?h (Some (f_payload f)) = Inr ()"
    using assms w(2) by (simp add: validate_frame_wf)
  then show ?thesis
    using hl d w by (simp add: read_frame_def Let_def)
qed

lemma read_frame_Some:
  assumes "read_frame crc bs = Inr (Some (f, rest))"
  shows "frame_wf crc f" and "bs = header_layout (f_header f) @ f_payload f @ rest"
proof -
  from assms obtain b tl' where bs: "bs = b # tl'"
    by (auto simp: read_frame_def split: list.splits)
  let ?n = "FRAME_HEADER_BYTES - 1"
  from assms bs have dh: "decode_header crc (b # take ?n tl') = Inr (f_header f)"
    and v: "validate crc (f_header f) (Some (f_payload f)) = Inr ()"
    and rest: "f_payload f @ rest = drop ?n tl'"
    by (auto simp: read_frame_def Let_def result_simps simp del: drop_drop split: if_splits)
  note D = decode_header_Inr[OF dh]
  show "frame_wf crc f" using v D(2) by (simp add: validate_frame_wf)
  have "header_layout (f_header f) = b # take ?n tl'"
    using D(4) by (simp add: FRAME_HEADER_BYTES_def)
  then show "bs = header_layout (f_header f) @ f_payload f @ rest"
    by (simp add: rest bs)
qed

section \<open>Properties\<close>

text \<open>
  C5. A connection delivers frames intact and in order: writing any list of well-formed frames
  with \<open>write_frame\<close>, whatever number of bytes each vectored write takes at first, and then
  closing the connection makes the reader thread emit exactly those frames in that order,
  followed by \<open>Closed\<close>.
\<close>

theorem stream_delivers_in_order:
  assumes "list_all2 (\<lambda>(n, f) bs. write_frame crc n f = Inr bs) (zip ns fs) bss"
    and "length ns = length fs" and "\<forall>f \<in> set fs. frame_wf crc f"
  shows "reader_events crc rank (concat bss) = map (EvFrame rank) fs @ [EvClosed rank]"
  using assms
proof (induction fs arbitrary: ns bss)
  case Nil
  then show ?case by (simp add: reader_events.simps read_frame_def)
next
  case (Cons f fs)
  then obtain n ns' bs bss' where ns: "ns = n # ns'" and bss: "bss = bs # bss'"
    and w: "write_frame crc n f = Inr bs"
    and rest: "list_all2 (\<lambda>(n, f) bs. write_frame crc n f = Inr bs) (zip ns' fs) bss'"
    by (cases ns) (auto simp: list_all2_Cons1)
  have wf: "frame_wf crc f" using Cons.prems by simp
  then have bs: "bs = header_layout (f_header f) @ f_payload f" using w by (simp add: write_frame_wf)
  have "read_frame crc (concat bss) = Inr (Some (f, concat bss'))"
    by (simp add: bss bs read_frame_written[OF wf])
  moreover have "reader_events crc rank (concat bss') = map (EvFrame rank) fs @ [EvClosed rank]"
    using rest Cons.prems ns by (intro Cons.IH) auto
  ultimately show ?case by (simp add: reader_events.simps[of crc rank "concat bss"])
qed

theorem stream_delivers_in_order_witness:
  "\<exists>f bs. write_frame (\<lambda>_. 0) 3 f = Inr bs \<and>
     reader_events (\<lambda>_. 0) 1 (concat [bs, bs]) = [EvFrame 1 f, EvFrame 1 f, EvClosed 1]"
proof -
  let ?f = "\<lparr> f_header = collective_header (\<lambda>_. 0) (replicate 16 1) Barrier ElemNone 0 ANY_RANK 2 0 0,
              f_payload = [] \<rparr>"
  have w: "frame_wf (\<lambda>_. 0) ?f"
    by (simp add: frame_wf_def header_wf_def collective_header_def unique_id_ok_def ANY_RANK_def)
  let ?bs = "header_layout (f_header ?f) @ f_payload ?f"
  have wr: "write_frame (\<lambda>_. 0) n ?f = Inr ?bs" for n using w by (rule write_frame_wf)
  have "reader_events (\<lambda>_. 0) 1 (concat [?bs, ?bs]) = map (EvFrame 1) [?f, ?f] @ [EvClosed 1]"
    using w wr by (intro stream_delivers_in_order[where ns = "[3, 80]"]) simp_all
  with wr[of 3] show ?thesis by (intro exI[of _ ?f] exI[of _ ?bs]) simp
qed

text \<open>
  What the reader accepts is a prefix of well-formed frame images: if \<open>read_frame\<close> returns a
  frame and the remaining stream, the bytes consumed are exactly the image \<open>Frame::encode\<close> gives
  for that frame, and the stream got strictly shorter (so the reader loop terminates).
\<close>

theorem read_frame_consumes_encoding:
  assumes "read_frame crc bs = Inr (Some (f, rest))"
  shows "\<exists>image. encode_frame crc f = Inr image \<and> bs = image @ rest \<and> length rest < length bs"
  using read_frame_Some[OF assms] read_frame_shorter[OF assms] by (simp add: encode_frame_wf)

theorem read_frame_consumes_encoding_witness:
  "\<exists>f image. read_frame (\<lambda>_. 0) (image @ [9]) = Inr (Some (f, [9])) \<and>
     encode_frame (\<lambda>_. 0) f = Inr image"
proof -
  let ?f = "\<lparr> f_header = collective_header (\<lambda>_. 0) (replicate 16 1) Barrier ElemNone 0 ANY_RANK 2 0 0,
              f_payload = [] \<rparr>"
  have w: "frame_wf (\<lambda>_. 0) ?f"
    by (simp add: frame_wf_def header_wf_def collective_header_def unique_id_ok_def ANY_RANK_def)
  have r: "read_frame (\<lambda>_. 0) (header_layout (f_header ?f) @ [9]) = Inr (Some (?f, [9]))"
    using read_frame_written[OF w, of "[9]"] by simp
  from read_frame_consumes_encoding[OF r] r show ?thesis by (auto simp: append_eq_append_conv)
qed

end
