(* ===== verification/Rank_Layout.thy ===== *)
theory Rank_Layout
  imports Frame_Stream
begin

text \<open>
  The partition arithmetic of \<^verbatim>\<open>src/rank/layout.rs\<close>, the agreement and data tags of
  \<^verbatim>\<open>src/rank/tags.rs\<close>, the reduction operations of \<^verbatim>\<open>src/rank/operation.rs\<close> and the exchange
  options of \<^verbatim>\<open>src/rank/network.rs\<close>. A Rust \<open>Range<usize>\<close> is the pair of its bounds.
\<close>

section \<open>Partitions\<close>

text \<open>The closure of \<open>balanced_ranges\<close> mutates \<open>start\<close>; the loop threads it. \<open>None\<close> is the panic of
  the division by zero.\<close>

fun balanced_ranges_loop :: "nat \<Rightarrow> nat \<Rightarrow> nat \<Rightarrow> nat list \<Rightarrow> (nat \<times> nat) list" where
  "balanced_ranges_loop base remainder start [] = []"
| "balanced_ranges_loop base remainder start (part # rest) =
     (let part_length = base + (if part < remainder then 1 else 0)
      in (start, start + part_length) #
         balanced_ranges_loop base remainder (start + part_length) rest)"

definition balanced_ranges :: "nat \<Rightarrow> nat \<Rightarrow> (nat \<times> nat) list option" where
  "balanced_ranges len partitions =
     (if partitions = 0 then None
      else Some (balanced_ranges_loop (len div partitions) (len mod partitions) 0 [0..<partitions]))"

fun prefix_offsets_loop :: "nat \<Rightarrow> nat list \<Rightarrow> rank_error + nat list" where
  "prefix_offsets_loop tally [] = Inr []"
| "prefix_offsets_loop tally (count # rest) =
     bind_r (ok_or (checked_add 64 tally count) (Overflow ''pairwise count prefix'')) (\<lambda>tally'.
     bind_r (prefix_offsets_loop tally' rest) (\<lambda>offsets. Inr (tally # offsets)))"

definition prefix_offsets :: "nat list \<Rightarrow> rank_error + nat list" where
  "prefix_offsets counts = prefix_offsets_loop 0 counts"

definition hierarchy_steps :: "u32 list list \<Rightarrow> nat \<Rightarrow> u32" where
  "hierarchy_steps groups inter_steps =
     (let local_steps = fold max (map (\<lambda>group. length group - 1) groups) 0;
          steps = saturating_add 64 (saturating_mul 64 local_steps 2) inter_steps
      in if steps \<le> u32_max then of_nat steps else 0xffffffff)"

section \<open>Reduction operations and exchange options\<close>

datatype reduction_operation = Sum | Product | Minimum | Maximum | BitAnd | BitOr | BitXor

fun reduction_code :: "reduction_operation \<Rightarrow> u32" where
  "reduction_code Sum = 0" | "reduction_code Product = 1" | "reduction_code Minimum = 2"
| "reduction_code Maximum = 3" | "reduction_code BitAnd = 4" | "reduction_code BitOr = 5"
| "reduction_code BitXor = 6"

definition reduction_try_from :: "u32 \<Rightarrow> rank_error + reduction_operation" where
  "reduction_try_from v =
     (if v = 0 then Inr Sum else if v = 1 then Inr Product else if v = 2 then Inr Minimum
      else if v = 3 then Inr Maximum else if v = 4 then Inr BitAnd else if v = 5 then Inr BitOr
      else if v = 6 then Inr BitXor
      else Inl (InvalidLength ''unknown collective reduction operation''))"

record exchange_options =
  xo_root_rank :: u32
  xo_element_count :: u64
  xo_flags :: u16
  xo_tag :: u64

definition exchange_options_new :: "u32 \<Rightarrow> u64 \<Rightarrow> exchange_options" where
  "exchange_options_new root_rank element_count =
     \<lparr> xo_root_rank = root_rank, xo_element_count = element_count, xo_flags = 0, xo_tag = 0 \<rparr>"

definition reduction_exchange_options :: "u32 \<Rightarrow> nat \<Rightarrow> u32 \<Rightarrow> exchange_options" where
  "reduction_exchange_options root_rank element_count operation =
     \<lparr> xo_root_rank = root_rank, xo_element_count = of_nat element_count, xo_flags = 0,
       xo_tag = ucast operation + 1 \<rparr>"

section \<open>Tags\<close>

definition INTERNAL_RING_TAG_PREFIX :: u64 where
  "INTERNAL_RING_TAG_PREFIX = 0x4758000000000000"

definition INTERNAL_HIERARCHY_TAG_PREFIX :: u64 where
  "INTERNAL_HIERARCHY_TAG_PREFIX = 0x4759000000000000"

text \<open>The hash loops write one byte sequence after another into one FNV-1a state; \<open>fnv_rings\<close> is
  the loop over rings (or groups) and \<open>fnv_rails\<close> the loop over channel rails.\<close>

definition fnv_rings :: "u32 list list \<Rightarrow> u64 \<Rightarrow> u64" where
  "fnv_rings rings hash =
     fold (\<lambda>ring. fnv_bytes (u64_le (of_nat (length ring)) @ concat (map u32_le ring))) rings hash"

definition fnv_rails :: "nat list \<Rightarrow> u64 \<Rightarrow> u64" where
  "fnv_rails channel_rails hash = fold (\<lambda>rail. fnv_bytes (u64_le (of_nat rail))) channel_rails hash"

definition ring_agreement_tag ::
  "u64 \<Rightarrow> nat \<Rightarrow> u32 list list \<Rightarrow> u32 \<Rightarrow> nat \<Rightarrow> nat list \<Rightarrow> u64" where
  "ring_agreement_tag operation len rings discriminator channels channel_rails =
     (let hash = fnv_bytes (u64_le operation @ u64_le (of_nat len) @ u32_le discriminator
                            @ u64_le (of_nat channels)) fnv_offset;
          hash = fnv_rings rings hash
      in fnv_rails channel_rails hash)"

definition ring_data_tag :: "u64 \<Rightarrow> u64 \<Rightarrow> nat \<Rightarrow> nat \<Rightarrow> u64" where
  "ring_data_tag operation phase channel step =
     INTERNAL_RING_TAG_PREFIX
       OR push_bit 24 (operation AND 0x00ffffff)
       OR push_bit 20 (phase AND 0x0f)
       OR push_bit 12 (of_nat channel AND 0xff)
       OR (of_nat step AND 0x0fff)"

definition hierarchy_agreement_tag ::
  "u64 \<Rightarrow> nat \<Rightarrow> u32 list list \<Rightarrow> u32 \<Rightarrow> nat \<Rightarrow> nat list \<Rightarrow> u64" where
  "hierarchy_agreement_tag operation len groups discriminator ring_channels channel_rails =
     (let hash = fnv_bytes (u64_le operation @ u64_le (of_nat len) @ u32_le discriminator
                            @ u64_le (of_nat ring_channels)) fnv_offset;
          hash = fnv_rings groups hash
      in fnv_rails channel_rails hash)"

definition hierarchy_data_tag :: "u64 \<Rightarrow> u32 \<Rightarrow> u32 \<Rightarrow> u64" where
  "hierarchy_data_tag operation phase index =
     (let hash = fnv_bytes (u64_le operation @ u32_le phase @ u32_le index) fnv_offset
      in INTERNAL_HIERARCHY_TAG_PREFIX OR (hash AND 0x0000ffffffffffff))"

definition hierarchy_ring_data_tag :: "u64 \<Rightarrow> u32 \<Rightarrow> nat \<Rightarrow> nat \<Rightarrow> u64" where
  "hierarchy_ring_data_tag operation phase channel step =
     (let hash = fnv_bytes (u64_le operation @ u32_le phase @ u64_le (of_nat channel)
                            @ u64_le (of_nat step)) fnv_offset
      in INTERNAL_HIERARCHY_TAG_PREFIX OR (hash AND 0x0000ffffffffffff))"

section \<open>Lemmas on partitions\<close>

text \<open>The start of partition \<open>i\<close>: every earlier partition has \<open>base\<close> elements and the first
  \<open>remainder\<close> of them one more.\<close>

definition balanced_start :: "nat \<Rightarrow> nat \<Rightarrow> nat \<Rightarrow> nat" where
  "balanced_start len partitions i = i * (len div partitions) + min i (len mod partitions)"

lemma balanced_ranges_loop_upt:
  "k \<le> n \<Longrightarrow> balanced_ranges_loop b r (k * b + min k r) [k..<n] =
     map (\<lambda>i. (i * b + min i r, Suc i * b + min (Suc i) r)) [k..<n]"
proof (induction "n - k" arbitrary: k)
  case (Suc d)
  then have kn: "k < n" by simp
  have "k * b + min k r + (b + (if k < r then 1 else 0)) = Suc k * b + min (Suc k) r"
    by simp
  with Suc.hyps(1)[of "Suc k"] Suc.hyps(2) kn show ?case
    by (simp only: upt_conv_Cons[OF kn] balanced_ranges_loop.simps Let_def list.map)
qed simp

lemma balanced_ranges_eq:
  assumes "0 < partitions"
  shows "balanced_ranges len partitions =
     Some (map (\<lambda>i. (balanced_start len partitions i, balanced_start len partitions (Suc i)))
             [0..<partitions])"
  using assms balanced_ranges_loop_upt[of 0 partitions "len div partitions" "len mod partitions"]
  by (simp add: balanced_ranges_def balanced_start_def)

lemma balanced_start_0 [simp]: "balanced_start len p 0 = 0"
  by (simp add: balanced_start_def)

lemma balanced_start_end: "0 < p \<Longrightarrow> balanced_start len p p = len"
  using mod_less_divisor[of p len] div_mult_mod_eq[of len p]
  by (simp add: balanced_start_def mult.commute min_def del: mod_less_divisor)

lemma balanced_start_Suc:
  "balanced_start len p (Suc i) =
     balanced_start len p i + len div p + (if i < len mod p then 1 else 0)"
  by (simp add: balanced_start_def)

lemma balanced_start_mono: "i \<le> j \<Longrightarrow> balanced_start len p i \<le> balanced_start len p j"
  unfolding balanced_start_def by (intro add_mono mult_le_mono1 min.mono) simp_all

lemma concat_subslices:
  "(\<And>i. i < n \<Longrightarrow> f i \<le> f (Suc i)) \<Longrightarrow>
     concat (map (\<lambda>i. subslice (f i) (f (Suc i)) xs) [0..<n]) = subslice (f 0) (f n) xs"
proof (induction n)
  case (Suc n)
  have "f 0 \<le> f n"
    using Suc.prems by (induction n) (auto intro: order_trans less_SucI)
  with Suc show ?case by (simp add: subslice_subslice_append)
qed (simp add: subslice_def)

lemma prefix_offsets_loop_iff:
  "prefix_offsets_loop tally counts = Inr os \<longleftrightarrow>
     (counts = [] \<or> tally + sum_list counts < 2 ^ 64) \<and>
     os = map (\<lambda>i. tally + sum_list (take i counts)) [0..<length counts]"
proof (induction counts arbitrary: tally os)
  case (Cons c cs)
  have up: "map f [0..<Suc n] = f 0 # map (\<lambda>i. f (Suc i)) [0..<n]" for f :: "nat \<Rightarrow> nat" and n
    by (simp del: upt_Suc add: upt_conv_Cons map_Suc_upt[symmetric])
  have "prefix_offsets_loop tally (c # cs) = Inr os \<longleftrightarrow>
      tally + c < 2 ^ 64 \<and> (\<exists>os'. prefix_offsets_loop (tally + c) cs = Inr os' \<and> os = tally # os')"
    by (auto simp: result_simps machine_simps)
  also have "\<dots> \<longleftrightarrow> tally + sum_list (c # cs) < 2 ^ 64 \<and>
      os = map (\<lambda>i. tally + sum_list (take i (c # cs))) [0..<length (c # cs)]"
    unfolding Cons.IH by (cases "cs = []") (auto simp del: upt_Suc simp: up add.assoc)
  finally show ?case by simp
qed auto

lemma prefix_offsets_loop_error:
  "prefix_offsets_loop tally counts = Inl e \<Longrightarrow> e = Overflow ''pairwise count prefix''"
  by (induction tally counts rule: prefix_offsets_loop.induct) (auto simp: result_simps)

lemma fold_max_le: "fold max xs (a :: nat) \<le> m \<longleftrightarrow> a \<le> m \<and> (\<forall>x \<in> set xs. x \<le> m)"
  by (induction xs arbitrary: a) auto

section \<open>Lemmas on tags\<close>

lemma bit_mask_consts:
  "(0x00ffffff :: u64) = mask 24" "(0x0f :: u64) = mask 4" "(0xff :: u64) = mask 8"
  "(0x0fff :: u64) = mask 12" "(0x0000ffffffffffff :: u64) = mask 48"
  "INTERNAL_RING_TAG_PREFIX = push_bit 48 0x4758"
  "INTERNAL_HIERARCHY_TAG_PREFIX = push_bit 48 0x4759"
  by (simp_all add: mask_eq_exp_minus_1 INTERNAL_RING_TAG_PREFIX_def
      INTERNAL_HIERARCHY_TAG_PREFIX_def push_bit_eq_mult)

lemma ring_data_tag_fields:
  "take_bit 12 (ring_data_tag operation phase channel step) = take_bit 12 (of_nat step)"
  "take_bit 8 (drop_bit 12 (ring_data_tag operation phase channel step)) = take_bit 8 (of_nat channel)"
  "take_bit 4 (drop_bit 20 (ring_data_tag operation phase channel step)) = take_bit 4 phase"
  "take_bit 24 (drop_bit 24 (ring_data_tag operation phase channel step)) = take_bit 24 operation"
  "drop_bit 48 (ring_data_tag operation phase channel step) = 0x4758"
  unfolding ring_data_tag_def bit_mask_consts
  by (rule bit_eqI; auto simp: bit_simps)+

lemma fnv_prime_cancel: "x * 0x100000001b3 = y * 0x100000001b3 \<longleftrightarrow> x = (y :: u64)"
proof
  have unit: "(0x100000001b3 :: u64) * 0xce965057aff6957b = 1"
    by (simp add: word_uint_eq_iff)
  assume "x * 0x100000001b3 = y * 0x100000001b3"
  then have "x * (0x100000001b3 * 0xce965057aff6957b) = y * (0x100000001b3 * 0xce965057aff6957b)"
    by (simp only: mult.assoc[symmetric])
  then show "x = y" by (simp only: unit mult_1_right)
qed simp

lemma xor_cancel_right: "x XOR z = y XOR z \<longleftrightarrow> x = (y :: 'a::len word)"
  by (metis xor.assoc xor_self_eq xor.right_neutral)

lemma fnv_step_inj: "fnv_step b h = fnv_step b h' \<longleftrightarrow> h = h'"
  by (simp only: fnv_step_def fnv_prime_cancel xor_cancel_right)

lemma fnv_step_inj_byte: "fnv_step b h = fnv_step b' h \<longleftrightarrow> b = b'"
proof -
  have "unat (ucast c :: u64) = unat c" for c :: u8
  proof -
    have "unat c < 2 ^ 8" using unsigned_less[of c] by simp
    then have "unat c < 2 ^ 64" by simp
    then show ?thesis by (simp add: unsigned_ucast_eq take_bit_nat_eq_self)
  qed
  then have "(ucast b :: u64) = ucast b' \<longleftrightarrow> b = b'" by (metis word_unat_eq_iff)
  then show ?thesis
    by (simp only: fnv_step_def fnv_prime_cancel xor.commute[of h] xor_cancel_right)
qed

lemma fnv_bytes_inj: "fnv_bytes bs h = fnv_bytes bs h' \<longleftrightarrow> h = h'"
  by (induction bs arbitrary: h h') (simp_all add: fnv_bytes_def fnv_step_inj)

lemma fnv_bytes_one_byte:
  "fnv_bytes (xs @ b # ys) h = fnv_bytes (xs @ b' # ys) h \<longleftrightarrow> b = b'"
proof -
  have "fnv_bytes (xs @ c # ys) h = fnv_bytes ys (fnv_step c (fnv_bytes xs h))" for c
    by (simp add: fnv_bytes_def)
  then show ?thesis by (simp only: fnv_bytes_inj fnv_step_inj_byte)
qed

text \<open>The bytes that an agreement tag hashes.\<close>

definition agreement_bytes ::
  "u64 \<Rightarrow> nat \<Rightarrow> u32 list list \<Rightarrow> u32 \<Rightarrow> nat \<Rightarrow> nat list \<Rightarrow> bytes" where
  "agreement_bytes operation len rings discriminator channels rails =
     (u64_le operation @ u64_le (of_nat len)) @ u32_le discriminator @ u64_le (of_nat channels) @
     concat (map (\<lambda>ring. u64_le (of_nat (length ring)) @ concat (map u32_le ring)) rings) @
     concat (map (\<lambda>rail. u64_le (of_nat rail)) rails)"

lemma fnv_fold_concat: "fold (\<lambda>x. fnv_bytes (f x)) xs h = fnv_bytes (concat (map f xs)) h"
  by (induction xs arbitrary: h) (simp_all add: fnv_bytes_append)

lemma agreement_tag_eq:
  "ring_agreement_tag operation len rings discriminator channels rails =
     fnv_bytes (agreement_bytes operation len rings discriminator channels rails) fnv_offset"
  "hierarchy_agreement_tag operation len rings discriminator channels rails =
     fnv_bytes (agreement_bytes operation len rings discriminator channels rails) fnv_offset"
  by (simp_all add: ring_agreement_tag_def hierarchy_agreement_tag_def agreement_bytes_def
      fnv_rings_def fnv_rails_def fnv_fold_concat fnv_bytes_append Let_def)

lemma u64_le_of_nat_inj: "m < 2 ^ 64 \<Longrightarrow> n < 2 ^ 64 \<Longrightarrow> u64_le (of_nat m) = u64_le (of_nat n) \<Longrightarrow> m = n"
proof -
  assume a: "m < 2 ^ 64" "n < 2 ^ 64" "u64_le (of_nat m) = u64_le (of_nat n)"
  from a(3) have "(of_nat m :: u64) = of_nat n" by (rule le_bytes_inj[rotated]) simp
  then have "unat (of_nat m :: u64) = unat (of_nat n :: u64)" by simp
  with a(1,2) show ?thesis by (simp add: unat_of_nat take_bit_nat_eq_self)
qed

lemma concat_map_fixed_inj:
  assumes "concat (map f xs) = concat (map f ys)" and "length xs = length ys"
    and "\<And>x. length (f x) = k"
    and "\<And>x y. x \<in> set xs \<Longrightarrow> y \<in> set ys \<Longrightarrow> f x = f y \<Longrightarrow> x = y"
  shows "xs = ys"
  using assms(2,1,4) assms(3)
  by (induction xs ys rule: list_induct2) (simp_all add: append_eq_append_conv)

lemma ring_bytes_inj:
  assumes "concat (map (\<lambda>ring. u64_le (of_nat (length ring)) @ concat (map u32_le ring)) rs) =
           concat (map (\<lambda>ring. u64_le (of_nat (length ring)) @ concat (map u32_le ring)) ss)"
    and "\<forall>r \<in> set rs. length r < 2 ^ 64" and "\<forall>r \<in> set ss. length r < 2 ^ 64"
  shows "rs = ss"
  using assms
proof (induction rs arbitrary: ss)
  case Nil
  then show ?case by (cases ss) (auto simp: le_bytes_def)
next
  case (Cons r rs)
  from Cons.prems(1) obtain t ts where ss: "ss = t # ts"
    by (cases ss) (auto simp: le_bytes_def)
  let ?enc = "\<lambda>rs. concat (map (\<lambda>ring. u64_le (of_nat (length ring)) @ concat (map u32_le ring)) rs)"
  have split: "u64_le (of_nat (length r)) = u64_le (of_nat (length t))"
    "concat (map u32_le r) @ ?enc rs = concat (map u32_le t) @ ?enc ts"
    using Cons.prems(1) unfolding ss by (simp_all add: append_eq_append_conv)
  have len: "length r = length t"
    using split(1) Cons.prems(2,3) by (auto simp: ss intro: u64_le_of_nat_inj)
  have clen: "length (concat (map u32_le q)) = 4 * length q" for q
    by (induction q) simp_all
  have body: "concat (map u32_le r) = concat (map u32_le t)" "?enc rs = ?enc ts"
    using split(2) len by (simp_all add: append_eq_append_conv clen)
  have "r = t"
    using body(1) len
    by (rule concat_map_fixed_inj[where k = 4]) (simp_all, metis le_codec_32)
  moreover have "rs = ts" using Cons body(2) by (simp add: ss)
  ultimately show ?case by (simp add: ss)
qed

lemma agreement_bytes_inj:
  assumes eq: "agreement_bytes op n rings d c rails = agreement_bytes op' n' rings' d' c' rails'"
    and rails: "length rails = c" "length rails' = c'"
    and small: "n < 2 ^ 64" "n' < 2 ^ 64" "c < 2 ^ 64" "c' < 2 ^ 64"
      "\<forall>r \<in> set rings. length r < 2 ^ 64" "\<forall>r \<in> set rings'. length r < 2 ^ 64"
      "\<forall>r \<in> set rails. r < 2 ^ 64" "\<forall>r \<in> set rails'. r < 2 ^ 64"
  shows "op = op' \<and> n = n' \<and> rings = rings' \<and> d = d' \<and> c = c' \<and> rails = rails'"
proof -
  let ?enc = "\<lambda>rs. concat (map (\<lambda>ring. u64_le (of_nat (length ring)) @ concat (map u32_le ring)) rs)"
  let ?rl = "\<lambda>rs :: nat list. concat (map (\<lambda>rail. u64_le (of_nat rail)) rs)"
  have parts: "u64_le op = u64_le op'" "u64_le (of_nat n) = u64_le (of_nat n')"
    "u32_le d = u32_le d'" "u64_le (of_nat c) = u64_le (of_nat c')"
    "?enc rings @ ?rl rails = ?enc rings' @ ?rl rails'"
    using eq unfolding agreement_bytes_def by (simp_all add: append_eq_append_conv)
  have c: "c = c'" using parts(4) small(3,4) by (rule u64_le_of_nat_inj[rotated 2])
  have rlen: "length (?rl q) = 8 * length q" for q by (induction q) simp_all
  have "length (?rl rails) = length (?rl rails')" using rails c by (simp only: rlen)
  then have tail: "?enc rings = ?enc rings'" "?rl rails = ?rl rails'"
    using parts(5) append_eq_append_conv[of "?enc rings" "?enc rings'" "?rl rails" "?rl rails'"] by blast+
  have "rails = rails'"
    using tail(2) by (rule concat_map_fixed_inj[where k = 8])
      (use rails c small in \<open>auto intro: u64_le_of_nat_inj\<close>)
  moreover have "rings = rings'" using tail(1) small(5,6) by (rule ring_bytes_inj)
  moreover have "n = n'" using parts(2) small(1,2) by (rule u64_le_of_nat_inj[rotated 2])
  ultimately show ?thesis
    using parts(1,3) c by (metis le_codec_32 le_codec_64)
qed

lemma reduction_code_bytes:
  "\<exists>b. u32_le (reduction_code r) = [b, 0, 0, 0] \<and> unat b = unat (reduction_code r)"
  by (cases r) (simp_all add: le_bytes_def upt_rec)

lemma reduction_code_inj: "reduction_code r = reduction_code r' \<longleftrightarrow> r = r'"
  by (cases r; cases r') simp_all

lemma drop_bit_48_hierarchy: "drop_bit 48 (INTERNAL_HIERARCHY_TAG_PREFIX OR (h AND 0x0000ffffffffffff)) = 0x4759"
  unfolding bit_mask_consts by (rule bit_eqI) (auto simp: bit_simps)

lemma take_bit_of_nat_eq_iff:
  "take_bit 8 (of_nat m :: u64) = take_bit 8 (of_nat n) \<longleftrightarrow> m mod 256 = n mod 256"
  "take_bit 12 (of_nat m :: u64) = take_bit 12 (of_nat n) \<longleftrightarrow> m mod 4096 = n mod 4096"
  by (simp_all add: word_unat_eq_iff unsigned_take_bit_eq unat_of_nat take_bit_nat_def mod_mod_cancel)

section \<open>Properties\<close>

text \<open>C12. \<open>balanced_ranges\<close> splits a length into the requested number of consecutive ranges: cut along
  them, every vector of that length is reassembled in order, the sizes never increase and differ by
  at most one. Zero partitions panic.\<close>

theorem balanced_ranges_partition:
  assumes "0 < partitions"
  shows "\<exists>rs. balanced_ranges len partitions = Some rs \<and> length rs = partitions \<and>
     (\<forall>i j. i \<le> j \<and> j < partitions \<longrightarrow>
        (case rs ! i of (a, b) \<Rightarrow> case rs ! j of (c, d) \<Rightarrow>
           a \<le> b \<and> b \<le> len \<and> d - c \<le> b - a \<and> b - a \<le> d - c + 1)) \<and>
     (\<forall>xs :: 'a list. length xs = len \<longrightarrow> concat (map (\<lambda>(a, b). subslice a b xs) rs) = xs) \<and>
     balanced_ranges len 0 = None"
proof -
  let ?f = "balanced_start len partitions"
  let ?rs = "map (\<lambda>i. (?f i, ?f (Suc i))) [0..<partitions]"
  have mono: "?f i \<le> ?f (Suc i)" for i by (simp add: balanced_start_mono)
  have bound: "?f (Suc i) \<le> len" if "i < partitions" for i
    using balanced_start_mono[of "Suc i" partitions len partitions] balanced_start_end[OF assms, of len] that by simp
  have sizes: "?f (Suc j) - ?f j \<le> ?f (Suc i) - ?f i \<and> ?f (Suc i) - ?f i \<le> ?f (Suc j) - ?f j + 1"
    if "i \<le> j" for i j using that by (simp add: balanced_start_Suc)
  have whole: "concat (map (\<lambda>(a, b). subslice a b xs) ?rs) = xs" if "length xs = len" for xs :: "'a list"
    using concat_subslices[of partitions ?f xs] mono balanced_start_end[OF assms, of len] that
    by (auto simp: comp_def subslice_full)
  have "balanced_ranges len partitions = Some ?rs" by (rule balanced_ranges_eq[OF assms])
  moreover have "balanced_ranges len 0 = None" by (simp add: balanced_ranges_def)
  ultimately show ?thesis
    by (intro exI[of _ ?rs]) (use mono bound sizes whole in simp)
qed

theorem balanced_ranges_partition_witness:
  "balanced_ranges 10 3 = Some [(0, 4), (4, 7), (7, 10)] \<and>
   concat (map (\<lambda>(a, b). subslice a b (replicate 10 (0 :: nat))) [(0, 4), (4, 7), (7, 10)]) = replicate 10 0"
proof -
  have "balanced_ranges 10 3 = Some [(0, 4), (4, 7), (7, 10)]"
    by (simp add: balanced_ranges_def upt_rec)
  with balanced_ranges_partition[of 3 10, where ?'a = nat] show ?thesis by simp
qed

text \<open>Inside one operation the point-to-point tag of a ring step identifies the operation, the
  phase, the channel and the step up to the widths of their bit fields, and no ring tag is a tag of
  the hierarchical algorithms.\<close>

theorem ring_data_tag_unique:
  "(ring_data_tag operation phase channel step = ring_data_tag operation' phase' channel' step' \<longleftrightarrow>
      take_bit 24 operation = take_bit 24 operation' \<and> take_bit 4 phase = take_bit 4 phase' \<and>
      channel mod 256 = channel' mod 256 \<and> step mod 4096 = step' mod 4096) \<and>
   ring_data_tag operation phase channel step \<noteq> hierarchy_data_tag operation' hphase index \<and>
   ring_data_tag operation phase channel step \<noteq> hierarchy_ring_data_tag operation' hphase channel' step'"
proof -
  let ?t = "ring_data_tag operation phase channel step"
  let ?t' = "ring_data_tag operation' phase' channel' step'"
  have "?t = ?t' \<longleftrightarrow> take_bit 24 operation = take_bit 24 operation' \<and> take_bit 4 phase = take_bit 4 phase' \<and>
      take_bit 8 (of_nat channel :: u64) = take_bit 8 (of_nat channel') \<and>
      take_bit 12 (of_nat step :: u64) = take_bit 12 (of_nat step')" (is "_ \<longleftrightarrow> ?fields")
  proof
    assume "?t = ?t'"
    then show ?fields
      using ring_data_tag_fields[of operation phase channel step]
        ring_data_tag_fields[of operation' phase' channel' step'] by metis
  next
    assume ?fields
    then show "?t = ?t'"
      unfolding ring_data_tag_def bit_mask_consts take_bit_eq_mask by simp
  qed
  moreover have "?t \<noteq> h" if "drop_bit 48 h = 0x4759" for h
    using ring_data_tag_fields(5)[of operation phase channel step] that by auto
  ultimately show ?thesis
    by (simp only: take_bit_of_nat_eq_iff hierarchy_data_tag_def hierarchy_ring_data_tag_def Let_def
        drop_bit_48_hierarchy) simp
qed

text \<open>C13. The agreement tag that every rank sends before a ring or hierarchical collective hashes an
  injective encoding of the operation, length, rings, discriminator, channel count and channel rails
  (one rail per channel), and two ranks whose plans differ in the reduction operation alone always
  send different tags.\<close>

theorem agreement_tags_separate_plans:
  assumes "length rails = c" "length rails' = c'"
    "n < 2 ^ 64" "n' < 2 ^ 64" "c < 2 ^ 64" "c' < 2 ^ 64"
    "\<forall>r \<in> set rings. length r < 2 ^ 64" "\<forall>r \<in> set rings'. length r < 2 ^ 64"
    "\<forall>r \<in> set rails. r < 2 ^ 64" "\<forall>r \<in> set rails'. r < 2 ^ 64"
  shows "ring_agreement_tag op n rings d c rails = fnv_bytes (agreement_bytes op n rings d c rails) fnv_offset \<and>
     hierarchy_agreement_tag op n rings d c rails = fnv_bytes (agreement_bytes op n rings d c rails) fnv_offset \<and>
     (agreement_bytes op n rings d c rails = agreement_bytes op' n' rings' d' c' rails' \<longleftrightarrow>
        (op, n, rings, d, c, rails) = (op', n', rings', d', c', rails')) \<and>
     (ring_agreement_tag op n rings (reduction_code r) c rails =
        ring_agreement_tag op n rings (reduction_code r') c rails \<longleftrightarrow> r = r') \<and>
     (hierarchy_agreement_tag op n rings (reduction_code r) c rails =
        hierarchy_agreement_tag op n rings (reduction_code r') c rails \<longleftrightarrow> r = r')"
proof -
  obtain b where b: "u32_le (reduction_code r) = [b, 0, 0, 0]" "unat b = unat (reduction_code r)"
    using reduction_code_bytes by blast
  obtain b' where b': "u32_le (reduction_code r') = [b', 0, 0, 0]" "unat b' = unat (reduction_code r')"
    using reduction_code_bytes by blast
  have "b = b' \<longleftrightarrow> r = r'"
    using b(2) b'(2) by (metis word_unat_eq_iff reduction_code_inj)
  then have "fnv_bytes (agreement_bytes op n rings (reduction_code r) c rails) fnv_offset =
      fnv_bytes (agreement_bytes op n rings (reduction_code r') c rails) fnv_offset \<longleftrightarrow> r = r'"
    unfolding agreement_bytes_def b(1) b'(1) append_Cons append_Nil by (simp only: fnv_bytes_one_byte)
  moreover have "agreement_bytes op n rings d c rails = agreement_bytes op' n' rings' d' c' rails' \<longleftrightarrow>
      (op, n, rings, d, c, rails) = (op', n', rings', d', c', rails')"
    using agreement_bytes_inj[OF _ assms] by blast
  ultimately show ?thesis by (simp only: agreement_tag_eq simp_thms)
qed

theorem agreement_tags_separate_plans_witness:
  "ring_agreement_tag 3 16 [[0, 1]] (reduction_code Sum) 1 [0] \<noteq>
   ring_agreement_tag 3 16 [[0, 1]] (reduction_code Maximum) 1 [0]"
proof -
  have "(2 :: nat) < 2 ^ 64" by simp
  then show ?thesis
    using agreement_tags_separate_plans[of "[0]" 1 "[0]" 1 16 16 "[[0, 1]]" "[[0, 1]]" 3 0 3 0 Sum Maximum]
    by (auto simp del: reduction_code.simps)
qed

end
