(* ===== verification/Rank_Payload.thy ===== *)
theory Rank_Payload
  imports Rank_Layout
begin

text \<open>
  Payload validation and the counts prefix of \<^verbatim>\<open>src/rank/payload.rs\<close>. \<open>chunks_exact\<close> is the slice
  method of the standard library: whole chunks only, a shorter rest is dropped.
\<close>

section \<open>Chunks\<close>

function chunks_exact :: "nat \<Rightarrow> 'a list \<Rightarrow> 'a list list" where
  "chunks_exact n xs =
     (if n = 0 \<or> length xs < n then [] else take n xs # chunks_exact n (drop n xs))"
  by pat_completeness auto
termination
  by (relation "measure (\<lambda>(n, xs). length xs)") auto

declare chunks_exact.simps [simp del]

lemma chunks_exact_append [simp]:
  "length x = n \<Longrightarrow> 0 < n \<Longrightarrow> chunks_exact n (x @ xs) = x # chunks_exact n xs"
  by (subst chunks_exact.simps) simp

lemma chunks_exact_short [simp]: "length xs < n \<Longrightarrow> chunks_exact n xs = []"
  by (subst chunks_exact.simps) simp

lemma chunks_exact_concat:
  "(\<And>x. x \<in> set xs \<Longrightarrow> length x = n) \<Longrightarrow> 0 < n \<Longrightarrow> length rest < n \<Longrightarrow>
     chunks_exact n (concat xs @ rest) = xs"
  by (induction xs) simp_all

lemma length_chunks_exact: "0 < n \<Longrightarrow> length (chunks_exact n xs) = length xs div n"
proof (induction n xs rule: chunks_exact.induct)
  case (1 n xs)
  show ?case
  proof (cases "length xs < n")
    case True
    with 1 show ?thesis by simp
  next
    case False
    with 1 show ?thesis
      by (subst chunks_exact.simps) (simp add: le_div_geq)
  qed
qed

lemma concat_chunks_exact: "0 < n \<Longrightarrow> n dvd length xs \<Longrightarrow> concat (chunks_exact n xs) = xs"
proof (induction n xs rule: chunks_exact.induct)
  case (1 n xs)
  show ?case
  proof (cases "length xs < n")
    case True
    with 1 show ?thesis by (auto dest: dvd_imp_le)
  next
    case False
    with 1 have "n dvd length (drop n xs)" by (simp add: dvd_diff_nat)
    with 1 False show ?thesis by (subst chunks_exact.simps) simp
  qed
qed

lemma chunk_length: "c \<in> set (chunks_exact n xs) \<Longrightarrow> length c = n"
  by (induction n xs rule: chunks_exact.induct) (subst (asm) chunks_exact.simps, auto split: if_splits)

section \<open>Operations\<close>

definition validate_host_reduction_payload ::
  "element_type \<Rightarrow> nat \<Rightarrow> bytes \<Rightarrow> rank_error + nat" where
  "validate_host_reduction_payload element_type element_count payload =
     (let element_bytes = byte_width element_type
      in if element_bytes = 0
         then Inl (InvalidLength ''host reduction requires a tensor element type'')
         else bind_r (ok_or (checked_mul 64 element_count element_bytes)
                        (Overflow ''host reduction payload bytes'')) (\<lambda>expected.
              if length payload \<noteq> expected
              then Inl (Network (invalid_configuration
                     ''host reduction payload has {} bytes, expected {}''
                     [ANat (length payload), ANat expected]))
              else Inr expected))"

definition validate_host_reduction_response ::
  "string \<Rightarrow> bytes \<Rightarrow> nat \<Rightarrow> rank_error + unit" where
  "validate_host_reduction_response operation payload expected =
     (if length payload \<noteq> expected
      then Inl (Network (invalid_configuration ''host {} response has {} bytes, expected {}''
             [AStr operation, ANat (length payload), ANat expected]))
      else Inr ())"

text \<open>The caller's error type is built from \<^typ>\<open>rank_error\<close> by \<open>of_rank\<close> (\<open>E: From<RankError>\<close>).\<close>

definition decode_exact ::
  "(rank_error \<Rightarrow> 'e) \<Rightarrow> (bytes \<Rightarrow> 'e + 't list) \<Rightarrow> bytes \<Rightarrow> nat \<Rightarrow> nat \<Rightarrow> 'e + 't list" where
  "decode_exact of_rank decode payload expected_elements element_bytes =
     bind_r (ok_or (checked_mul 64 expected_elements element_bytes)
               (of_rank (Overflow ''TCP decoded payload bytes''))) (\<lambda>expected_bytes.
     if length payload \<noteq> expected_bytes
     then Inl (of_rank (Network (invalid_configuration ''TCP response has {} bytes, expected {}''
            [ANat (length payload), ANat expected_bytes])))
     else decode payload)"

definition encode_counts :: "nat list \<Rightarrow> rank_error + bytes" where
  "encode_counts counts =
     fold_r (\<lambda>count encoded.
        bind_r (ok_or (u64_try_from count) (Overflow ''TCP all-to-all-v count'')) (\<lambda>v.
        Inr (encoded @ u64_le v))) counts []"

definition decode_counts_response :: "frame \<Rightarrow> nat \<Rightarrow> nat \<Rightarrow> rank_error + nat list \<times> bytes" where
  "decode_counts_response response world_size element_bytes =
     (if fh_flags (f_header response) AND FLAG_COUNTS_PREFIX = 0
      then Inl (Network (invalid_configuration ''TCP all-to-all-v response is missing counts'' []))
      else bind_r (ok_or (checked_mul 64 world_size 8) (Overflow ''TCP all-to-all-v counts prefix''))
        (\<lambda>prefix_bytes.
         if length (f_payload response) < prefix_bytes
         then Inl (Network (invalid_configuration ''TCP all-to-all-v counts prefix is truncated'' []))
         else bind_r (traverse_r (\<lambda>bs. ok_or (usize_try_from (from_le_bytes bs))
                                        (Overflow ''TCP all-to-all-v receive count''))
                        (chunks_exact 8 (take prefix_bytes (f_payload response)))) (\<lambda>counts.
              bind_r (ok_or (fold_o (\<lambda>count sum. checked_add 64 sum count) counts 0)
                        (Overflow ''TCP all-to-all-v receive count'')) (\<lambda>tot.
              if (of_nat tot :: u64) \<noteq> fh_element_count (f_header response)
              then Inl (Network (invalid_configuration
                     ''TCP all-to-all-v counts sum to {}, header declares {}''
                     [ANat tot, ANat (unat (fh_element_count (f_header response)))]))
              else let data = drop prefix_bytes (f_payload response)
                   in bind_r (ok_or (checked_mul 64 tot element_bytes) (Overflow ''TCP all-to-all-v data''))
                        (\<lambda>expected.
                         if length data \<noteq> expected
                         then Inl (Network (invalid_configuration
                                ''TCP all-to-all-v data has {} bytes, expected {}''
                                [ANat (length data), ANat expected]))
                         else Inr (counts, data))))))"

section \<open>Lemmas\<close>

lemma fold_o_checked_add:
  "fold_o (\<lambda>count sum. checked_add 64 sum count) counts s =
     (if counts = [] \<or> s + sum_list counts < 2 ^ 64 then Some (s + sum_list counts) else None)"
  by (induction counts arbitrary: s)
     (auto simp: checked_add_def add.assoc not_less split: if_splits)

lemma encode_counts_acc:
  "fold_r (\<lambda>count encoded. bind_r (ok_or (u64_try_from count) e) (\<lambda>v. Inr (encoded @ u64_le v)))
     counts acc =
   (if \<forall>c \<in> set counts. c < 2 ^ 64 then Inr (acc @ concat (map (\<lambda>c. u64_le (of_nat c)) counts))
    else Inl e)"
proof (induction counts arbitrary: acc)
  case (Cons c cs)
  have "c \<le> u64_max \<longleftrightarrow> c < 2 ^ 64" by auto
  with Cons show ?case by (simp add: u64_try_from_def)
qed simp

lemma encode_counts_eq:
  "encode_counts counts =
     (if \<forall>c \<in> set counts. c < 2 ^ 64 then Inr (concat (map (\<lambda>c. u64_le (of_nat c)) counts))
      else Inl (Overflow ''TCP all-to-all-v count''))"
  unfolding encode_counts_def encode_counts_acc by simp

text \<open>What a counts prefix denotes; the same chunks are read by the coordinator.\<close>

definition counts_of_bytes :: "bytes \<Rightarrow> nat list" where
  "counts_of_bytes bs = map (\<lambda>c. unat (from_le_bytes c :: u64)) (chunks_exact 8 bs)"

definition bytes_of_counts :: "nat list \<Rightarrow> bytes" where
  "bytes_of_counts counts = concat (map (\<lambda>c. u64_le (of_nat c)) counts)"

lemma length_bytes_of_counts [simp]: "length (bytes_of_counts counts) = 8 * length counts"
  by (induction counts) (simp_all add: bytes_of_counts_def)

lemma counts_of_bytes_of_counts:
  "\<forall>c \<in> set counts. c < 2 ^ 64 \<Longrightarrow> counts_of_bytes (bytes_of_counts counts) = counts"
  unfolding counts_of_bytes_def bytes_of_counts_def
  by (induction counts) (simp_all add: unat_of_nat take_bit_nat_eq_self)

lemma bytes_of_counts_of_bytes:
  assumes "8 dvd length bs"
  shows "bytes_of_counts (counts_of_bytes bs) = bs"
proof -
  have "u64_le (of_nat (unat (from_le_bytes c :: u64))) = c" if "c \<in> set (chunks_exact 8 bs)" for c
    using le_bytes_from_le_bytes[where ?'a = 64, of c 8] chunk_length[OF that] by simp
  then have "map (\<lambda>c. u64_le (of_nat (unat (from_le_bytes c :: u64)))) (chunks_exact 8 bs)
      = chunks_exact 8 bs" by (simp add: map_idI)
  then show ?thesis
    using assms by (simp add: bytes_of_counts_def counts_of_bytes_def comp_def concat_chunks_exact)
qed

lemma counts_of_bytes_less: "c \<in> set (counts_of_bytes bs) \<Longrightarrow> c < 2 ^ 64"
  using unsigned_less[where ?'b = 64] by (auto simp: counts_of_bytes_def)

lemma length_counts_of_bytes: "length (counts_of_bytes bs) = length bs div 8"
  by (simp add: counts_of_bytes_def length_chunks_exact)

lemma traverse_counts:
  "traverse_r (\<lambda>bs. ok_or (usize_try_from (from_le_bytes bs)) e) (chunks_exact 8 bs) =
     Inr (counts_of_bytes bs)"
  unfolding counts_of_bytes_def by (rule traverse_r_all_ok) simp

lemma decode_counts_response_eq:
  assumes "length (f_payload r) < 2 ^ 64"
  shows "decode_counts_response r w eb = Inr (counts, data) \<longleftrightarrow>
    fh_flags (f_header r) AND FLAG_COUNTS_PREFIX \<noteq> 0 \<and> 8 * w \<le> length (f_payload r) \<and>
    counts = counts_of_bytes (take (8 * w) (f_payload r)) \<and> data = drop (8 * w) (f_payload r) \<and>
    sum_list counts = unat (fh_element_count (f_header r)) \<and> length data = sum_list counts * eb"
proof -
  define M :: nat where "M = 2 ^ 64"
  have sum: "ok_or (fold_o (\<lambda>count sum. checked_add 64 sum count) cs 0) e = Inr t \<longleftrightarrow>
      t = sum_list cs \<and> sum_list cs < M" for cs t and e :: rank_error
    by (auto simp: fold_o_checked_add M_def)
  have mul: "ok_or (checked_mul 64 a b) e = Inr t \<longleftrightarrow> t = a * b \<and> a * b < M"
    for a b t and e :: rank_error by (auto simp: checked_mul_Some M_def)
  define C where "C = counts_of_bytes (take (w * 8) (f_payload r))"
  define ec where "ec = fh_element_count (f_header r)"
  have of: "sum_list C < M \<and> (of_nat (sum_list C) :: u64) = ec \<longleftrightarrow> sum_list C = unat ec"
    using unsigned_less[of ec] by (auto simp: unat_of_nat take_bit_nat_eq_self M_def)
  from assms have len: "length (f_payload r) < M" by (simp add: M_def)
  have "decode_counts_response r w eb = Inr (counts, data) \<longleftrightarrow>
     fh_flags (f_header r) AND FLAG_COUNTS_PREFIX \<noteq> 0 \<and> w * 8 < M \<and>
     w * 8 \<le> length (f_payload r) \<and> (sum_list C < M \<and> (of_nat (sum_list C) :: u64) = ec) \<and>
     sum_list C * eb < M \<and> length (drop (w * 8) (f_payload r)) = sum_list C * eb \<and>
     counts = C \<and> data = drop (w * 8) (f_payload r)"
    unfolding decode_counts_response_def traverse_counts Let_def
    by (simp only: bind_r_eq_Inr sum mul if_split[of "\<lambda>x. x = Inr _"] C_def[symmetric]
        ec_def[symmetric] sum.inject prod.inject sum.distinct simp_thms bind_r_simps) (auto simp only: C_def not_less)
  then show ?thesis
    unfolding of unfolding C_def ec_def using len by (auto simp: mult.commute[of w])
qed

section \<open>Properties\<close>

text \<open>The all-to-all-v response codec: \<open>decode_counts_response\<close> accepts a response exactly when its
  payload is the encoding of one count per rank followed by as many elements as the counts and the
  header say, and it returns those counts and that data.\<close>

theorem counts_response_roundtrip:
  assumes "length (f_payload response) < 2 ^ 64"
  shows "decode_counts_response response world_size element_bytes = Inr (counts, data) \<longleftrightarrow>
     (\<exists>prefix. encode_counts counts = Inr prefix \<and> f_payload response = prefix @ data \<and>
        length counts = world_size \<and>
        fh_flags (f_header response) AND FLAG_COUNTS_PREFIX \<noteq> 0 \<and>
        sum_list counts = unat (fh_element_count (f_header response)) \<and>
        length data = sum_list counts * element_bytes)" (is "?l = ?r")
proof
  assume ?l
  then have d: "8 * world_size \<le> length (f_payload response)"
    "counts = counts_of_bytes (take (8 * world_size) (f_payload response))"
    "data = drop (8 * world_size) (f_payload response)"
    unfolding decode_counts_response_eq[OF assms] by auto
  then have "bytes_of_counts counts = take (8 * world_size) (f_payload response)"
    by (simp add: bytes_of_counts_of_bytes min_def)
  moreover have "encode_counts counts = Inr (bytes_of_counts counts)"
    using counts_of_bytes_less d(2) by (auto simp: encode_counts_eq bytes_of_counts_def)
  ultimately show ?r
    using \<open>?l\<close> d unfolding decode_counts_response_eq[OF assms]
    by (auto simp: length_counts_of_bytes min_def)
next
  assume ?r
  then obtain prefix where p: "encode_counts counts = Inr prefix" "f_payload response = prefix @ data"
    "length counts = world_size" by auto
  then have small: "\<forall>c \<in> set counts. c < 2 ^ 64" and pre: "prefix = bytes_of_counts counts"
    by (auto simp: encode_counts_eq bytes_of_counts_def split: if_splits)
  with \<open>?r\<close> p(2,3) show ?l
    unfolding decode_counts_response_eq[OF assms]
    by (auto simp: counts_of_bytes_of_counts)
qed

theorem counts_response_roundtrip_witness:
  "let header = (collective_header (\<lambda>_. 0) (replicate 16 0) AllToAllV U8 0 ANY_RANK 2 0 3)
         \<lparr> fh_flags := FLAG_COUNTS_PREFIX \<rparr>;
       response = \<lparr> f_header = header, f_payload = [1,0,0,0,0,0,0,0, 2,0,0,0,0,0,0,0, 7,8,9] \<rparr>
   in decode_counts_response response 2 1 = Inr ([1, 2], [7, 8, 9])"
proof -
  let ?header = "(collective_header (\<lambda>_. 0) (replicate 16 0) AllToAllV U8 0 ANY_RANK 2 0 3)
         \<lparr> fh_flags := FLAG_COUNTS_PREFIX \<rparr>"
  let ?r = "\<lparr> f_header = ?header, f_payload = [1,0,0,0,0,0,0,0, 2,0,0,0,0,0,0,0, 7,8,9] \<rparr>"
  have "length (f_payload ?r) < 2 ^ 64" by simp
  moreover have "encode_counts [1, 2] = Inr [1,0,0,0,0,0,0,0, 2,0,0,0,0,0,0,0]"
    by (simp add: encode_counts_eq le_bytes_def upt_rec)
  ultimately show ?thesis
    using counts_response_roundtrip[of ?r 2 1 "[1, 2]" "[7, 8, 9]"]
    by (simp add: FLAG_COUNTS_PREFIX_def collective_header_def)
qed

end
