(* ===== verification/Host_Reduction.thy ===== *)
theory Host_Reduction
  imports Rank_Payload "HOL-Library.Multiset"
begin

text \<open>
  Reductions on host bytes, \<^verbatim>\<open>src/rank/host/reduction.rs\<close>. The trait \<open>HostReductionElement\<close> is the
  record \<open>host_element\<close> of its associated items; its implementations for the integer types, \<open>bool\<close>,
  \<open>f64\<close> and the two complex types are values of it. A floating-point number is its bit pattern and
  the machine's addition, subtraction, multiplication and comparison on it are the parameter
  \<open>float_ops\<close>: nothing is assumed of them.

  The contract that the reduction loop needs of an element type is the locale \<open>host_codec\<close>,
  interpreted on every implementation.
\<close>

section \<open>The trait and its implementations\<close>

record 'a host_element =
  he_size :: nat
  he_decode :: "bytes \<Rightarrow> message + 'a list"
  he_encode :: "'a list \<Rightarrow> bytes"
  he_combine :: "'a \<Rightarrow> 'a \<Rightarrow> reduction_operation \<Rightarrow> message + 'a"

record 'f float_ops =
  fl_add :: "'f \<Rightarrow> 'f \<Rightarrow> 'f"
  fl_sub :: "'f \<Rightarrow> 'f \<Rightarrow> 'f"
  fl_mul :: "'f \<Rightarrow> 'f \<Rightarrow> 'f"
  fl_lt :: "'f \<Rightarrow> 'f \<Rightarrow> bool"

definition bitwise_message :: message where
  "bitwise_message = Msg ''bitwise reductions require an integer or boolean dtype'' []"

definition complex_order_message :: message where
  "complex_order_message = Msg ''MIN and MAX reductions are not defined for complex dtypes'' []"

definition fixed_decode :: "string \<Rightarrow> nat \<Rightarrow> (bytes \<Rightarrow> 'a) \<Rightarrow> bytes \<Rightarrow> message + 'a list" where
  "fixed_decode template width from bs =
     (if length bs mod width \<noteq> 0 then Inl (Msg template [ANat (length bs), ANat width])
      else Inr (map from (chunks_exact width bs)))"

definition integer_combine ::
  "('a::len word \<Rightarrow> 'a word \<Rightarrow> bool) \<Rightarrow> 'a word \<Rightarrow> 'a word \<Rightarrow> reduction_operation \<Rightarrow> 'a word" where
  "integer_combine lt self source operation =
     (case operation of
        Sum \<Rightarrow> self + source
      | Product \<Rightarrow> self * source
      | Minimum \<Rightarrow> if lt source self then source else self
      | Maximum \<Rightarrow> if lt source self then self else source
      | BitAnd \<Rightarrow> self AND source
      | BitOr \<Rightarrow> self OR source
      | BitXor \<Rightarrow> self XOR source)"

text \<open>\<open>impl_host_integer_reduction!\<close>: \<open>lt\<close> is the unsigned or the signed order of the type.\<close>

definition integer_element ::
  "nat \<Rightarrow> ('a::len word \<Rightarrow> 'a word \<Rightarrow> bool) \<Rightarrow> 'a word host_element" where
  "integer_element width lt =
     \<lparr> he_size = width,
       he_decode = fixed_decode ''host reduction byte length {} is not divisible by {}'' width from_le_bytes,
       he_encode = (\<lambda>values. concat (map (le_bytes width) values)),
       he_combine = (\<lambda>self source operation. Inr (integer_combine lt self source operation)) \<rparr>"

definition bool_decode :: "u8 \<Rightarrow> message + bool" where
  "bool_decode v = (if v = 0 then Inr False else if v = 1 then Inr True
     else Inl (Msg ''invalid boolean reduction byte {}'' [ANat (unat v)]))"

definition bool_combine :: "bool \<Rightarrow> bool \<Rightarrow> reduction_operation \<Rightarrow> bool" where
  "bool_combine self source operation =
     (case operation of
        Sum \<Rightarrow> self \<or> source | Maximum \<Rightarrow> self \<or> source | BitOr \<Rightarrow> self \<or> source
      | Product \<Rightarrow> self \<and> source | Minimum \<Rightarrow> self \<and> source | BitAnd \<Rightarrow> self \<and> source
      | BitXor \<Rightarrow> self \<noteq> source)"

definition bool_element :: "bool host_element" where
  "bool_element =
     \<lparr> he_size = 1,
       he_decode = traverse_r bool_decode,
       he_encode = map (\<lambda>v. if v then 1 else 0),
       he_combine = (\<lambda>self source operation. Inr (bool_combine self source operation)) \<rparr>"

definition f64_combine ::
  "u64 float_ops \<Rightarrow> u64 \<Rightarrow> u64 \<Rightarrow> reduction_operation \<Rightarrow> message + u64" where
  "f64_combine fl self source operation =
     (case operation of
        Sum \<Rightarrow> Inr (fl_add fl self source)
      | Product \<Rightarrow> Inr (fl_mul fl self source)
      | Minimum \<Rightarrow> Inr (if fl_lt fl source self then source else self)
      | Maximum \<Rightarrow> Inr (if fl_lt fl self source then source else self)
      | BitAnd \<Rightarrow> Inl bitwise_message | BitOr \<Rightarrow> Inl bitwise_message | BitXor \<Rightarrow> Inl bitwise_message)"

definition f64_element :: "u64 float_ops \<Rightarrow> u64 host_element" where
  "f64_element fl =
     \<lparr> he_size = 8,
       he_decode = fixed_decode ''host reduction byte length {} is not divisible by {}'' 8 from_le_bytes,
       he_encode = (\<lambda>values. concat (map (le_bytes 8) values)),
       he_combine = f64_combine fl \<rparr>"

record 'f complex_value =
  real_part :: 'f
  imaginary_part :: 'f

definition complex_combine ::
  "'f float_ops \<Rightarrow> 'f complex_value \<Rightarrow> 'f complex_value \<Rightarrow> reduction_operation
     \<Rightarrow> message + 'f complex_value" where
  "complex_combine fl self source operation =
     (case operation of
        Sum \<Rightarrow> Inr \<lparr> real_part = fl_add fl (real_part self) (real_part source),
                     imaginary_part = fl_add fl (imaginary_part self) (imaginary_part source) \<rparr>
      | Product \<Rightarrow>
          Inr \<lparr> real_part = fl_sub fl (fl_mul fl (real_part self) (real_part source))
                                      (fl_mul fl (imaginary_part self) (imaginary_part source)),
                imaginary_part = fl_add fl (fl_mul fl (real_part self) (imaginary_part source))
                                           (fl_mul fl (imaginary_part self) (real_part source)) \<rparr>
      | Minimum \<Rightarrow> Inl complex_order_message | Maximum \<Rightarrow> Inl complex_order_message
      | BitAnd \<Rightarrow> Inl bitwise_message | BitOr \<Rightarrow> Inl bitwise_message | BitXor \<Rightarrow> Inl bitwise_message)"

text \<open>\<open>impl_host_complex_reduction!\<close> with \<open>width\<close> the bytes of a component.\<close>

definition complex_element ::
  "nat \<Rightarrow> 'a::len word float_ops \<Rightarrow> 'a word complex_value host_element" where
  "complex_element width fl =
     \<lparr> he_size = 2 * width,
       he_decode = fixed_decode ''host complex reduction byte length {} is not divisible by {}'' (2 * width)
         (\<lambda>chunk. \<lparr> real_part = from_le_bytes (take width chunk),
                    imaginary_part = from_le_bytes (drop width chunk) \<rparr>),
       he_encode = (\<lambda>values. concat (map (\<lambda>v. le_bytes width (real_part v) @ le_bytes width (imaginary_part v)) values)),
       he_combine = complex_combine fl \<rparr>"

section \<open>Operations\<close>

definition validate_host_reduction_operation ::
  "element_type \<Rightarrow> reduction_operation \<Rightarrow> message + unit" where
  "validate_host_reduction_operation element_type operation =
     (if element_type \<in> {F64, Complex64, Complex128} \<and> operation \<in> {BitAnd, BitOr, BitXor}
      then Inl bitwise_message
      else if element_type \<in> {Complex64, Complex128} \<and> operation \<in> {Minimum, Maximum}
      then Inl complex_order_message
      else Inr ())"

text \<open>The inner loop of \<open>reduce_host_values\<close>: combine one rank's row into the output.\<close>

definition combine_row ::
  "'a host_element \<Rightarrow> reduction_operation \<Rightarrow> 'a list \<Rightarrow> 'a list \<Rightarrow> message + 'a list" where
  "combine_row E operation output row =
     traverse_r (\<lambda>(destination, v). he_combine E destination v operation) (zip output row)"

definition reduce_host_values ::
  "'a host_element \<Rightarrow> bytes \<Rightarrow> nat \<Rightarrow> nat \<Rightarrow> reduction_operation \<Rightarrow> message fault + bytes" where
  "reduce_host_values E payload elements_per_rank world_size operation =
     bind_r (ok_or (checked_mul 64 elements_per_rank world_size)
               (Fault (Msg ''host reduction element count overflow'' []))) (\<lambda>expected_elements.
     bind_r (ok_or (checked_mul 64 expected_elements (he_size E))
               (Fault (Msg ''host reduction byte count overflow'' []))) (\<lambda>expected_bytes.
     if length payload \<noteq> expected_bytes
     then Inl (Fault (Msg ''host reduction received {} bytes, expected {}''
                        [ANat (length payload), ANat expected_bytes]))
     else if elements_per_rank = 0 then Inr []
     else bind_r (map_err Fault (he_decode E payload)) (\<lambda>values.
       if length values < elements_per_rank then Inl (Panic ''range end index out of range for slice'')
       else
         bind_r (fold_r (\<lambda>source output.
             let start = source * elements_per_rank
             in if length values < start + elements_per_rank
                then Inl (Panic ''range end index out of range for slice'')
                else map_err Fault (combine_row E operation output
                       (subslice start (start + elements_per_rank) values)))
           [1..<world_size] (take elements_per_rank values)) (\<lambda>output.
         Inr (he_encode E output)))))"

definition reduce_host_payload ::
  "u64 float_ops \<Rightarrow> u32 float_ops \<Rightarrow> element_type \<Rightarrow> bytes \<Rightarrow> nat \<Rightarrow> nat \<Rightarrow> reduction_operation
     \<Rightarrow> message fault + bytes" where
  "reduce_host_payload fl64 fl32 element_type payload elements_per_rank world_size operation =
     (case element_type of
        U8 \<Rightarrow> reduce_host_values (integer_element 1 (<) :: 8 word host_element) payload elements_per_rank world_size operation
      | U32 \<Rightarrow> reduce_host_values (integer_element 4 (<) :: 32 word host_element) payload elements_per_rank world_size operation
      | Bool \<Rightarrow> reduce_host_values bool_element payload elements_per_rank world_size operation
      | I8 \<Rightarrow> reduce_host_values (integer_element 1 word_sless :: 8 word host_element) payload elements_per_rank world_size operation
      | I16 \<Rightarrow> reduce_host_values (integer_element 2 word_sless :: 16 word host_element) payload elements_per_rank world_size operation
      | I64 \<Rightarrow> reduce_host_values (integer_element 8 word_sless :: 64 word host_element) payload elements_per_rank world_size operation
      | F64 \<Rightarrow> reduce_host_values (f64_element fl64) payload elements_per_rank world_size operation
      | U16 \<Rightarrow> reduce_host_values (integer_element 2 (<) :: 16 word host_element) payload elements_per_rank world_size operation
      | U64 \<Rightarrow> reduce_host_values (integer_element 8 (<) :: 64 word host_element) payload elements_per_rank world_size operation
      | Complex64 \<Rightarrow> reduce_host_values (complex_element 4 fl32) payload elements_per_rank world_size operation
      | Complex128 \<Rightarrow> reduce_host_values (complex_element 8 fl64) payload elements_per_rank world_size operation
      | _ \<Rightarrow> Inl (Fault (Msg ''element type {:?} does not use host reduction'' [AElem element_type])))"

section \<open>The contract of an element type\<close>

locale host_codec =
  fixes E :: "'a host_element" and valid :: "bytes \<Rightarrow> bool"
  assumes size_pos: "0 < he_size E"
    and encode_append: "he_encode E (xs @ ys) = he_encode E xs @ he_encode E ys"
    and length_encode: "length (he_encode E xs) = he_size E * length xs"
    and decode_encode: "he_decode E (he_encode E xs) = Inr xs"
    and decode_total: "valid bs \<Longrightarrow> he_size E dvd length bs \<Longrightarrow>
           \<exists>xs. he_decode E bs = Inr xs \<and> he_size E * length xs = length bs"
begin

lemma encode_Nil: "he_encode E [] = []"
  using length_encode[of "[]"] by simp

lemma encode_concat: "concat (map (he_encode E) rows) = he_encode E (concat rows)"
  by (induction rows) (simp_all add: encode_Nil encode_append)

lemma combine_row_total:
  assumes "\<And>a b. he_combine E a b operation = Inr (g a b)"
  shows "combine_row E operation output row = Inr (map2 g output row)"
  unfolding combine_row_def using assms by (intro traverse_r_all_ok) auto

lemma reduce_loop:
  assumes g: "\<And>a b. he_combine E a b operation = Inr (g a b)"
    and len: "length values = n * w" and k: "k \<le> w" and out: "length out = n"
  shows "fold_r (\<lambda>source out. let start = source * n
           in if length values < start + n then Inl (Panic p)
              else map_err Fault (combine_row E operation out (subslice start (start + n) values)))
         [k..<w] out
       = Inr (fold (\<lambda>source out. map2 g out (subslice (source * n) (source * n + n) values)) [k..<w] out)"
  using k out
proof (induction "w - k" arbitrary: k out)
  case (Suc d)
  then have kw: "k < w" by simp
  then have bound: "k * n + n \<le> length values"
    using mult_le_mono1[of "Suc k" w n] len by (simp add: mult.commute)
  have "length (subslice (k * n) (k * n + n) values) = n"
    using bound by (simp add: length_subslice)
  then have "length (map2 g out (subslice (k * n) (k * n + n) values)) = n" using Suc.prems by simp
  then show ?case
    using Suc.hyps Suc.prems bound kw
    by (simp add: upt_conv_Cons[OF kw] Let_def combine_row_total[OF g])
qed simp

text \<open>The loop over rank-ordered rows is a left fold of the element operation.\<close>

lemma reduce_values:
  assumes g: "\<And>a b. he_combine E a b operation = Inr (g a b)"
    and dec: "he_decode E payload = Inr values" "length values = n * w"
    and small: "n * w * he_size E < 2 ^ 64" and w: "0 < w"
    and len: "length payload = n * w * he_size E"
  shows "reduce_host_values E payload n w operation =
     Inr (he_encode E (fold (\<lambda>source out. map2 g out (subslice (source * n) (source * n + n) values))
                          [1..<w] (take n values)))"
proof (cases "n = 0")
  case True
  moreover have "fold (\<lambda>source out. map2 g out (f source)) xs [] = []" for f and xs :: "nat list"
    by (induction xs) simp_all
  ultimately show ?thesis
    using small len by (simp add: reduce_host_values_def checked_mul_def encode_Nil)
next
  case False
  have "n * w \<le> n * w * he_size E" using size_pos by simp
  then have nw: "n * w < 2 ^ 64" using small by (rule le_less_trans)
  have vl: "\<not> length values < n" "length (take n values) = n" using dec(2) w by simp_all
  show ?thesis
    unfolding reduce_host_values_def
    using nw small len dec(1) False vl w
      reduce_loop[OF g dec(2) _ vl(2), of 1 "''range end index out of range for slice''"]
    by (simp add: checked_mul_def del: One_nat_def)
qed

lemma fold_map2_rows:
  assumes "\<forall>row \<in> set rows. length row = n"
  shows "fold (\<lambda>source out. map2 g out (subslice (source * n) (source * n + n) (concat rows)))
           [k..<length rows] out
       = fold (\<lambda>row out. map2 g out row) (drop k rows) out"
  using assms
proof (induction "length rows - k" arbitrary: k out)
  case (Suc d)
  then have k: "k < length rows" by simp
  have pre: "length (concat (take k rows)) = k * n"
    using Suc.prems k by (induction k) (simp_all add: take_Suc_conv_app_nth)
  have "concat rows = concat (take k rows) @ rows ! k @ concat (drop (Suc k) rows)"
    using k by (metis concat.simps(2) concat_append id_take_nth_drop)
  then have "subslice (k * n) (k * n + n) (concat rows) = rows ! k"
    using pre Suc.prems k by (simp add: subslice_append_mid)
  with Suc.hyps Suc.prems k show ?case
    by (simp add: upt_conv_Cons[OF k] Cons_nth_drop_Suc[OF k, symmetric])
qed simp

lemma reduce_rows:
  assumes g: "\<And>a b. he_combine E a b operation = Inr (g a b)"
    and rows: "\<forall>row \<in> set (first # rest). length row = n"
    and small: "n * Suc (length rest) * he_size E < 2 ^ 64"
  shows "reduce_host_values E (concat (map (he_encode E) (first # rest))) n (Suc (length rest)) operation =
     Inr (he_encode E (fold (\<lambda>row out. map2 g out row) rest first))"
proof -
  let ?rows = "first # rest"
  have len: "length (concat ?rows) = n * Suc (length rest)"
    using rows by (induction rest) auto
  have first: "take n (concat ?rows) = first" using rows by simp
  have bytes: "length (he_encode E (concat ?rows)) = n * Suc (length rest) * he_size E"
    by (simp only: length_encode len mult.commute)
  have "fold (\<lambda>source out. map2 g out (subslice (source * n) (source * n + n) (concat ?rows)))
      [1..<Suc (length rest)] first = fold (\<lambda>row out. map2 g out row) rest first"
    using fold_map2_rows[OF rows, of g 1 first] by (simp del: upt_Suc)
  then show ?thesis
    using reduce_values[OF g decode_encode len small zero_less_Suc bytes]
    unfolding encode_concat first by (simp only:)
qed

lemma reduce_total:
  assumes g: "\<And>a b. he_combine E a b operation = Inr (g a b)"
    and ok: "valid payload" and small: "n * w * he_size E < 2 ^ 64" and w: "0 < w"
    and len: "length payload = n * w * he_size E"
  shows "\<exists>out. reduce_host_values E payload n w operation = Inr out \<and> length out = n * he_size E"
proof -
  obtain vs where v: "he_decode E payload = Inr vs" "he_size E * length vs = length payload"
    using decode_total[OF ok] len by auto
  then have vl: "length vs = n * w" using len size_pos by (simp add: mult.commute[of "he_size E"])
  let ?out = "fold (\<lambda>source out. map2 g out (subslice (source * n) (source * n + n) vs)) [1..<w] (take n vs)"
  have rows: "length (subslice (source * n) (source * n + n) vs) = n" if "source < w" for source
    using mult_le_mono1[of "Suc source" w n] that vl by (simp add: length_subslice mult.commute)
  have "length ?out = n"
    by (rule fold_invariant[where Q = "\<lambda>source. source < w"]) (use rows vl w in auto)
  then show ?thesis
    using reduce_values[OF g v(1) vl small w len] by (simp add: length_encode mult.commute)
qed

end

section \<open>The implementations meet the contract\<close>

lemma concat_map_chunks:
  assumes "\<And>x. length (f x) = n" and "0 < n"
  shows "chunks_exact n (concat (map f xs)) = map f xs" "length (concat (map f xs)) = n * length xs"
proof -
  show "chunks_exact n (concat (map f xs)) = map f xs"
    using chunks_exact_concat[of "map f xs" n "[]"] assms by auto
  show "length (concat (map f xs)) = n * length xs" by (induction xs) (simp_all add: assms)
qed

lemma fixed_decode_concat:
  assumes "\<And>x. length (f x) = n" and "0 < n" and "\<And>x. from (f x) = x"
  shows "fixed_decode t n from (concat (map f xs)) = Inr xs"
  using concat_map_chunks[of f n xs] assms by (simp add: fixed_decode_def comp_def)

lemma fixed_decode_total:
  "0 < n \<Longrightarrow> n dvd length bs \<Longrightarrow> \<exists>xs. fixed_decode t n from bs = Inr xs \<and> n * length xs = length bs"
  by (auto simp: fixed_decode_def length_chunks_exact)

lemma integer_codec:
  assumes "LENGTH('a) = 8 * n"
  shows "host_codec (integer_element n lt :: 'a::len word host_element) (\<lambda>_. True)"
proof -
  have n: "0 < n" using assms len_gt_0[where ?'a = 'a] by simp
  have inv: "from_le_bytes (le_bytes n w) = w" for w :: "'a word"
    using assms by (rule from_le_bytes_le_bytes)
  show ?thesis
    using n fixed_decode_concat[of "le_bytes n" n "from_le_bytes :: bytes \<Rightarrow> 'a word", OF _ n inv]
      concat_map_chunks(2)[of "le_bytes n :: 'a word \<Rightarrow> bytes" n, OF _ n] fixed_decode_total[OF n]
    by unfold_locales (simp_all add: integer_element_def)
qed

interpretation u8_codec: host_codec "integer_element 1 (<) :: 8 word host_element" "\<lambda>_. True"
  by (rule integer_codec) simp
interpretation u16_codec: host_codec "integer_element 2 (<) :: 16 word host_element" "\<lambda>_. True"
  by (rule integer_codec) simp
interpretation u32_codec: host_codec "integer_element 4 (<) :: 32 word host_element" "\<lambda>_. True"
  by (rule integer_codec) simp
interpretation u64_codec: host_codec "integer_element 8 (<) :: 64 word host_element" "\<lambda>_. True"
  by (rule integer_codec) simp
interpretation i8_codec: host_codec "integer_element 1 word_sless :: 8 word host_element" "\<lambda>_. True"
  by (rule integer_codec) simp
interpretation i16_codec: host_codec "integer_element 2 word_sless :: 16 word host_element" "\<lambda>_. True"
  by (rule integer_codec) simp
interpretation i64_codec: host_codec "integer_element 8 word_sless :: 64 word host_element" "\<lambda>_. True"
  by (rule integer_codec) simp

definition bool_bytes :: "bytes \<Rightarrow> bool" where
  "bool_bytes bs = list_all (\<lambda>b. b = 0 \<or> b = 1) bs"

interpretation bool_codec: host_codec bool_element bool_bytes
proof
  show "he_decode bool_element (he_encode bool_element xs) = Inr xs" for xs
    by (induction xs) (auto simp: bool_element_def bool_decode_def)
  show "\<exists>xs. he_decode bool_element bs = Inr xs \<and> he_size bool_element * length xs = length bs"
    if "bool_bytes bs" for bs
  proof -
    have "traverse_r bool_decode bs = Inr (map (\<lambda>b. b = 1) bs)"
      using that by (intro traverse_r_all_ok) (auto simp: bool_bytes_def list_all_iff bool_decode_def)
    then show ?thesis by (simp add: bool_element_def)
  qed
qed (simp_all add: bool_element_def)

interpretation f64_codec: host_codec "f64_element fl" "\<lambda>_. True"
  for fl
proof
  show "\<exists>xs. he_decode (f64_element fl) bs = Inr xs \<and> he_size (f64_element fl) * length xs = length bs"
    if "he_size (f64_element fl) dvd length bs" for bs
    using that fixed_decode_total[of 8 bs] by (simp add: f64_element_def)
qed (simp_all add: f64_element_def fixed_decode_concat concat_map_chunks)

lemma complex_codec:
  assumes "LENGTH('a) = 8 * n"
  shows "host_codec (complex_element n fl :: 'a::len word complex_value host_element) (\<lambda>_. True)"
proof -
  let ?enc = "\<lambda>v :: 'a word complex_value. le_bytes n (real_part v) @ le_bytes n (imaginary_part v)"
  let ?dec = "\<lambda>chunk. \<lparr> real_part = from_le_bytes (take n chunk) :: 'a word,
                    imaginary_part = from_le_bytes (drop n chunk) \<rparr>"
  have n: "0 < 2 * n" using assms len_gt_0[where ?'a = 'a] by simp
  have inv: "?dec (?enc v) = v" for v
    using assms by (simp add: from_le_bytes_le_bytes)
  have len: "length (?enc v) = 2 * n" for v by simp
  show ?thesis
    using n fixed_decode_concat[of ?enc "2 * n" ?dec, OF len n inv]
      concat_map_chunks(2)[of ?enc "2 * n", OF len n] fixed_decode_total[OF n]
    by unfold_locales (simp_all add: complex_element_def)
qed

interpretation c32_codec: host_codec "complex_element 4 fl :: 32 word complex_value host_element" "\<lambda>_. True"
  for fl by (rule complex_codec) simp
interpretation c64_codec: host_codec "complex_element 8 fl :: 64 word complex_value host_element" "\<lambda>_. True"
  for fl by (rule complex_codec) simp

section \<open>Order of the ranks\<close>

lemma integer_combine_comm:
  assumes "lt = (<) \<or> lt = word_sless"
  shows "integer_combine lt a b operation = integer_combine lt b a operation"
  using assms by (cases operation)
    (auto simp: integer_combine_def add.commute mult.commute and.commute or.commute xor.commute
        dest: signed.less_asym)

lemma integer_combine_assoc:
  assumes "lt = (<) \<or> lt = word_sless"
  shows "integer_combine lt (integer_combine lt a b operation) c operation =
         integer_combine lt a (integer_combine lt b c operation) operation"
  using assms by (cases operation)
    (auto simp: integer_combine_def add.assoc mult.assoc and.assoc or.assoc xor.assoc
        dest: signed.less_trans signed.less_le_trans signed.le_less_trans)

text \<open>A left fold of a commutative and associative operation depends on the multiset only.\<close>

lemma fold_hd_mset:
  assumes comm: "\<And>a b. f a b = f b a" and assoc: "\<And>a b c. f (f a b) c = f a (f b c)"
    and eq: "mset (x # xs) = mset (y # ys)"
  shows "fold (\<lambda>b a. f a b) xs x = fold (\<lambda>b a. f a b) ys y"
proof -
  have lc: "(\<lambda>a. f a b) \<circ> (\<lambda>a. f a c) = (\<lambda>a. f a c) \<circ> (\<lambda>a. f a b)" for b c
    by (rule ext) (simp, metis assoc comm)
  have perm: "fold (\<lambda>b a. f a b) us = fold (\<lambda>b a. f a b) vs" if "mset us = mset vs" for us vs
    using that lc by (intro fold_multiset_equiv) auto
  show ?thesis
  proof (cases "x = y")
    case True
    with eq show ?thesis using perm[of xs ys] by simp
  next
    case False
    have "set (x # xs) = set (y # ys)" using eq by (rule mset_eq_setD)
    with False have y: "y \<in> set xs" by auto
    define zs where "zs = remove1 y xs"
    have zs: "mset xs = mset (y # zs)" using y by (simp add: zs_def)
    with eq have "mset ys = mset (x # zs)" by (simp add: add_mset_commute)
    with zs show ?thesis using perm[of xs "y # zs"] perm[of ys "x # zs"] comm[of x y] by simp
  qed
qed

lemma fold_map2_columns:
  assumes "\<forall>row \<in> set rows. length row = n" and "length out = n"
  shows "fold (\<lambda>row out. map2 g out row) rows out =
     map (\<lambda>i. fold (\<lambda>b a. g a b) (map (\<lambda>row. row ! i) rows) (out ! i)) [0..<n]"
  using assms
proof (induction rows arbitrary: out)
  case Nil
  then show ?case using map_nth[of out] by simp
next
  case (Cons row rows)
  then have "length (map2 g out row) = n" by simp
  with Cons.IH[OF _ this] Cons.prems show ?case by simp
qed

lemma reduce_integer_rows:
  fixes lt :: "'a::len word \<Rightarrow> 'a word \<Rightarrow> bool"
  assumes "LENGTH('a) = 8 * k"
    and "\<forall>row \<in> set (first # rest). length row = n"
    and "n * Suc (length rest) * k < 2 ^ 64"
  shows "reduce_host_values (integer_element k lt)
           (concat (map (he_encode (integer_element k lt)) (first # rest))) n (Suc (length rest)) operation =
     Inr (he_encode (integer_element k lt)
       (map (\<lambda>i. fold (\<lambda>b a. integer_combine lt a b operation) (map (\<lambda>row. row ! i) rest) (first ! i)) [0..<n]))"
proof -
  have "he_size (integer_element k lt) = k" by (simp add: integer_element_def)
  moreover have "he_combine (integer_element k lt) a b operation = Inr (integer_combine lt a b operation)" for a b
    by (simp add: integer_element_def)
  moreover have "fold (\<lambda>row out. map2 (\<lambda>a b. integer_combine lt a b operation) out row) rest first =
     map (\<lambda>i. fold (\<lambda>b a. integer_combine lt a b operation) (map (\<lambda>row. row ! i) rest) (first ! i)) [0..<n]"
    using assms(2) by (intro fold_map2_columns) auto
  ultimately show ?thesis
    using host_codec.reduce_rows[OF integer_codec[OF assms(1), of lt], of operation
        "\<lambda>a b. integer_combine lt a b operation" first rest n] assms(2,3) by simp
qed

lemma reduce_integer_total:
  assumes "LENGTH('a::len) = 8 * k" "length payload = n * w * k" "n * w * k < 2 ^ 64" "0 < w"
  shows "\<exists>out. reduce_host_values (integer_element k lt :: 'a word host_element) payload n w operation = Inr out \<and>
     length out = n * k"
  using host_codec.reduce_total[OF integer_codec[OF assms(1), of lt],
      where operation = operation and g = "\<lambda>a b. integer_combine lt a b operation"
        and payload = payload and n = n and w = w] assms
  by (simp add: integer_element_def)

lemma complex_combine_total:
  assumes "validate_host_reduction_operation element_type operation = Inr ()"
    and "element_type = Complex64 \<or> element_type = Complex128"
  shows "\<exists>g. \<forall>a b. he_combine (complex_element k fl) a b operation = Inr (g a b)"
  using assms
  by (cases operation) (auto simp: complex_element_def complex_combine_def validate_host_reduction_operation_def)

section \<open>Properties\<close>

text \<open>C11. The host reduction of the integer types: given the rank-ordered rows that the coordinator
  concatenates, \<open>reduce_host_values\<close> returns the encoding of the column-wise combination (for \<open>Sum\<close>,
  the wrapping column sums), and every other order of the same rows gives the same bytes.\<close>

theorem host_reduction_integer:
  fixes lt :: "'a::len word \<Rightarrow> 'a word \<Rightarrow> bool"
  assumes "LENGTH('a) = 8 * k" and "lt = (<) \<or> lt = word_sless"
    and "\<forall>row \<in> set (first # rest). length row = n"
    and "n * Suc (length rest) * k < 2 ^ 64"
    and "mset (first' # rest') = mset (first # rest)"
  shows "\<exists>out. length out = n \<and>
     reduce_host_values (integer_element k lt)
       (concat (map (he_encode (integer_element k lt)) (first # rest))) n (Suc (length rest)) operation
         = Inr (concat (map (le_bytes k) out)) \<and>
     reduce_host_values (integer_element k lt)
       (concat (map (he_encode (integer_element k lt)) (first' # rest'))) n (Suc (length rest)) operation
         = Inr (concat (map (le_bytes k) out)) \<and>
     (\<forall>i < n. out ! i = fold (\<lambda>b a. integer_combine lt a b operation) (map (\<lambda>row. row ! i) rest) (first ! i)) \<and>
     (operation = Sum \<longrightarrow> (\<forall>i < n. out ! i = sum_list (map (\<lambda>row. row ! i) (first # rest))))"
proof -
  let ?col = "\<lambda>first rest i. fold (\<lambda>b a. integer_combine lt a b operation) (map (\<lambda>row. row ! i) rest) (first ! i)"
  have len: "length rest' = length rest" using mset_eq_length[OF assms(5)] by simp
  have rows': "\<forall>row \<in> set (first' # rest'). length row = n"
    using assms(3) mset_eq_setD[OF assms(5)] by simp
  have cols: "?col first' rest' i = ?col first rest i" for i
  proof (rule fold_hd_mset[of "\<lambda>a b. integer_combine lt a b operation"])
    show "mset (first' ! i # map (\<lambda>row. row ! i) rest') = mset (first ! i # map (\<lambda>row. row ! i) rest)"
      using arg_cong[OF assms(5), of "image_mset (\<lambda>row. row ! i)"] by simp
  qed (use assms(2) in \<open>auto intro: integer_combine_comm integer_combine_assoc\<close>)
  have sum: "fold (\<lambda>b a. integer_combine lt a b Sum) xs x = sum_list (x # xs)" for x xs
    by (induction xs arbitrary: x) (simp_all add: integer_combine_def add.assoc)
  have enc: "he_encode (integer_element k lt) = (\<lambda>vs. concat (map (le_bytes k) vs))"
    by (simp add: integer_element_def)
  show ?thesis
    using reduce_integer_rows[OF assms(1,3,4), of lt operation]
      reduce_integer_rows[OF assms(1) rows', unfolded len, OF assms(4), of lt operation] cols sum
    unfolding enc by (intro exI[of _ "map (?col first rest) [0..<n]"]) auto
qed

theorem host_reduction_integer_witness:
  "\<exists>out. length out = 2 \<and>
     reduce_host_values (integer_element 1 (<) :: 8 word host_element) [250, 1, 10, 2] 2 2 Sum = Inr out \<and>
     reduce_host_values (integer_element 1 (<) :: 8 word host_element) [10, 2, 250, 1] 2 2 Sum = Inr out"
proof -
  have id: "le_bytes 1 b = [b]" for b :: u8 by (simp add: le_bytes_def)
  have idm: "concat (map (le_bytes 1) bs) = bs" for bs :: bytes by (induction bs) (simp_all only: id concat.simps list.map append_Cons append_Nil)
  have enc: "he_encode (integer_element 1 (<)) = (\<lambda>bs :: bytes. bs)"
    by (rule ext) (simp only: integer_element_def host_element.simps idm)
  have w: "Suc (length [[10, 2 :: u8]]) = 2" by simp
  show ?thesis
    using host_reduction_integer[of 1 "(<) :: 8 word \<Rightarrow> 8 word \<Rightarrow> bool" "[250, 1]" "[[10, 2]]" 2 "[10, 2]" "[[250, 1]]" Sum]
    unfolding enc idm w by (auto simp: add_mset_commute)
qed

text \<open>A reduction whose operation was validated for its element type and whose payload holds one
  row per rank always succeeds and returns the bytes of one rank: the trait's \<open>combine\<close> errors and
  the slice panics are not reachable after the validation.\<close>

theorem host_reduction_validated:
  assumes "validate_host_reduction_operation element_type operation = Inr ()"
    and "element_type \<in> {U8, U16, U32, U64, I8, I16, I64, Bool, F64, Complex64, Complex128}"
    and "length payload = n * world_size * byte_width element_type"
    and "n * world_size * byte_width element_type < 2 ^ 64" and "0 < world_size"
    and "element_type = Bool \<longrightarrow> bool_bytes payload"
  shows "\<exists>out. reduce_host_payload fl64 fl32 element_type payload n world_size operation = Inr out \<and>
     length out = n * byte_width element_type"
proof -
  have sizes: "he_size bool_element = 1" "he_size (f64_element fl) = 8"
    "he_size (complex_element 4 fl' :: 32 word complex_value host_element) = 8"
    "he_size (complex_element 8 fl :: 64 word complex_value host_element) = 16" for fl fl'
    by (simp_all add: bool_element_def f64_element_def complex_element_def)
  have bool: "he_combine bool_element a b operation = Inr (bool_combine a b operation)" for a b
    by (simp add: bool_element_def)
  have "\<exists>c. he_combine (f64_element fl64) a b operation = Inr c" if "element_type = F64" for a b
    using assms(1) that
    by (cases operation) (auto simp: f64_element_def f64_combine_def validate_host_reduction_operation_def)
  then have fl: "\<exists>g. \<forall>a b. he_combine (f64_element fl64) a b operation = Inr (g a b)"
    if "element_type = F64" using that by metis
  show ?thesis
    using assms(2)
  proof (elim insertE emptyE)
    assume et: "element_type = Bool"
    show ?thesis
      using bool_codec.reduce_total[of operation, OF bool, of payload n world_size] assms et
      by (simp add: reduce_host_payload_def sizes)
  next
    assume et: "element_type = F64"
    then obtain g where "\<And>a b. he_combine (f64_element fl64) a b operation = Inr (g a b)" using fl by blast
    from f64_codec.reduce_total[OF this, where payload = payload and n = n and w = world_size] show ?thesis
      using assms et by (simp add: reduce_host_payload_def sizes)
  next
    assume et: "element_type = Complex64"
    then obtain g where "\<And>a b. he_combine (complex_element 4 fl32) a b operation = Inr (g a b)" using complex_combine_total[OF assms(1)] by blast
    from c32_codec.reduce_total[OF this, where payload = payload and n = n and w = world_size] show ?thesis
      using assms et by (simp add: reduce_host_payload_def sizes)
  next
    assume et: "element_type = Complex128"
    then obtain g where "\<And>a b. he_combine (complex_element 8 fl64) a b operation = Inr (g a b)" using complex_combine_total[OF assms(1)] by blast
    from c64_codec.reduce_total[OF this, where payload = payload and n = n and w = world_size] show ?thesis
      using assms et by (simp add: reduce_host_payload_def sizes)
  qed (insert assms(3-5), simp only: reduce_host_payload_def element_type.case byte_width.simps,
      rule reduce_integer_total, simp, simp, simp, simp)+
qed

theorem host_reduction_validated_witness:
  "let fl64 = \<lparr> fl_add = (+), fl_sub = (-), fl_mul = (*), fl_lt = (<) \<rparr>;
       fl32 = \<lparr> fl_add = (+), fl_sub = (-), fl_mul = (*), fl_lt = (<) \<rparr>
   in \<exists>out. reduce_host_payload fl64 fl32 Bool [1, 0, 0, 0] 2 2 BitXor = Inr out \<and> length out = 2"
  using host_reduction_validated[of Bool BitXor "[1, 0, 0, 0]" 2 2]
  by (simp add: validate_host_reduction_operation_def bool_bytes_def)

end
