(* ===== verification/Coordinator_Routing.thy ===== *)
theory Coordinator_Routing
  imports Agreement Host_Reduction
begin

text \<open>
  The coordinator's collective router of \<^verbatim>\<open>src/rank/network.rs\<close>: \<open>validate_and_route\<close> with every
  helper it calls. One round takes the requests of all ranks in rank order, checks session, ranks and
  agreement, and builds one response frame per rank. Slices that are out of range panic in the
  source; here they are the error \<open>Panic\<close>, and \<open>routing_never_panics\<close> shows that no request reaches
  them.
\<close>

section \<open>Frames the coordinator builds\<close>

definition response_header ::
  "(bytes \<Rightarrow> u32) \<Rightarrow> bytes \<Rightarrow> opcode \<Rightarrow> element_type \<Rightarrow> u64 \<Rightarrow> nat \<Rightarrow> nat \<Rightarrow> nat \<Rightarrow> frame_header" where
  "response_header crc uid opc et seqn destination world_size cnt =
     (collective_header crc uid opc et 0 ANY_RANK (of_nat world_size) seqn (of_nat cnt))
       \<lparr> fh_destination_rank := of_nat destination \<rparr>"

definition data_response ::
  "(bytes \<Rightarrow> u32) \<Rightarrow> frame list \<Rightarrow> bytes \<Rightarrow> u64 \<Rightarrow> opcode \<Rightarrow> element_type \<Rightarrow> nat \<Rightarrow> nat \<Rightarrow> bytes
     \<Rightarrow> network_error + frame" where
  "data_response crc requests uid seqn opc et destination cnt payload =
     map_err Protocol (frame_new crc
       (response_header crc uid opc et seqn destination (length requests) cnt) payload)"

definition control_frame ::
  "(bytes \<Rightarrow> u32) \<Rightarrow> bytes \<Rightarrow> opcode \<Rightarrow> u64 \<Rightarrow> u32 \<Rightarrow> u32 \<Rightarrow> network_error + frame" where
  "control_frame crc uid opc seqn destination world_size =
     map_err Protocol (frame_new crc
       ((collective_header crc uid opc ElemNone 0 ANY_RANK world_size seqn 0)
          \<lparr> fh_destination_rank := destination \<rparr>) [])"

text \<open>\<open>message\<close> is the UTF-8 text of the error.\<close>

definition abort_frame ::
  "(bytes \<Rightarrow> u32) \<Rightarrow> bytes \<Rightarrow> u64 \<Rightarrow> u32 \<Rightarrow> u32 \<Rightarrow> bytes \<Rightarrow> network_error + frame" where
  "abort_frame crc uid seqn destination world_size message =
     map_err Protocol (frame_new crc
       ((collective_header crc uid Abort U8 0 ANY_RANK world_size seqn (of_nat (length message)))
          \<lparr> fh_destination_rank := destination \<rparr>) message)"

section \<open>Checks\<close>

definition required_root :: "nat option \<Rightarrow> nat \<Rightarrow> network_error + nat" where
  "required_root root world_size =
     (case root of
        Some r \<Rightarrow> if r < world_size then Inr r
                  else Inl (invalid_configuration ''rooted collective requires a valid root rank'' [])
      | None \<Rightarrow> Inl (invalid_configuration ''rooted collective requires a valid root rank'' []))"

definition require_all_payloads :: "frame list \<Rightarrow> nat \<Rightarrow> network_error + unit" where
  "require_all_payloads requests bytes =
     (case position (\<lambda>request. length (f_payload request) \<noteq> bytes) requests of
        Some rank \<Rightarrow> Inl (invalid_configuration ''rank {} payload has {} bytes, expected {}''
                          [ANat rank, ANat (length (f_payload (requests ! rank))), ANat bytes])
      | None \<Rightarrow> Inr ())"

definition require_only_root_payload :: "frame list \<Rightarrow> nat \<Rightarrow> nat \<Rightarrow> network_error + unit" where
  "require_only_root_payload requests root bytes =
     fold_r (\<lambda>(rank, request) _.
        let expected = (if rank = root then bytes else 0)
        in if length (f_payload request) \<noteq> expected
           then Inl (invalid_configuration ''rank {} payload has {} bytes, expected {}''
                  [ANat rank, ANat (length (f_payload request)), ANat expected])
           else Inr ()) (enumerate 0 requests) ()"

definition concatenate_payloads :: "frame list \<Rightarrow> network_error + bytes" where
  "concatenate_payloads requests =
     bind_r (ok_or (fold_o (\<lambda>request tot. checked_add 64 tot (length (f_payload request))) requests 0)
               (invalid_configuration ''response payload overflow'' [])) (\<lambda>capacity.
     Inr (concat (map f_payload requests)))"

section \<open>Routes\<close>

definition route_empty ::
  "(bytes \<Rightarrow> u32) \<Rightarrow> frame list \<Rightarrow> bytes \<Rightarrow> u64 \<Rightarrow> opcode \<Rightarrow> network_error + frame list" where
  "route_empty crc requests uid seqn opc =
     (if list_ex (\<lambda>request. f_payload request \<noteq> []) requests
      then Inl (invalid_configuration ''{:?} cannot carry a payload'' [AOpcode opc])
      else traverse_r (\<lambda>rank. map_err Protocol (frame_new crc
             (response_header crc uid opc ElemNone seqn rank (length requests) 0) []))
           [0..<length requests])"

definition route_same_payload ::
  "(bytes \<Rightarrow> u32) \<Rightarrow> frame list \<Rightarrow> bytes \<Rightarrow> u64 \<Rightarrow> opcode \<Rightarrow> element_type \<Rightarrow> nat \<Rightarrow> bytes
     \<Rightarrow> network_error + frame list" where
  "route_same_payload crc requests uid seqn opc et cnt payload =
     traverse_r (\<lambda>rank. data_response crc requests uid seqn opc et rank cnt payload)
       [0..<length requests]"

definition route_root_payload ::
  "(bytes \<Rightarrow> u32) \<Rightarrow> frame list \<Rightarrow> bytes \<Rightarrow> u64 \<Rightarrow> opcode \<Rightarrow> element_type \<Rightarrow> nat \<Rightarrow> nat \<Rightarrow> bytes
     \<Rightarrow> network_error + frame list" where
  "route_root_payload crc requests uid seqn opc et root cnt payload =
     traverse_r (\<lambda>rank.
        if rank = root then data_response crc requests uid seqn opc et rank cnt payload
        else map_err Protocol (frame_new crc
               (response_header crc uid opc ElemNone seqn rank (length requests) 0) []))
       [0..<length requests]"

definition decode_counts_payload ::
  "frame \<Rightarrow> nat \<Rightarrow> nat \<Rightarrow> network_error + nat list \<times> bytes" where
  "decode_counts_payload f world_size element_bytes =
     (if fh_flags (f_header f) AND FLAG_COUNTS_PREFIX = 0
      then Inl (invalid_configuration ''all-to-all-v frame is missing its counts prefix'' [])
      else bind_r (ok_or (checked_mul 64 world_size 8)
                     (invalid_configuration ''all-to-all-v prefix size overflow'' [])) (\<lambda>prefix_bytes.
         if length (f_payload f) < prefix_bytes
         then Inl (invalid_configuration ''all-to-all-v counts prefix is truncated'' [])
         else bind_r (traverse_r (\<lambda>bs. ok_or (usize_try_from (from_le_bytes bs))
                         (invalid_configuration ''all-to-all-v count exceeds host usize'' []))
                        (chunks_exact 8 (take prefix_bytes (f_payload f)))) (\<lambda>counts.
              bind_r (ok_or (fold_o (\<lambda>cnt sum. checked_add 64 sum cnt) counts 0)
                        (invalid_configuration ''all-to-all-v count sum overflow'' [])) (\<lambda>tot.
              if (of_nat tot :: u64) \<noteq> fh_element_count (f_header f)
              then Inl (invalid_configuration ''all-to-all-v counts sum to {}, header declares {}''
                     [ANat tot, ANat (unat (fh_element_count (f_header f)))])
              else bind_r (ok_or (checked_mul 64 tot element_bytes)
                             (invalid_configuration ''all-to-all-v data size overflow'' []))
                     (\<lambda>expected_data.
                      let data = drop prefix_bytes (f_payload f)
                      in if length data \<noteq> expected_data
                         then Inl (invalid_configuration ''all-to-all-v data has {} bytes, expected {}''
                                [ANat (length data), ANat expected_data])
                         else Inr (counts, data))))))"

text \<open>The coordinator's own \<open>encode_counts\<close>, which differs from the client's in its error.\<close>

definition encode_counts_net :: "nat list \<Rightarrow> network_error + bytes" where
  "encode_counts_net counts =
     fold_r (\<lambda>cnt encoded.
        bind_r (ok_or (u64_try_from cnt)
                  (invalid_configuration ''all-to-all-v count exceeds protocol u64'' [])) (\<lambda>v.
        Inr (encoded @ u64_le v))) counts []"

abbreviation net_ok_or :: "'a option \<Rightarrow> string \<Rightarrow> network_error fault + 'a" where
  "net_ok_or x t \<equiv> ok_or x (Fault (invalid_configuration t []))"

definition all_to_all_v_shard ::
  "nat \<Rightarrow> nat \<Rightarrow> nat list \<times> bytes \<Rightarrow> network_error fault + bytes" where
  "all_to_all_v_shard element_bytes destination row =
     (case row of (counts, data) \<Rightarrow>
        bind_r (slice_f 0 destination counts) (\<lambda>before.
        bind_r (net_ok_or (fold_o (\<lambda>cnt tot. checked_add 64 tot cnt) before 0)
                  ''all-to-all-v source offset overflow'') (\<lambda>start_elements.
        bind_r (net_ok_or (checked_mul 64 start_elements element_bytes)
                  ''all-to-all-v byte offset overflow'') (\<lambda>start.
        bind_r (ok_or (if destination < length counts then Some (counts ! destination) else None)
                  (Panic ''index out of bounds'')) (\<lambda>cnt.
        bind_r (net_ok_or (checked_mul 64 cnt element_bytes)
                  ''all-to-all-v shard size overflow'') (\<lambda>bytes.
        slice_f start (start + bytes) data))))))"

definition all_to_all_v_response ::
  "(bytes \<Rightarrow> u32) \<Rightarrow> bytes \<Rightarrow> u64 \<Rightarrow> element_type \<Rightarrow> nat \<Rightarrow> nat \<Rightarrow> (nat list \<times> bytes) list \<Rightarrow> nat
     \<Rightarrow> network_error fault + frame" where
  "all_to_all_v_response crc uid seqn et element_bytes world_size rows destination =
     bind_r (traverse_r (\<lambda>(counts, _). ok_or (if destination < length counts
                                              then Some (counts ! destination) else None)
                                       (Panic ''index out of bounds'')) rows) (\<lambda>receive_counts.
     bind_r (net_ok_or (fold_o (\<lambda>cnt tot. checked_add 64 tot cnt) receive_counts 0)
               ''all-to-all-v receive count overflow'') (\<lambda>receive_total.
     bind_r (map_err Fault (encode_counts_net receive_counts)) (\<lambda>prefix.
     bind_r (net_ok_or (checked_mul 64 receive_total element_bytes)
               ''all-to-all-v response size overflow'') (\<lambda>_.
     bind_r (traverse_r (all_to_all_v_shard element_bytes destination) rows) (\<lambda>shards.
     let header = response_header crc uid AllToAllV et seqn destination world_size receive_total;
         header = header\<lparr> fh_flags := fh_flags header OR FLAG_COUNTS_PREFIX \<rparr>
     in map_err (\<lambda>e. Fault (Protocol e)) (frame_new crc header (prefix @ concat shards)))))))"

definition route_all_to_all_v ::
  "(bytes \<Rightarrow> u32) \<Rightarrow> frame list \<Rightarrow> bytes \<Rightarrow> u64 \<Rightarrow> element_type \<Rightarrow> nat
     \<Rightarrow> network_error fault + frame list" where
  "route_all_to_all_v crc requests uid seqn et element_bytes =
     (if et = ElemNone \<or> element_bytes = 0
      then Inl (Fault (invalid_configuration ''all-to-all-v requires a concrete element type'' []))
      else let world_size = length requests
           in bind_r (map_err Fault (traverse_r (\<lambda>request.
                        decode_counts_payload request world_size element_bytes) requests)) (\<lambda>rows.
              traverse_r (all_to_all_v_response crc uid seqn et element_bytes world_size rows)
                [0..<world_size]))"

text \<open>The \<open>for\<close> loops of the \<open>Scatter\<close> arm and of the \<open>ReduceScatter\<close> and \<open>AllToAll\<close> arms.\<close>

definition route_scatter ::
  "(bytes \<Rightarrow> u32) \<Rightarrow> frame list \<Rightarrow> bytes \<Rightarrow> u64 \<Rightarrow> opcode \<Rightarrow> element_type \<Rightarrow> nat \<Rightarrow> nat \<Rightarrow> nat
     \<Rightarrow> network_error fault + frame list" where
  "route_scatter crc requests uid seqn opc et root shard_count shard_bytes =
     traverse_r (\<lambda>rank.
        let start = rank * shard_bytes
        in bind_r (slice_f start (start + shard_bytes) (f_payload (requests ! root))) (\<lambda>shard.
           map_err Fault (data_response crc requests uid seqn opc et rank shard_count shard)))
       [0..<length requests]"

definition route_shards ::
  "(bytes \<Rightarrow> u32) \<Rightarrow> frame list \<Rightarrow> bytes \<Rightarrow> u64 \<Rightarrow> opcode \<Rightarrow> element_type \<Rightarrow> nat \<Rightarrow> nat
     \<Rightarrow> network_error fault + frame list" where
  "route_shards crc requests uid seqn opc et response_count shard_bytes =
     traverse_r (\<lambda>destination.
        bind_r (traverse_r (\<lambda>request.
                  let start = destination * shard_bytes
                  in slice_f start (start + shard_bytes) (f_payload request)) requests) (\<lambda>shards.
        map_err Fault (data_response crc requests uid seqn opc et destination response_count (concat shards))))
       [0..<length requests]"

text \<open>The first loop of \<open>validate_and_route\<close>: the checks of a request come before its submission,
  so an error leaves the earlier submissions in the agreement.\<close>

definition request_descriptor :: "frame \<Rightarrow> operation_descriptor" where
  "request_descriptor request =
     (let h = f_header request; variable = (fh_opcode h = AllToAllV)
      in with_layout_hash
           (descriptor_new (fh_opcode h) (fh_element_type h) (fh_root_rank h)
              (if variable then 0 else fh_element_count h))
           (if variable then 0 else fh_tag h))"

primrec agree_requests ::
  "bytes \<Rightarrow> u64 \<Rightarrow> nat \<Rightarrow> (nat \<times> frame) list \<Rightarrow> collective_agreement
     \<Rightarrow> (network_error + unit) \<times> collective_agreement" where
  "agree_requests uid seqn world_size [] a = (Inr (), a)"
| "agree_requests uid seqn world_size (x # xs) a =
     (let rank = fst x; h = f_header (snd x)
      in if fh_unique_id h \<noteq> uid then (Inl WrongSession, a)
         else if unat (fh_source_rank h) \<noteq> rank \<or> unat (fh_world_size h) \<noteq> world_size
         then (Inl (invalid_configuration ''connection rank {} submitted source rank {} and world size {}''
                 [ANat rank, ANat (unat (fh_source_rank h)), ANat (unat (fh_world_size h))]), a)
         else (case submit a rank seqn (request_descriptor (snd x)) of
                 (Inl e, a') \<Rightarrow> (Inl (Protocol e), a')
               | (Inr _, a') \<Rightarrow> agree_requests uid seqn world_size xs a'))"

text \<open>The \<open>match first.opcode\<close> of \<open>validate_and_route\<close>.\<close>

definition route_opcode ::
  "(bytes \<Rightarrow> u32) \<Rightarrow> bytes \<Rightarrow> u64 \<Rightarrow> frame list \<Rightarrow> frame_header \<Rightarrow> nat \<Rightarrow> nat \<Rightarrow> nat
     \<Rightarrow> network_error fault + frame list" where
  "route_opcode crc uid seqn requests first element_bytes cnt rank_payload_bytes =
     (let world_size = length requests;
          root = (if fh_root_rank first = ANY_RANK then None else Some (unat (fh_root_rank first)));
          opc = fh_opcode first; et = fh_element_type first
      in case opc of
        Barrier \<Rightarrow> map_err Fault (route_empty crc requests uid seqn Barrier)
      | SetTimeout \<Rightarrow>
          if et \<noteq> ElemNone \<or> fh_root_rank first \<noteq> ANY_RANK \<or> fh_tag first = 0
          then Inl (Fault (invalid_configuration
                 ''SET_TIMEOUT requires an empty control frame and non-zero millisecond tag'' []))
          else map_err Fault (route_empty crc requests uid seqn SetTimeout)
      | Broadcast \<Rightarrow> map_err Fault (
          bind_r (required_root root world_size) (\<lambda>root.
          bind_r (require_only_root_payload requests root rank_payload_bytes) (\<lambda>_.
          route_same_payload crc requests uid seqn opc et cnt (f_payload (requests ! root)))))
      | AllGather \<Rightarrow> map_err Fault (
          bind_r (require_all_payloads requests rank_payload_bytes) (\<lambda>_.
          bind_r (concatenate_payloads requests) (\<lambda>payload.
          bind_r (ok_or (checked_mul 64 cnt world_size)
                    (invalid_configuration ''all-gather count overflow'' [])) (\<lambda>tot.
          route_same_payload crc requests uid seqn opc et tot payload))))
      | Gather \<Rightarrow> map_err Fault (
          bind_r (required_root root world_size) (\<lambda>root.
          bind_r (require_all_payloads requests rank_payload_bytes) (\<lambda>_.
          bind_r (concatenate_payloads requests) (\<lambda>payload.
          bind_r (ok_or (checked_mul 64 cnt world_size)
                    (invalid_configuration ''rooted collective count overflow'' [])) (\<lambda>tot.
          route_root_payload crc requests uid seqn opc et root tot payload)))))
      | Reduce \<Rightarrow> map_err Fault (
          bind_r (required_root root world_size) (\<lambda>root.
          bind_r (require_all_payloads requests rank_payload_bytes) (\<lambda>_.
          bind_r (concatenate_payloads requests) (\<lambda>payload.
          bind_r (ok_or (checked_mul 64 cnt world_size)
                    (invalid_configuration ''rooted collective count overflow'' [])) (\<lambda>tot.
          route_root_payload crc requests uid seqn opc et root tot payload)))))
      | Scatter \<Rightarrow>
          bind_r (map_err Fault (required_root root world_size)) (\<lambda>root.
          bind_r (map_err Fault (require_only_root_payload requests root rank_payload_bytes)) (\<lambda>_.
          if cnt mod world_size \<noteq> 0
          then Inl (Fault (invalid_configuration
                 ''scatter total element count is not divisible by world size'' []))
          else route_scatter crc requests uid seqn opc et root (cnt div world_size)
                 (cnt div world_size * element_bytes)))
      | AllReduce \<Rightarrow> map_err Fault (
          bind_r (require_all_payloads requests rank_payload_bytes) (\<lambda>_.
          bind_r (concatenate_payloads requests) (\<lambda>payload.
          bind_r (ok_or (checked_mul 64 cnt world_size)
                    (invalid_configuration ''all-reduce count overflow'' [])) (\<lambda>tot.
          route_same_payload crc requests uid seqn opc et tot payload))))
      | ReduceScatter \<Rightarrow>
          bind_r (map_err Fault (require_all_payloads requests rank_payload_bytes)) (\<lambda>_.
          if cnt mod world_size \<noteq> 0
          then Inl (Fault (invalid_configuration ''reduce-scatter count is not divisible by world size'' []))
          else route_shards crc requests uid seqn opc et (cnt div world_size * world_size)
                 (cnt div world_size * element_bytes))
      | AllToAll \<Rightarrow>
          bind_r (map_err Fault (require_all_payloads requests rank_payload_bytes)) (\<lambda>_.
          if cnt mod world_size \<noteq> 0
          then Inl (Fault (invalid_configuration ''all-to-all count is not divisible by world size'' []))
          else route_shards crc requests uid seqn opc et cnt (cnt div world_size * element_bytes))
      | AllToAllV \<Rightarrow> route_all_to_all_v crc requests uid seqn et element_bytes
      | _ \<Rightarrow> Inl (Fault (invalid_configuration ''opcode {:?} is not a coordinator collective request''
                [AOpcode opc])))"

definition validate_and_route ::
  "(bytes \<Rightarrow> u32) \<Rightarrow> collective_agreement \<Rightarrow> bytes \<Rightarrow> u64 \<Rightarrow> frame list
     \<Rightarrow> (network_error fault + frame list) \<times> collective_agreement" where
  "validate_and_route crc a uid seqn requests =
     (case agree_requests uid seqn (length requests) (enumerate 0 requests) a of
        (Inl e, a') \<Rightarrow> (Inl (Fault e), a')
      | (Inr _, a') \<Rightarrow>
          (case requests of
             [] \<Rightarrow> Inl (Panic ''index out of bounds'')
           | request # _ \<Rightarrow>
               let first = f_header request; element_bytes = byte_width (fh_element_type first)
               in bind_r (net_ok_or (usize_try_from (fh_element_count first))
                            ''collective element count exceeds usize'') (\<lambda>cnt.
                  bind_r (net_ok_or (checked_mul 64 cnt element_bytes)
                            ''collective payload size overflow'') (\<lambda>rank_payload_bytes.
                  route_opcode crc uid seqn requests first element_bytes cnt rank_payload_bytes)), a'))"

section \<open>Lemmas\<close>

lemma frame_new_fields:
  assumes "frame_new crc h p = Inr f"
  shows "f_payload f = p" "fh_opcode (f_header f) = fh_opcode h"
    "fh_element_type (f_header f) = fh_element_type h" "fh_source_rank (f_header f) = fh_source_rank h"
    "fh_destination_rank (f_header f) = fh_destination_rank h"
    "fh_root_rank (f_header f) = fh_root_rank h" "fh_world_size (f_header f) = fh_world_size h"
    "fh_sequence (f_header f) = fh_sequence h" "fh_tag (f_header f) = fh_tag h"
    "fh_element_count (f_header f) = fh_element_count h" "fh_unique_id (f_header f) = fh_unique_id h"
  using assms by (auto simp: frame_new_def with_payload_def Let_def result_simps split: if_splits)

text \<open>A response that answers rank \<open>destination\<close> of a round.\<close>

definition response_for ::
  "(bytes \<Rightarrow> u32) \<Rightarrow> bytes \<Rightarrow> opcode \<Rightarrow> u64 \<Rightarrow> nat \<Rightarrow> nat \<Rightarrow> frame \<Rightarrow> bool" where
  "response_for crc uid opc seqn world_size destination f \<longleftrightarrow>
     frame_wf crc f \<and> fh_unique_id (f_header f) = uid \<and> fh_opcode (f_header f) = opc \<and>
     fh_sequence (f_header f) = seqn \<and> fh_source_rank (f_header f) = 0 \<and>
     fh_root_rank (f_header f) = ANY_RANK \<and> fh_world_size (f_header f) = of_nat world_size \<and>
     fh_destination_rank (f_header f) = of_nat destination"

lemma response_header_new:
  assumes "frame_new crc ((response_header crc uid opc et seqn destination w cnt)\<lparr> fh_flags := fl \<rparr>) p = Inr f"
    and "unique_id_ok uid"
  shows "response_for crc uid opc seqn w destination f \<and> f_payload f = p \<and>
     fh_element_count (f_header f) = of_nat cnt"
proof -
  let ?h = "(response_header crc uid opc et seqn destination w cnt)\<lparr> fh_flags := fl \<rparr>"
  have "unique_id_ok (fh_unique_id ?h)" using assms(2)
    by (simp add: response_header_def collective_header_def)
  with frame_new_wf[OF assms(1)] frame_new_fields[OF assms(1)] show ?thesis
    by (simp add: response_for_def response_header_def collective_header_def)
qed

lemma response_header_flags:
  "response_header crc uid opc et seqn destination w cnt =
   (response_header crc uid opc et seqn destination w cnt)\<lparr> fh_flags := 0 \<rparr>"
  by (simp add: response_header_def collective_header_def)

lemma response_new:
  assumes "frame_new crc (response_header crc uid opc et seqn destination w cnt) p = Inr f"
    and "unique_id_ok uid"
  shows "response_for crc uid opc seqn w destination f \<and> f_payload f = p"
  using response_header_new[where fl = 0, of crc uid opc et seqn destination w cnt p f] assms
    response_header_flags[of crc uid opc et seqn destination w cnt] by simp

lemma data_response_ok:
  assumes "data_response crc requests uid seqn opc et destination cnt p = Inr f" and "unique_id_ok uid"
  shows "response_for crc uid opc seqn (length requests) destination f \<and> f_payload f = p"
  using assms response_new by (auto simp: data_response_def)

text \<open>A list of responses, one per rank, whose payloads are given by \<open>spec\<close>.\<close>

definition responses_ok ::
  "(bytes \<Rightarrow> u32) \<Rightarrow> bytes \<Rightarrow> opcode \<Rightarrow> u64 \<Rightarrow> nat \<Rightarrow> (nat \<Rightarrow> bytes) \<Rightarrow> frame list \<Rightarrow> bool" where
  "responses_ok crc uid opc seqn world_size spec responses \<longleftrightarrow>
     length responses = world_size \<and>
     (\<forall>rank < world_size. response_for crc uid opc seqn world_size rank (responses ! rank) \<and>
        f_payload (responses ! rank) = spec rank)"

lemma traverse_responses:
  assumes "traverse_r g [0..<w] = Inr responses"
    and "\<And>rank f. rank < w \<Longrightarrow> g rank = Inr f \<Longrightarrow>
           response_for crc uid opc seqn w rank f \<and> f_payload f = spec rank"
  shows "responses_ok crc uid opc seqn w spec responses"
proof -
  have "g rank = Inr (responses ! rank)" if "rank < w" for rank
    using traverse_r_nth[OF assms(1), of rank] that by simp
  with assms(2) traverse_r_length[OF assms(1)] show ?thesis by (auto simp: responses_ok_def)
qed

lemma route_empty_ok:
  assumes "route_empty crc requests uid seqn opc = Inr responses" and "unique_id_ok uid"
  shows "responses_ok crc uid opc seqn (length requests) (\<lambda>_. []) responses"
    and "\<forall>request \<in> set requests. f_payload request = []"
  using assms response_new
  by (auto simp: route_empty_def list_ex_iff split: if_splits intro!: traverse_responses)

lemma route_same_payload_ok:
  assumes "route_same_payload crc requests uid seqn opc et cnt payload = Inr responses" and "unique_id_ok uid"
  shows "responses_ok crc uid opc seqn (length requests) (\<lambda>_. payload) responses"
  using assms unfolding route_same_payload_def by (auto intro!: traverse_responses dest: data_response_ok)

lemma route_root_payload_ok:
  assumes "route_root_payload crc requests uid seqn opc et root cnt payload = Inr responses" and "unique_id_ok uid"
  shows "responses_ok crc uid opc seqn (length requests) (\<lambda>rank. if rank = root then payload else []) responses"
  using assms unfolding route_root_payload_def
  by (auto intro!: traverse_responses dest: data_response_ok response_new split: if_splits)

lemma require_all_payloads_ok:
  "require_all_payloads requests n = Inr u \<longleftrightarrow> (\<forall>request \<in> set requests. length (f_payload request) = n)"
  using position_None[of "\<lambda>request. length (f_payload request) \<noteq> n" requests]
  by (cases "position (\<lambda>request. length (f_payload request) \<noteq> n) requests")
     (auto simp: require_all_payloads_def)

lemma require_only_root_payload_ok:
  "require_only_root_payload requests root n = Inr u \<longleftrightarrow>
     (\<forall>rank < length requests. length (f_payload (requests ! rank)) = (if rank = root then n else 0))"
proof -
  have "fold_r (\<lambda>(rank, request) _. let expected = (if rank = root then n else 0)
        in if length (f_payload request) \<noteq> expected then Inl (e rank request expected) else Inr ())
       (enumerate k requests) () = Inr u \<longleftrightarrow>
     (\<forall>i < length requests. length (f_payload (requests ! i)) = (if k + i = root then n else 0))"
    for k and e :: "nat \<Rightarrow> frame \<Rightarrow> nat \<Rightarrow> network_error"
    by (induction requests arbitrary: k) (simp_all add: Let_def All_less_Suc2)
  from this[of _ 0] show ?thesis unfolding require_only_root_payload_def by simp
qed

lemma concatenate_payloads_ok: "concatenate_payloads requests = Inr p \<Longrightarrow> p = concat (map f_payload requests)"
  by (auto simp: concatenate_payloads_def result_simps)

lemma required_root_ok: "required_root root w = Inr r \<longleftrightarrow> root = Some r \<and> r < w"
  by (auto simp: required_root_def split: option.splits)

lemma shard_bounds:
  assumes "rank < w" "length p = cnt * eb" "cnt mod w = 0"
  shows "slice_f (rank * (cnt div w * eb)) (rank * (cnt div w * eb) + cnt div w * eb) p =
     Inr (subslice (rank * (length p div w)) (Suc rank * (length p div w)) p)"
proof -
  from assms(3) obtain k where k: "cnt = w * k" by blast
  with assms(1) have c: "cnt div w = k" "length p = w * (k * eb)" using assms(2) by simp_all
  have "Suc rank * (k * eb) \<le> w * (k * eb)" using assms(1) by (intro mult_le_mono1) simp
  moreover have "length p div w = k * eb" using assms(1) c(2) by simp
  ultimately show ?thesis unfolding c(1) using c(2) by (simp add: slice_f_def add.commute)
qed

lemma route_scatter_ok:
  assumes "length (f_payload (requests ! root)) = cnt * eb" "cnt mod length requests = 0"
    and "unique_id_ok uid"
    and "route_scatter crc requests uid seqn opc et root sc (cnt div length requests * eb) = Inr responses"
  shows "responses_ok crc uid opc seqn (length requests)
     (\<lambda>rank. let p = f_payload (requests ! root); shard = length p div length requests
             in subslice (rank * shard) (Suc rank * shard) p) responses"
  using assms(4) unfolding route_scatter_def Let_def
  by (rule traverse_responses)
     (auto simp only: shard_bounds[OF _ assms(1,2)] bind_r_simps map_err_eq_Inr
       dest: data_response_ok[OF _ assms(3)])

lemma traverse_slices:
  assumes "\<forall>request \<in> set requests. length (f_payload request) = cnt * eb" "cnt mod w = 0" "rank < w"
  shows "traverse_r (\<lambda>request. let start = rank * (cnt div w * eb)
           in slice_f start (start + cnt div w * eb) (f_payload request)) requests =
     Inr (map (\<lambda>request. let p = f_payload request; shard = length p div w
                        in subslice (rank * shard) (Suc rank * shard) p) requests)"
  unfolding Let_def by (intro traverse_r_all_ok shard_bounds assms bspec[OF assms(1)])

lemma route_shards_ok:
  assumes "\<forall>request \<in> set requests. length (f_payload request) = cnt * eb" "cnt mod length requests = 0"
    and "unique_id_ok uid"
    and "route_shards crc requests uid seqn opc et rc (cnt div length requests * eb) = Inr responses"
  shows "responses_ok crc uid opc seqn (length requests)
     (\<lambda>rank. concat (map (\<lambda>request. let p = f_payload request; shard = length p div length requests
             in subslice (rank * shard) (Suc rank * shard) p) requests)) responses"
  using assms(4) unfolding route_shards_def
  by (rule traverse_responses)
     (auto simp only: traverse_slices[OF assms(1,2)] bind_r_simps map_err_eq_Inr
       dest: data_response_ok[OF _ assms(3)])

lemma no_panic_simps [simp]:
  "map_err Fault r \<noteq> Inl (Panic m)" "map_err (\<lambda>e. Fault (g e)) r' \<noteq> Inl (Panic m)"
  "net_ok_or x t \<noteq> Inl (Panic m)"
  by (auto simp: map_err_eq_Inl)

lemma traverse_no_panic:
  "(\<And>x. x \<in> set xs \<Longrightarrow> f x \<noteq> Inl (Panic m)) \<Longrightarrow> traverse_r f xs \<noteq> Inl (Panic m)"
  by (induction xs) (auto simp: bind_r_eq_Inl)

lemma route_scatter_no_panic:
  assumes "length (f_payload (requests ! root)) = cnt * eb" "cnt mod length requests = 0"
  shows "route_scatter crc requests uid seqn opc et root sc (cnt div length requests * eb) \<noteq> Inl (Panic m)"
  unfolding route_scatter_def Let_def
  by (rule traverse_no_panic) (simp add: shard_bounds[OF _ assms])

lemma route_shards_no_panic:
  assumes "\<forall>request \<in> set requests. length (f_payload request) = cnt * eb" "cnt mod length requests = 0"
  shows "route_shards crc requests uid seqn opc et rc (cnt div length requests * eb) \<noteq> Inl (Panic m)"
  unfolding route_shards_def
  by (rule traverse_no_panic) (simp add: traverse_slices[OF assms])

section \<open>All-to-all-v\<close>

lemma decode_counts_payload_eq:
  assumes "length (f_payload r) < 2 ^ 64"
  shows "decode_counts_payload r w eb = Inr (counts, data) \<longleftrightarrow>
    fh_flags (f_header r) AND FLAG_COUNTS_PREFIX \<noteq> 0 \<and> 8 * w \<le> length (f_payload r) \<and>
    counts = counts_of_bytes (take (8 * w) (f_payload r)) \<and> data = drop (8 * w) (f_payload r) \<and>
    sum_list counts = unat (fh_element_count (f_header r)) \<and> length data = sum_list counts * eb"
proof -
  have "decode_counts_payload r w eb = Inr x \<longleftrightarrow> decode_counts_response r w eb = Inr x" for x
    unfolding decode_counts_payload_def decode_counts_response_def traverse_counts Let_def
    by (simp only: bind_r_eq_Inr ok_or_eq_Inr if_split[of "\<lambda>x. x = Inr _"] sum.distinct sum.inject simp_thms bind_r_simps)
  then show ?thesis by (simp only: decode_counts_response_eq[OF assms])
qed

text \<open>The shard that a row holds for a destination.\<close>

definition row_shard :: "nat \<Rightarrow> nat \<Rightarrow> nat list \<times> bytes \<Rightarrow> bytes" where
  "row_shard eb destination row =
     subslice (sum_list (take destination (fst row)) * eb)
              (sum_list (take (Suc destination) (fst row)) * eb) (snd row)"

definition row_ok :: "nat \<Rightarrow> nat \<Rightarrow> nat list \<times> bytes \<Rightarrow> bool" where
  "row_ok eb w row \<longleftrightarrow> length (fst row) = w \<and> length (snd row) = sum_list (fst row) * eb \<and>
     sum_list (fst row) < 2 ^ 64 \<and> length (snd row) < 2 ^ 64"

lemma sum_list_take_le: "sum_list (take n xs) \<le> sum_list (xs :: nat list)"
  by (metis append_take_drop_id le_add1 sum_list_append)

lemma all_to_all_v_shard_ok:
  assumes row: "row_ok eb w row" and d: "destination < w"
  shows "all_to_all_v_shard eb destination row = Inr (row_shard eb destination row)"
proof -
  obtain counts data where r: "row = (counts, data)" by fastforce
  from row r have len: "length counts = w" "length data = sum_list counts * eb"
    and small: "sum_list counts < 2 ^ 64" "length data < 2 ^ 64" by (auto simp: row_ok_def)
  let ?a = "sum_list (take destination counts)"
  have next_sum: "sum_list (take (Suc destination) counts) = ?a + counts ! destination"
    using d len(1) by (simp add: take_Suc_conv_app_nth)
  have le: "?a + counts ! destination \<le> sum_list counts"
    using sum_list_take_le[of "Suc destination" counts] next_sum by simp
  then have ble: "(?a + counts ! destination) * eb \<le> length data" unfolding len(2) by (rule mult_le_mono1)
  have "?a < 2 ^ 64" using le small(1) by (meson add_leE le_less_trans)
  moreover have "?a * eb < 2 ^ 64" "counts ! destination * eb < 2 ^ 64"
    using ble small(2) by (auto simp: add_mult_distrib intro: le_less_trans)
  ultimately show ?thesis
    using ble d len(1) unfolding r row_shard_def all_to_all_v_shard_def
    by (simp add: slice_f_def subslice_def[of 0] fold_o_checked_add checked_mul_def next_sum add_mult_distrib
        del: power_numeral take_Suc)
qed

definition request_row :: "nat \<Rightarrow> frame \<Rightarrow> nat list \<times> bytes" where
  "request_row w request =
     (counts_of_bytes (take (8 * w) (f_payload request)), drop (8 * w) (f_payload request))"

lemma encode_counts_net_ok: "encode_counts_net counts = Inr p \<Longrightarrow> p = bytes_of_counts counts"
  unfolding encode_counts_net_def encode_counts_acc by (auto simp: bytes_of_counts_def split: if_splits)

lemma receive_counts_ok:
  assumes "list_all (row_ok eb w) rows" "destination < w"
  shows "traverse_r (\<lambda>(counts, _). ok_or (if destination < length counts then Some (counts ! destination) else None) e) rows
    = Inr (map (\<lambda>row. fst row ! destination) rows)"
  using assms by (intro traverse_r_all_ok) (auto simp: list_all_iff row_ok_def)

lemma all_to_all_v_shards:
  assumes "list_all (row_ok eb w) rows" "destination < w"
  shows "traverse_r (all_to_all_v_shard eb destination) rows = Inr (map (row_shard eb destination) rows)"
  using assms by (intro traverse_r_all_ok all_to_all_v_shard_ok) (auto simp: list_all_iff)

lemma all_to_all_v_response_ok:
  assumes "list_all (row_ok eb w) rows" "destination < w" "unique_id_ok uid"
    and "all_to_all_v_response crc uid seqn et eb w rows destination = Inr f"
  shows "response_for crc uid AllToAllV seqn w destination f \<and>
     f_payload f = bytes_of_counts (map (\<lambda>row. fst row ! destination) rows)
                   @ concat (map (row_shard eb destination) rows)"
  using assms(4) response_header_new[OF _ assms(3)] encode_counts_net_ok
  unfolding all_to_all_v_response_def receive_counts_ok[OF assms(1,2)] all_to_all_v_shards[OF assms(1,2)]
  by (fastforce simp: bind_r_eq_Inr Let_def)

lemma all_to_all_v_response_no_panic:
  assumes "list_all (row_ok eb w) rows" "destination < w"
  shows "all_to_all_v_response crc uid seqn et eb w rows destination \<noteq> Inl (Panic m)"
  unfolding all_to_all_v_response_def receive_counts_ok[OF assms] all_to_all_v_shards[OF assms]
  by (simp add: bind_r_eq_Inl Let_def)

lemma decoded_rows:
  assumes "\<forall>request \<in> set requests. length (f_payload request) < 2 ^ 64"
    and "traverse_r (\<lambda>request. decode_counts_payload request w eb) requests = Inr rows"
  shows "rows = map (request_row w) requests" "list_all (row_ok eb w) rows"
proof -
  have dec: "y = request_row w x \<and> row_ok eb w y"
    if "x \<in> set requests" "decode_counts_payload x w eb = Inr y" for x y
  proof -
    obtain counts data where y: "y = (counts, data)" by fastforce
    from assms(1) that(1) have len: "length (f_payload x) < 2 ^ 64" by blast
    have "unat (fh_element_count (f_header x)) < 2 ^ 64"
      using unsigned_less[of "fh_element_count (f_header x)"] by simp
    moreover have "sum_list counts = unat (fh_element_count (f_header x))"
      using that(2) unfolding y decode_counts_payload_eq[OF len] by blast
    ultimately have "sum_list counts < 2 ^ 64" by (simp only:)
    then show ?thesis
      using that(2) len unfolding y decode_counts_payload_eq[OF len]
      by (auto simp: request_row_def row_ok_def length_counts_of_bytes min_def)
  qed
  have "length rows = length requests" using assms(2) by (rule traverse_r_length)
  moreover have "rows ! i = request_row w (requests ! i) \<and> row_ok eb w (rows ! i)" if "i < length requests" for i
    using dec[OF nth_mem[OF that] traverse_r_nth[OF assms(2) that]] .
  ultimately show "rows = map (request_row w) requests" "list_all (row_ok eb w) rows"
    by (metis length_map nth_equalityI nth_map, metis list_all_length)
qed

lemma route_all_to_all_v_ok:
  assumes "\<forall>request \<in> set requests. length (f_payload request) < 2 ^ 64" "unique_id_ok uid"
    and "route_all_to_all_v crc requests uid seqn et eb = Inr responses"
  shows "responses_ok crc uid AllToAllV seqn (length requests)
     (\<lambda>rank. let rows = map (request_row (length requests)) requests
             in bytes_of_counts (map (\<lambda>row. fst row ! rank) rows) @ concat (map (row_shard eb rank) rows))
     responses"
proof -
  from assms(3) obtain rows where rows:
    "traverse_r (\<lambda>request. decode_counts_payload request (length requests) eb) requests = Inr rows"
    "traverse_r (all_to_all_v_response crc uid seqn et eb (length requests) rows) [0..<length requests] = Inr responses"
    by (auto simp: route_all_to_all_v_def Let_def bind_r_eq_Inr split: if_splits)
  note D = decoded_rows[OF assms(1) rows(1)]
  from rows(2) show ?thesis
    unfolding Let_def D(1)[symmetric]
    by (rule traverse_responses) (use all_to_all_v_response_ok[OF D(2) _ assms(2)] in blast)
qed

lemma route_all_to_all_v_no_panic:
  assumes "\<forall>request \<in> set requests. length (f_payload request) < 2 ^ 64"
  shows "route_all_to_all_v crc requests uid seqn et eb \<noteq> Inl (Panic m)"
  unfolding route_all_to_all_v_def Let_def
  using decoded_rows[OF assms] all_to_all_v_response_no_panic
  by (auto simp: bind_r_eq_Inl split: if_splits elim!: traverse_no_panic[THEN notE, rotated])

section \<open>One round\<close>

lemma agree_requests_ok:
  assumes "agree_requests uid seqn w (enumerate k requests) a = (Inr (), a')"
  shows "submit_ranks submit seqn (enumerate k (map request_descriptor requests)) a = (Inr (), a')"
    and "i < length requests \<Longrightarrow> fh_unique_id (f_header (requests ! i)) = uid \<and>
       unat (fh_source_rank (f_header (requests ! i))) = k + i \<and>
       unat (fh_world_size (f_header (requests ! i))) = w"
  using assms
proof (induction requests arbitrary: k a i)
  case (Cons x xs)
  { case 1 then show ?case
      using Cons.IH(1)[of "Suc k"] by (auto simp: Let_def split: if_splits prod.splits sum.splits) }
  { case 2 then show ?case
      using Cons.IH(2)[of "i - 1" "Suc k"]
      by (cases i) (auto simp: Let_def split: if_splits prod.splits sum.splits) }
qed simp_all

text \<open>What each collective delivers to each rank, in terms of the payloads alone.\<close>

definition route_spec :: "opcode \<Rightarrow> nat \<Rightarrow> nat \<Rightarrow> bytes list \<Rightarrow> nat \<Rightarrow> bytes" where
  "route_spec opc root element_bytes payloads rank =
     (let w = length payloads;
          shard = (\<lambda>p. subslice (rank * (length p div w)) (Suc rank * (length p div w)) p);
          rows = map (\<lambda>p. (counts_of_bytes (take (8 * w) p), drop (8 * w) p)) payloads
      in case opc of
        Broadcast \<Rightarrow> payloads ! root
      | AllGather \<Rightarrow> concat payloads
      | AllReduce \<Rightarrow> concat payloads
      | Gather \<Rightarrow> if rank = root then concat payloads else []
      | Reduce \<Rightarrow> if rank = root then concat payloads else []
      | Scatter \<Rightarrow> shard (payloads ! root)
      | ReduceScatter \<Rightarrow> concat (map shard payloads)
      | AllToAll \<Rightarrow> concat (map shard payloads)
      | AllToAllV \<Rightarrow> bytes_of_counts (map (\<lambda>row. fst row ! rank) rows)
                      @ concat (map (row_shard element_bytes rank) rows)
      | _ \<Rightarrow> [])"

lemma route_spec_shards:
  assumes "opc = ReduceScatter \<or> opc = AllToAll"
  shows "route_spec opc root eb (map f_payload requests) =
     (\<lambda>rank. concat (map (\<lambda>request. let p = f_payload request; shard = length p div length requests
             in subslice (rank * shard) (Suc rank * shard) p) requests))"
  using assms by (auto simp: route_spec_def Let_def comp_def)

lemma route_opcode_ok:
  assumes ok: "route_opcode crc uid seqn requests h eb cnt (cnt * eb) = Inr responses"
    and uid: "unique_id_ok uid"
    and small: "\<forall>request \<in> set requests. length (f_payload request) < 2 ^ 64"
  shows "responses_ok crc uid (fh_opcode h) seqn (length requests)
     (route_spec (fh_opcode h) (unat (fh_root_rank h)) eb (map f_payload requests)) responses"
proof -
  have root: "root = unat (fh_root_rank h)"
    if "required_root (if fh_root_rank h = ANY_RANK then None else Some (unat (fh_root_rank h))) w = Inr root"
    for root w using that by (auto simp: required_root_ok split: if_splits)
  have root_len: "length (f_payload (requests ! r)) = cnt * eb"
    if "require_only_root_payload requests r (cnt * eb) = Inr u" "required_root q (length requests) = Inr r" for r u q
    using that by (auto simp: required_root_ok require_only_root_payload_ok)
  have rows: "map (request_row (length requests)) requests =
      map (\<lambda>p. (counts_of_bytes (take (8 * length requests) p), drop (8 * length requests) p)) (map f_payload requests)"
    by (simp add: request_row_def)
  note routes = route_empty_ok(1)[OF _ uid] route_same_payload_ok[OF _ uid] route_root_payload_ok[OF _ uid]
  show ?thesis
  proof (cases "fh_opcode h")
    case Scatter
    with ok obtain r where r: "required_root (if fh_root_rank h = ANY_RANK then None else Some (unat (fh_root_rank h))) (length requests) = Inr r"
      "require_only_root_payload requests r (cnt * eb) = Inr ()" "cnt mod length requests = 0"
      "route_scatter crc requests uid seqn Scatter (fh_element_type h) r (cnt div length requests)
         (cnt div length requests * eb) = Inr responses"
      by (auto simp: route_opcode_def Let_def bind_r_eq_Inr split: if_splits)
    from route_scatter_ok[OF root_len[OF r(2,1)] r(3) uid r(4)] r(1)
    show ?thesis
      by (simp add: Scatter responses_ok_def route_spec_def Let_def root[OF r(1), symmetric] required_root_ok)
  next
    case AllToAllV
    with ok have "route_all_to_all_v crc requests uid seqn (fh_element_type h) eb = Inr responses"
      by (simp add: route_opcode_def)
    from route_all_to_all_v_ok[OF small uid this] show ?thesis
      by (simp add: AllToAllV responses_ok_def route_spec_def Let_def rows)
  next
    case ReduceScatter
    with ok obtain rc where r: "\<forall>request \<in> set requests. length (f_payload request) = cnt * eb"
      "cnt mod length requests = 0"
      "route_shards crc requests uid seqn ReduceScatter (fh_element_type h) rc
         (cnt div length requests * eb) = Inr responses"
      by (auto simp: route_opcode_def Let_def bind_r_eq_Inr require_all_payloads_ok split: if_splits)
    from route_shards_ok[OF r(1,2) uid r(3)] show ?thesis
      by (simp add: ReduceScatter route_spec_shards)
  next
    case AllToAll
    with ok obtain rc where r: "\<forall>request \<in> set requests. length (f_payload request) = cnt * eb"
      "cnt mod length requests = 0"
      "route_shards crc requests uid seqn AllToAll (fh_element_type h) rc
         (cnt div length requests * eb) = Inr responses"
      by (auto simp: route_opcode_def Let_def bind_r_eq_Inr require_all_payloads_ok split: if_splits)
    from route_shards_ok[OF r(1,2) uid r(3)] show ?thesis
      by (simp add: AllToAll route_spec_shards)
  qed (use ok in \<open>auto simp: route_opcode_def Let_def bind_r_eq_Inr required_root_ok
        split: if_splits dest!: concatenate_payloads_ok routes\<close>,
       auto simp: responses_ok_def route_spec_def Let_def)
qed

lemma route_opcode_no_panic:
  assumes "\<forall>request \<in> set requests. length (f_payload request) < 2 ^ 64"
  shows "route_opcode crc uid seqn requests h eb cnt (cnt * eb) \<noteq> Inl (Panic m)"
proof -
  have root_len: "length (f_payload (requests ! r)) = cnt * eb"
    if "require_only_root_payload requests r (cnt * eb) = Inr u" "required_root q (length requests) = Inr r" for r u q
    using that by (auto simp: required_root_ok require_only_root_payload_ok)
  note arms = route_scatter_no_panic[of requests _ cnt eb] route_shards_no_panic[of requests cnt eb]
    route_all_to_all_v_no_panic[OF assms]
  show ?thesis
    by (cases "fh_opcode h")
       (auto simp: route_opcode_def Let_def bind_r_eq_Inl bind_r_eq_Inr map_err_eq_Inl require_all_payloads_ok
          dest: root_len arms[THEN notE, rotated -1])
qed

lemma validate_and_route_Inr:
  assumes "validate_and_route crc a uid seqn requests = (Inr responses, a')"
  obtains request rest where "requests = request # rest"
    "agree_requests uid seqn (length requests) (enumerate 0 requests) a = (Inr (), a')"
    "route_opcode crc uid seqn requests (f_header request) (byte_width (fh_element_type (f_header request)))
       (unat (fh_element_count (f_header request)))
       (unat (fh_element_count (f_header request)) * byte_width (fh_element_type (f_header request)))
       = Inr responses"
proof -
  from assms obtain u where ag:
    "agree_requests uid seqn (length requests) (enumerate 0 requests) a = (Inr u, a')"
    by (auto simp: validate_and_route_def split: prod.splits sum.splits)
  with assms show ?thesis
    by (cases requests)
       (auto simp: validate_and_route_def Let_def bind_r_eq_Inr checked_mul_Some intro: that)
qed

lemma round_agreement:
  assumes inv: "agreement_inv a" "voted_ranks a = {}" "length requests = ca_world_size a"
      "seqn = ca_next_sequence a" "unat seqn + 1 < 2 ^ 64"
    and ag: "agree_requests uid seqn (length requests) (enumerate 0 requests) a = (Inr (), a')"
  shows "agreement_inv a'" "ca_world_size a' = ca_world_size a" "ca_next_sequence a' = seqn + 1"
    "voted_ranks a' = {}" "\<exists>d. \<forall>request \<in> set requests. request_descriptor request = d"
proof -
  note sub = agree_requests_ok(1)[OF ag]
  have len: "0 + length (map request_descriptor requests) = ca_world_size a"
    and v: "voted_ranks a = {..<0}" using inv by simp_all
  from ca.submit_ranks_round[OF inv(1,4) v len inv(5)] sub
  show "agreement_inv a'" "ca_world_size a' = ca_world_size a" "ca_next_sequence a' = seqn + 1"
    "voted_ranks a' = {}" "\<exists>d. \<forall>request \<in> set requests. request_descriptor request = d"
    by (auto simp: Let_def)
qed

lemma agree_requests_submit:
  assumes "\<forall>i < length requests. fh_unique_id (f_header (requests ! i)) = uid \<and>
       unat (fh_source_rank (f_header (requests ! i))) = k + i \<and>
       unat (fh_world_size (f_header (requests ! i))) = w"
  shows "agree_requests uid seqn w (enumerate k requests) a =
     (let s = submit_ranks submit seqn (enumerate k (map request_descriptor requests)) a
      in (map_err Protocol (fst s), snd s))"
  using assms
proof (induction requests arbitrary: k a)
  case (Cons x xs)
  from Cons.prems have x: "fh_unique_id (f_header x) = uid" "unat (fh_source_rank (f_header x)) = k"
    "unat (fh_world_size (f_header x)) = w" by (auto simp: All_less_Suc2)
  have "agree_requests uid seqn w (enumerate (Suc k) xs) b =
     (let s = submit_ranks submit seqn (enumerate (Suc k) (map request_descriptor xs)) b
      in (map_err Protocol (fst s), snd s))" for b
    using Cons.prems by (intro Cons.IH) (auto simp: All_less_Suc2)
  with x show ?case by (auto simp: Let_def split: prod.splits sum.splits)
qed simp

lemma data_response_succeeds:
  assumes "length requests < 2 ^ 32" "destination < length requests" "p \<noteq> []" "length p \<le> 2 ^ 30"
    and "et \<noteq> ElemNone" "length p = cnt * byte_width et" "opc \<noteq> AllToAllV"
  shows "\<exists>f. data_response crc requests uid seqn opc et destination cnt p = Inr f"
proof -
  have bw: "0 < byte_width et" using assms(5) byte_width_pos_iff by blast
  then have "cnt \<le> length p" using assms(6) by simp
  with assms(4) have c: "unat (of_nat cnt :: u64) = cnt" "unat (of_nat (length p) :: u64) = length p"
    by (simp_all add: unat_of_nat take_bit_nat_eq_self)
  have w: "unat (of_nat (length requests) :: u32) = length requests" "unat (of_nat destination :: u32) = destination"
    using assms(1,2) by (simp_all add: unat_of_nat take_bit_nat_eq_self)
  have ne: "(of_nat (length p) :: u64) \<noteq> 0" using c(2) assms(3) by (metis length_0_conv unat_0)
  let ?h = "(response_header crc uid opc et seqn destination (length requests) cnt)
     \<lparr> fh_flags := fh_flags (response_header crc uid opc et seqn destination (length requests) cnt) OR FLAG_PAYLOAD,
       fh_payload_bytes := of_nat (length p), fh_payload_checksum := crc p \<rparr>"
  have "header_wf ?h"
    unfolding header_wf_def response_header_def collective_header_def
    using assms(2,4-7) c w ne by (auto simp: word_less_nat_alt FLAG_PAYLOAD_def)
  then have "validate crc ?h None = Inr ()" by (simp add: validate_ok_iff)
  then show ?thesis
    using assms(3,4) by (simp add: data_response_def frame_new_def with_payload_def MAX_FRAME_PAYLOAD_BYTES_def)
qed

lemma length_concat_const: "(\<And>x. x \<in> set xs \<Longrightarrow> length (f x) = n) \<Longrightarrow> length (concat (map f xs)) = length xs * n"
  by (induction xs) simp_all

lemma gathered_round_succeeds:
  assumes inv: "agreement_inv a" "voted_ranks a = {}" "length requests = ca_world_size a"
      "seqn = ca_next_sequence a" "unat seqn + 1 < 2 ^ 64"
    and w: "requests \<noteq> []" "length requests < 2 ^ 32"
    and ranks: "\<forall>rank < length requests. fh_unique_id (f_header (requests ! rank)) = uid \<and>
        unat (fh_source_rank (f_header (requests ! rank))) = rank \<and>
        unat (fh_world_size (f_header (requests ! rank))) = length requests"
    and same: "\<forall>request \<in> set requests. fh_opcode (f_header request) = opc \<and> fh_element_type (f_header request) = et \<and>
        fh_root_rank (f_header request) = root \<and> fh_tag (f_header request) = tag \<and>
        unat (fh_element_count (f_header request)) = cnt \<and> length (f_payload request) = cnt * byte_width et"
    and op: "opc = AllGather \<or> opc = AllReduce" "et \<noteq> ElemNone" "0 < cnt"
    and fits: "length requests * (cnt * byte_width et) \<le> 2 ^ 30"
  shows "\<exists>responses a'. validate_and_route crc a uid seqn requests = (Inr responses, a')"
proof -
  let ?d = "request_descriptor (hd requests)"
  have d: "request_descriptor x = ?d" if "x \<in> set requests" for x
  proof -
    have "fh_element_count (f_header y) = of_nat cnt" if "y \<in> set requests" for y
    proof -
      have "of_nat (unat (fh_element_count (f_header y))) = (of_nat cnt :: u64)" using same that by simp
      then show ?thesis by simp
    qed
    with that hd_in_set[OF w(1)] same show ?thesis by (simp add: request_descriptor_def Let_def)
  qed
  have len: "0 + length (map request_descriptor requests) = ca_world_size a"
    and v: "voted_ranks a = {..<0}" and no: "agreed_descriptor a = None"
    using inv ca.agreed_voted[OF inv(1)] by simp_all
  define S where "S = submit_ranks submit seqn (enumerate 0 (map request_descriptor requests)) a"
  have "\<forall>x \<in> set (map request_descriptor requests). x = ?d" using d by auto
  with ca.submit_ranks_round[OF inv(1,4) v len inv(5)] no have S: "fst S = Inr ()"
    unfolding S_def by blast
  have "agree_requests uid seqn (length requests) (enumerate 0 requests) a = (map_err Protocol (fst S), snd S)"
    using agree_requests_submit[of requests uid 0 "length requests" seqn a] ranks
    unfolding S_def Let_def by simp
  then have ag: "agree_requests uid seqn (length requests) (enumerate 0 requests) a = (Inr (), snd S)"
    by (simp add: S)
  obtain request rest where r: "requests = request # rest" using w(1) by (cases requests) auto
  have bw: "0 < byte_width et" using op(2) byte_width_pos_iff by blast
  let ?p = "concat (map f_payload requests)"
  have plen: "length ?p = length requests * (cnt * byte_width et)"
    by (rule length_concat_const) (use same in blast)
  have p: "?p \<noteq> []" using plen w(1) op(3) bw by (metis length_0_conv mult_is_0 not_gr_zero)
  have nw: "cnt * byte_width et \<le> length requests * (cnt * byte_width et)" using w(1) by (cases requests) simp_all
  have cw: "cnt * length requests \<le> length requests * (cnt * byte_width et)" using bw by simp
  have sums: "fold_o (\<lambda>request tot. checked_add 64 tot (length (f_payload request))) requests 0 = Some (length ?p)"
  proof -
    have "fold_o (\<lambda>request tot. checked_add 64 tot (length (f_payload request))) rs k =
        fold_o (\<lambda>cnt sum. checked_add 64 sum cnt) (map (\<lambda>r. length (f_payload r)) rs) k" for rs :: "frame list" and k
      by (induction rs arbitrary: k) (simp_all split: option.split)
    then show ?thesis using fits plen by (simp add: fold_o_checked_add length_concat comp_def)
  qed
  have resp: "\<exists>f. data_response crc requests uid seqn opc et rank (cnt * length requests) ?p = Inr f"
    if "rank < length requests" for rank
    using w(2) that p op plen fits by (intro data_response_succeeds) auto
  then have "is_ok (route_same_payload crc requests uid seqn opc et (cnt * length requests) ?p)"
    unfolding route_same_payload_def traverse_r_is_ok by (auto simp: is_ok_iff)
  then obtain responses where responses:
    "route_same_payload crc requests uid seqn opc et (cnt * length requests) ?p = Inr responses"
    by (auto simp: is_ok_iff)
  have first: "fh_opcode (f_header request) = opc" "fh_element_type (f_header request) = et"
    "unat (fh_element_count (f_header request)) = cnt" using same r by auto
  have lens: "require_all_payloads requests (cnt * byte_width et) = Inr ()"
    using same by (simp add: require_all_payloads_ok)
  have small: "cnt * byte_width et < 2 ^ 64" "cnt * length requests < 2 ^ 64"
    by (rule le_less_trans[OF order_trans[OF nw fits]], simp, rule le_less_trans[OF order_trans[OF cw fits]], simp)
  have "route_opcode crc uid seqn requests (f_header request) (byte_width et) cnt (cnt * byte_width et) = Inr responses"
    unfolding route_opcode_def Let_def first
    using op(1) lens responses sums small(2) by (auto simp: concatenate_payloads_def checked_mul_def)
  then show ?thesis
    using ag small(1) by (simp add: validate_and_route_def r[symmetric] first checked_mul_def Let_def)
       (simp add: r first checked_mul_def)
qed

lemma frame_wf_payload_small: "frame_wf crc f \<Longrightarrow> length (f_payload f) < 2 ^ 64"
proof -
  assume "frame_wf crc f"
  then have "length (f_payload f) \<le> 2 ^ 30" using header_wf_payload_le by (auto simp: frame_wf_def)
  then show ?thesis by (rule le_less_trans) simp
qed

section \<open>Properties of a round\<close>

text \<open>What a successful round answers and where it leaves the agreement.\<close>

lemma round_answers:
  assumes "agreement_inv a" "voted_ranks a = {}" "length requests = ca_world_size a"
    "seqn = ca_next_sequence a" "unat seqn + 1 < 2 ^ 64" "unique_id_ok uid"
    "\<forall>request \<in> set requests. frame_wf crc request"
    "validate_and_route crc a uid seqn requests = (Inr responses, a')"
  defines "h \<equiv> f_header (hd requests)"
  shows "responses_ok crc uid (fh_opcode h) seqn (length requests)
      (route_spec (fh_opcode h) (unat (fh_root_rank h)) (byte_width (fh_element_type h)) (map f_payload requests)) responses"
    "agree_requests uid seqn (length requests) (enumerate 0 requests) a = (Inr (), a')"
proof -
  have small: "\<forall>request \<in> set requests. length (f_payload request) < 2 ^ 64"
    using assms(7) frame_wf_payload_small by blast
  from assms(8) obtain request rest where r: "requests = request # rest"
    "agree_requests uid seqn (length requests) (enumerate 0 requests) a = (Inr (), a')"
    "route_opcode crc uid seqn requests (f_header request) (byte_width (fh_element_type (f_header request)))
       (unat (fh_element_count (f_header request)))
       (unat (fh_element_count (f_header request)) * byte_width (fh_element_type (f_header request)))
       = Inr responses" by (rule validate_and_route_Inr)
  show "agree_requests uid seqn (length requests) (enumerate 0 requests) a = (Inr (), a')" by (rule r(2))
  have "h = f_header request" using r(1) by (simp add: h_def)
  with route_opcode_ok[OF r(3) assms(6) small] show "responses_ok crc uid (fh_opcode h) seqn (length requests)
      (route_spec (fh_opcode h) (unat (fh_root_rank h)) (byte_width (fh_element_type h)) (map f_payload requests)) responses" by simp
qed

text \<open>C7. Functional correctness of the coordinator: when a round succeeds, every rank receives one
  well-formed response of the agreed opcode and sequence, addressed to it, whose payload is what the
  collective promises in terms of the rank-ordered payloads; all requests carried one descriptor, the
  request of rank \<open>r\<close> came from source rank \<open>r\<close> of this session, and the agreement has advanced by
  exactly one sequence number with an empty round.\<close>

theorem coordinator_round_semantics:
  assumes "agreement_inv a" "voted_ranks a = {}" "length requests = ca_world_size a"
    "seqn = ca_next_sequence a" "unat seqn + 1 < 2 ^ 64" "unique_id_ok uid"
    "\<forall>request \<in> set requests. frame_wf crc request"
    "validate_and_route crc a uid seqn requests = (Inr responses, a')"
  shows "(let h = f_header (hd requests); payloads = map f_payload requests
          in length responses = length requests \<and>
             (\<forall>rank < length requests.
                response_for crc uid (fh_opcode h) seqn (length requests) rank (responses ! rank) \<and>
                f_payload (responses ! rank) =
                  route_spec (fh_opcode h) (unat (fh_root_rank h)) (byte_width (fh_element_type h)) payloads rank \<and>
                fh_unique_id (f_header (requests ! rank)) = uid \<and>
                unat (fh_source_rank (f_header (requests ! rank))) = rank)) \<and>
     (\<exists>d. \<forall>request \<in> set requests. request_descriptor request = d) \<and>
     agreement_inv a' \<and> voted_ranks a' = {} \<and> ca_next_sequence a' = seqn + 1"
  using round_answers(1)[OF assms] round_agreement[OF assms(1-5) round_answers(2)[OF assms]]
    agree_requests_ok(2)[OF round_answers(2)[OF assms]]
  by (simp add: responses_ok_def Let_def)


section \<open>Witnesses of the round properties\<close>

definition sample_request :: "nat \<Rightarrow> bytes \<Rightarrow> frame" where
  "sample_request rank payload =
     \<lparr> f_header = (collective_header (\<lambda>_. 0) (replicate 16 0) AllReduce U8 (of_nat rank) ANY_RANK 2 0
                     (of_nat (length payload)))
          \<lparr> fh_flags := FLAG_PAYLOAD, fh_payload_bytes := of_nat (length payload), fh_tag := 1 \<rparr>,
       f_payload = payload \<rparr>"

definition sample_requests :: "frame list" where
  "sample_requests = [sample_request 0 [1, 2], sample_request 1 [30, 40]]"

definition sample_agreement :: collective_agreement where
  "sample_agreement = \<lparr> ca_world_size = 2, ca_next_sequence = 0, ca_pending = Map.empty \<rparr>"

lemma sample_agreement_ok:
  "agreement_inv sample_agreement" "voted_ranks sample_agreement = {}"
  using agreement_new_inv[of 2 sample_agreement] by (simp_all add: agreement_new_def sample_agreement_def)

lemma sample_requests_ok: "\<forall>request \<in> set sample_requests. frame_wf (\<lambda>_. 0) request"
  by (simp add: sample_requests_def sample_request_def frame_wf_def header_wf_def unique_id_ok_def
      collective_header_def wire_consts word_less_nat_alt)

lemma sample_round:
  "\<exists>responses a'. validate_and_route (\<lambda>_. 0) sample_agreement (replicate 16 0) 0 sample_requests = (Inr responses, a')"
proof (rule gathered_round_succeeds[where cnt = 2 and opc = AllReduce and et = U8 and tag = 1 and root = ANY_RANK])
  show "\<forall>rank < length sample_requests. fh_unique_id (f_header (sample_requests ! rank)) = replicate 16 0 \<and>
        unat (fh_source_rank (f_header (sample_requests ! rank))) = rank \<and>
        unat (fh_world_size (f_header (sample_requests ! rank))) = length sample_requests"
  proof (intro allI impI)
    fix rank assume "rank < length sample_requests"
    then have "rank = 0 \<or> rank = 1" by (auto simp: sample_requests_def)
    then show "fh_unique_id (f_header (sample_requests ! rank)) = replicate 16 0 \<and>
        unat (fh_source_rank (f_header (sample_requests ! rank))) = rank \<and>
        unat (fh_world_size (f_header (sample_requests ! rank))) = length sample_requests"
      by (auto simp: sample_requests_def sample_request_def collective_header_def)
  qed
qed (simp_all add: sample_agreement_ok, simp_all add: sample_requests_def sample_request_def collective_header_def
       sample_agreement_def unique_id_ok_def)

theorem coordinator_round_semantics_witness:
  "\<exists>responses a'. validate_and_route (\<lambda>_. 0) sample_agreement (replicate 16 0) 0 sample_requests = (Inr responses, a') \<and>
     f_payload (responses ! 1) = [1, 2, 30, 40] \<and> ca_next_sequence a' = 1"
proof -
  from sample_round obtain responses a' where r:
    "validate_and_route (\<lambda>_. 0) sample_agreement (replicate 16 0) 0 sample_requests = (Inr responses, a')" by blast
  have "route_spec AllReduce k 1 (map f_payload sample_requests) 1 = [1, 2, 30, 40]" for k
    by (simp add: route_spec_def sample_requests_def sample_request_def)
  moreover have "length sample_requests = ca_world_size sample_agreement" "unique_id_ok (replicate 16 0)"
    "0 = ca_next_sequence sample_agreement" "fh_opcode (f_header (hd sample_requests)) = AllReduce"
    "byte_width (fh_element_type (f_header (hd sample_requests))) = 1" "1 < length sample_requests"
    by (simp_all add: sample_requests_def sample_agreement_def unique_id_ok_def sample_request_def collective_header_def)
  ultimately show ?thesis
    using coordinator_round_semantics[OF sample_agreement_ok _ _ _ _ sample_requests_ok r] r
    by (auto simp: Let_def)
qed


end
