(* ===== verification/P2p_Router.thy ===== *)
theory P2p_Router
  imports Coordinator_Routing
begin

text \<open>
  The coordinator's point-to-point router of \<^verbatim>\<open>src/rank/network.rs\<close>: request validation, matching of
  sends and receives over the two queues, and the event loop with its heartbeat leases. Output is the
  list of frames written, each with the rank of its connection; \<open>wr\<close> says which write fails and with
  what error, so every early return after a partial effect is a branch. An index beyond the connections
  and the \<open>unreachable!\<close> arm are \<open>Panic\<close>.
\<close>

section \<open>Requests\<close>

record p2p_queues =
  pq_sends :: "frame list"
  pq_receives :: "frame list"

definition validate_p2p_request :: "frame \<Rightarrow> bytes \<Rightarrow> nat \<Rightarrow> nat \<Rightarrow> network_error + unit" where
  "validate_p2p_request f uid world_size connection_rank =
     (let h = f_header f in
      if fh_unique_id h \<noteq> uid then Inl WrongSession
      else if unat (fh_world_size h) \<noteq> world_size \<or> unat (fh_source_rank h) \<noteq> connection_rank
      then Inl (invalid_configuration ''point-to-point connection rank {} submitted source {} and world {}''
             [ANat connection_rank, ANat (unat (fh_source_rank h)), ANat (unat (fh_world_size h))])
      else if fh_root_rank h \<noteq> ANY_RANK
      then Inl (invalid_configuration ''point-to-point request cannot declare a collective root'' [])
      else case fh_opcode h of
        Send \<Rightarrow>
          if fh_destination_rank h = ANY_RANK
          then Inl (invalid_configuration ''point-to-point send requires a destination rank'' [])
          else Inr ()
      | Receive \<Rightarrow>
          if f_payload f \<noteq> []
          then Inl (invalid_configuration ''point-to-point receive request cannot carry data'' [])
          else Inr ()
      | Abort \<Rightarrow>
          if fh_destination_rank h \<noteq> ANY_RANK \<or> fh_element_type h \<noteq> U8 \<or> f_payload f = []
          then Inl (invalid_configuration ''point-to-point abort requires a non-empty U8 message'' [])
          else Inr ()
      | Heartbeat \<Rightarrow>
          if fh_destination_rank h \<noteq> ANY_RANK \<or> fh_element_type h \<noteq> ElemNone
             \<or> fh_element_count h \<noteq> 0 \<or> f_payload f \<noteq> []
          then Inl (invalid_configuration ''point-to-point heartbeat must be an empty control frame'' [])
          else Inr ()
      | Leave \<Rightarrow>
          if fh_destination_rank h \<noteq> ANY_RANK \<or> fh_element_type h \<noteq> ElemNone
             \<or> fh_element_count h \<noteq> 0 \<or> f_payload f \<noteq> []
          then Inl (invalid_configuration ''point-to-point LEAVE must be an empty control frame'' [])
          else Inr ()
      | opc \<Rightarrow> Inl (invalid_configuration ''opcode {:?} is invalid on the point-to-point channel'' [AOpcode opc]))"

definition p2p_matches :: "frame \<Rightarrow> frame \<Rightarrow> bool" where
  "p2p_matches send receive \<longleftrightarrow>
     fh_destination_rank (f_header send) = fh_source_rank (f_header receive) \<and>
     (fh_destination_rank (f_header receive) = ANY_RANK \<or>
      fh_destination_rank (f_header receive) = fh_source_rank (f_header send)) \<and>
     fh_tag (f_header send) = fh_tag (f_header receive)"

definition p2p_send_acknowledgement ::
  "(bytes \<Rightarrow> u32) \<Rightarrow> frame \<Rightarrow> bytes \<Rightarrow> nat \<Rightarrow> network_error + frame" where
  "p2p_send_acknowledgement crc send uid world_size =
     map_err Protocol (frame_new crc
       ((collective_header crc uid Send ElemNone (fh_source_rank (f_header send)) ANY_RANK
           (of_nat world_size) (fh_sequence (f_header send)) 0)
          \<lparr> fh_destination_rank := fh_source_rank (f_header send), fh_tag := fh_tag (f_header send) \<rparr>) [])"

definition p2p_heartbeat_response ::
  "(bytes \<Rightarrow> u32) \<Rightarrow> frame \<Rightarrow> bytes \<Rightarrow> nat \<Rightarrow> network_error + frame" where
  "p2p_heartbeat_response crc heartbeat uid world_size =
     map_err Protocol (frame_new crc
       ((collective_header crc uid Heartbeat ElemNone (fh_source_rank (f_header heartbeat)) ANY_RANK
           (of_nat world_size) (fh_sequence (f_header heartbeat)) 0)
          \<lparr> fh_destination_rank := fh_source_rank (f_header heartbeat) \<rparr>) [])"

text \<open>\<open>write_frame(&mut streams[rank], frame)\<close>.\<close>

definition write_to ::
  "(nat \<Rightarrow> frame \<Rightarrow> network_error option) \<Rightarrow> nat \<Rightarrow> nat \<Rightarrow> frame \<Rightarrow> network_error fault + (nat \<times> frame)" where
  "write_to wr world_size rank f =
     (if rank < world_size
      then (case wr rank f of None \<Rightarrow> Inr (rank, f) | Some e \<Rightarrow> Inl (Fault e))
      else Inl (Panic ''index out of bounds''))"

definition deliver_p2p_receive ::
  "(bytes \<Rightarrow> u32) \<Rightarrow> (nat \<Rightarrow> frame \<Rightarrow> network_error option) \<Rightarrow> bytes \<Rightarrow> nat \<Rightarrow> frame \<Rightarrow> frame
     \<Rightarrow> network_error fault + (nat \<times> frame)" where
  "deliver_p2p_receive crc wr uid world_size send receive =
     (let s = f_header send; r = f_header receive in
      if fh_element_type s \<noteq> fh_element_type r \<or> fh_element_count s \<noteq> fh_element_count r
      then Inl (Fault (invalid_configuration
             ''point-to-point tag {} contract mismatch: send {:?}/{} receive {:?}/{}''
             [ANat (unat (fh_tag s)), AElem (fh_element_type s), ANat (unat (fh_element_count s)),
              AElem (fh_element_type r), ANat (unat (fh_element_count r))]))
      else bind_r (map_err (\<lambda>e. Fault (Protocol e)) (frame_new crc
               ((collective_header crc uid Receive (fh_element_type s) (fh_source_rank s) ANY_RANK
                   (of_nat world_size) (fh_sequence r) (fh_element_count s))
                  \<lparr> fh_destination_rank := fh_source_rank r, fh_tag := fh_tag s \<rparr>) (f_payload send)))
             (write_to wr world_size (unat (fh_source_rank r))))"

definition route_p2p_request ::
  "(bytes \<Rightarrow> u32) \<Rightarrow> (nat \<Rightarrow> frame \<Rightarrow> network_error option) \<Rightarrow> bytes \<Rightarrow> nat \<Rightarrow> nat \<Rightarrow> frame \<Rightarrow> p2p_queues
     \<Rightarrow> (network_error fault + unit) \<times> (nat \<times> frame) list \<times> p2p_queues" where
  "route_p2p_request crc wr uid world_size connection_rank f q =
     (case validate_p2p_request f uid world_size connection_rank of
        Inl e \<Rightarrow> (Inl (Fault e), [], q)
      | Inr _ \<Rightarrow>
        (case fh_opcode (f_header f) of
           Send \<Rightarrow>
             (case bind_r (map_err Fault (p2p_send_acknowledgement crc f uid world_size))
                     (write_to wr world_size (unat (fh_source_rank (f_header f)))) of
                Inl e \<Rightarrow> (Inl e, [], q)
              | Inr ack \<Rightarrow>
                (case position (p2p_matches f) (pq_receives q) of
                   Some index \<Rightarrow>
                     let receive = pq_receives q ! index;
                         q' = q\<lparr> pq_receives := remove_at index (pq_receives q) \<rparr>
                     in (case deliver_p2p_receive crc wr uid world_size f receive of
                           Inl e \<Rightarrow> (Inl e, [ack], q')
                         | Inr out \<Rightarrow> (Inr (), [ack, out], q'))
                 | None \<Rightarrow> (Inr (), [ack], q\<lparr> pq_sends := pq_sends q @ [f] \<rparr>)))
         | Receive \<Rightarrow>
             (case position (\<lambda>send. p2p_matches send f) (pq_sends q) of
                Some index \<Rightarrow>
                  let send = pq_sends q ! index;
                      q' = q\<lparr> pq_sends := remove_at index (pq_sends q) \<rparr>
                  in (case deliver_p2p_receive crc wr uid world_size send f of
                        Inl e \<Rightarrow> (Inl e, [], q')
                      | Inr out \<Rightarrow> (Inr (), [out], q'))
              | None \<Rightarrow> (Inr (), [], q\<lparr> pq_receives := pq_receives q @ [f] \<rparr>))
         | Heartbeat \<Rightarrow>
             (case bind_r (map_err Fault (p2p_heartbeat_response crc f uid world_size))
                     (write_to wr world_size connection_rank) of
                Inl e \<Rightarrow> (Inl e, [], q)
              | Inr out \<Rightarrow> (Inr (), [out], q))
         | Leave \<Rightarrow> (Inr (), [], q)
         | Abort \<Rightarrow> (Inl (Fault (RemoteAbort (Msg ''rank {} aborted: {}''
                        [ANat connection_rank, ABytes (f_payload f)]))), [], q)
         | _ \<Rightarrow> (Inl (Panic ''point-to-point request was validated''), [], q)))"

section \<open>The event loop\<close>

record p2p_loop =
  pl_queues :: p2p_queues
  pl_last_seen :: "nat list"
  pl_graceful :: "bool list"
  pl_closed :: "bool list"
  pl_failure :: "bytes option"

datatype p2p_event = P2pFrame nat frame | P2pClosed nat | P2pFailed nat network_error

datatype loop_status = Running | Finished "network_error fault + unit"

text \<open>One iteration: \<open>event\<close> is \<open>None\<close> when the poll interval passed, times are in milliseconds.\<close>

definition p2p_handle_event ::
  "(bytes \<Rightarrow> u32) \<Rightarrow> (nat \<Rightarrow> frame \<Rightarrow> network_error option) \<Rightarrow> bytes \<Rightarrow> nat \<Rightarrow> nat option \<Rightarrow> nat
     \<Rightarrow> p2p_event option \<Rightarrow> p2p_loop \<Rightarrow> (network_error fault + unit) \<times> (nat \<times> frame) list \<times> p2p_loop" where
  "p2p_handle_event crc wr uid world_size heartbeat_timeout now event st =
     (case event of
        Some (P2pFrame rank f) \<Rightarrow>
          let st = st\<lparr> pl_last_seen := (pl_last_seen st)[rank := now] \<rparr>
          in if pl_graceful st ! rank
             then (Inl (Fault (invalid_configuration ''point-to-point rank {} sent data after LEAVE'' [ANat rank])), [], st)
             else (case route_p2p_request crc wr uid world_size rank f (pl_queues st) of
                     (res, outs, q) \<Rightarrow>
                       let st = st\<lparr> pl_queues := q \<rparr>
                       in (res, outs,
                           if is_ok res \<and> fh_opcode (f_header f) = Leave
                           then st\<lparr> pl_graceful := (pl_graceful st)[rank := True] \<rparr> else st))
      | Some (P2pClosed rank) \<Rightarrow>
          (if heartbeat_timeout \<noteq> None \<and> \<not> pl_graceful st ! rank
           then Inl (Fault (invalid_configuration ''point-to-point rank {} disconnected without LEAVE'' [ANat rank]))
           else Inr (), [], st\<lparr> pl_closed := (pl_closed st)[rank := True] \<rparr>)
      | Some (P2pFailed rank e) \<Rightarrow>
          (if heartbeat_timeout \<noteq> None \<and> \<not> pl_graceful st ! rank
           then Inl (Fault (invalid_configuration ''point-to-point rank {} failed without LEAVE: {}'' [ANat rank, AErr e]))
           else Inr (), [], st\<lparr> pl_closed := (pl_closed st)[rank := True] \<rparr>)
      | None \<Rightarrow> (Inr (), [], st))"

text \<open>\<open>broadcast_p2p_abort\<close>: errors of building or writing an abort frame are ignored.\<close>

definition broadcast_p2p_abort ::
  "(bytes \<Rightarrow> u32) \<Rightarrow> (nat \<Rightarrow> frame \<Rightarrow> network_error option) \<Rightarrow> bytes \<Rightarrow> nat \<Rightarrow> bytes \<Rightarrow> (nat \<times> frame) list" where
  "broadcast_p2p_abort crc wr uid world_size message =
     concat (map (\<lambda>rank. case abort_frame crc uid 0 (of_nat rank) (of_nat world_size) message of
         Inl _ \<Rightarrow> []
       | Inr f \<Rightarrow> (case wr rank f of None \<Rightarrow> [(rank, f)] | Some _ \<Rightarrow> [])) [0..<world_size])"

definition expired_lease :: "nat \<Rightarrow> nat \<Rightarrow> p2p_loop \<Rightarrow> nat option" where
  "expired_lease timeout now st =
     find (\<lambda>rank. \<not> pl_closed st ! rank \<and> \<not> pl_graceful st ! rank \<and> timeout \<le> now - pl_last_seen st ! rank)
       [0..<length (pl_last_seen st)]"

text \<open>\<open>publish_server_failure\<close>: the first message stays.\<close>

definition publish_server_failure :: "bytes \<Rightarrow> p2p_loop \<Rightarrow> p2p_loop" where
  "publish_server_failure message st =
     st\<lparr> pl_failure := (case pl_failure st of None \<Rightarrow> Some message | Some m \<Rightarrow> Some m) \<rparr>"

text \<open>\<open>text\<close> renders an error as the bytes of its message (\<open>server_failure_text\<close>).\<close>

definition p2p_step ::
  "(bytes \<Rightarrow> u32) \<Rightarrow> (nat \<Rightarrow> frame \<Rightarrow> network_error option) \<Rightarrow> (network_error \<Rightarrow> bytes) \<Rightarrow> bytes \<Rightarrow> nat
     \<Rightarrow> nat option \<Rightarrow> nat \<Rightarrow> p2p_event option \<Rightarrow> p2p_loop \<Rightarrow> loop_status \<times> (nat \<times> frame) list \<times> p2p_loop" where
  "p2p_step crc wr text uid world_size heartbeat_timeout now event st =
     (case p2p_handle_event crc wr uid world_size heartbeat_timeout now event st of
        (Inl (Panic m), outs, st') \<Rightarrow> (Finished (Inl (Panic m)), outs, st')
      | (Inl (Fault e), outs, st') \<Rightarrow>
          (Finished (Inl (Fault e)), outs @ broadcast_p2p_abort crc wr uid world_size (text e),
           publish_server_failure (text e) st')
      | (Inr _, outs, st') \<Rightarrow>
          if list_all id (pl_closed st') then (Finished (Inr ()), outs, st')
          else case heartbeat_timeout of
            None \<Rightarrow> (Running, outs, st')
          | Some timeout \<Rightarrow>
              (case expired_lease timeout now st' of
                 None \<Rightarrow> (Running, outs, st')
               | Some rank \<Rightarrow>
                   let e = NetTimeout (Msg ''heartbeat lease for rank {}; last contact {} ms ago''
                             [ANat rank, ANat (now - pl_last_seen st' ! rank)])
                   in (Finished (Inl (Fault e)), outs @ broadcast_p2p_abort crc wr uid world_size (text e),
                       publish_server_failure (text e) st')))"

section \<open>Channels\<close>

text \<open>A channel is a source, a destination and a tag; what a frame carries is its element type, its
  count and its payload.\<close>

definition channel :: "frame \<Rightarrow> u32 \<times> u32 \<times> u64" where
  "channel f = (fh_source_rank (f_header f), fh_destination_rank (f_header f), fh_tag (f_header f))"

definition content :: "frame \<Rightarrow> element_type \<times> u64 \<times> bytes" where
  "content f = (fh_element_type (f_header f), fh_element_count (f_header f), f_payload f)"

definition on_channel :: "u32 \<times> u32 \<times> u64 \<Rightarrow> frame list \<Rightarrow> (element_type \<times> u64 \<times> bytes) list" where
  "on_channel c fs = map content (filter (\<lambda>f. channel f = c) fs)"

definition deliveries :: "(nat \<times> frame) list \<Rightarrow> frame list" where
  "deliveries outs = filter (\<lambda>f. fh_opcode (f_header f) = Receive) (map snd outs)"

definition p2p_inv :: "nat \<Rightarrow> p2p_queues \<Rightarrow> bool" where
  "p2p_inv w q \<longleftrightarrow>
     (\<forall>s \<in> set (pq_sends q). \<forall>r \<in> set (pq_receives q). \<not> p2p_matches s r) \<and>
     (\<forall>r \<in> set (pq_receives q). unat (fh_source_rank (f_header r)) < w)"

lemma on_channel_append [simp]: "on_channel c (xs @ ys) = on_channel c xs @ on_channel c ys"
  by (simp add: on_channel_def)

lemma on_channel_simps [simp]:
  "on_channel c [] = []"
  "on_channel c (f # fs) = (if channel f = c then content f # on_channel c fs else on_channel c fs)"
  by (simp_all add: on_channel_def)

lemma on_channel_empty: "(\<And>f. f \<in> set fs \<Longrightarrow> channel f \<noteq> c) \<Longrightarrow> on_channel c fs = []"
  by (induction fs) auto

lemma matches_channel: "channel s = channel s' \<Longrightarrow> p2p_matches s r \<Longrightarrow> p2p_matches s' r"
  by (simp add: p2p_matches_def channel_def)

lemma write_to_ok: "write_to wr w rank f = Inr out \<longleftrightarrow> out = (rank, f) \<and> rank < w \<and> wr rank f = None"
  by (auto simp: write_to_def split: option.splits)

lemma deliver_ok:
  assumes "deliver_p2p_receive crc wr uid w send receive = Inr (rank, f)" "p2p_matches send receive"
  shows "channel f = channel send" "content f = content send" "fh_opcode (f_header f) = Receive"
    "rank = unat (fh_destination_rank (f_header send))"
    "fh_sequence (f_header f) = fh_sequence (f_header receive)"
    "fh_element_count (f_header receive) = fh_element_count (f_header send)"
    "fh_element_type (f_header receive) = fh_element_type (f_header send)"
proof -
  let ?h = "(collective_header crc uid Receive (fh_element_type (f_header send)) (fh_source_rank (f_header send)) ANY_RANK
      (of_nat w) (fh_sequence (f_header receive)) (fh_element_count (f_header send)))
      \<lparr> fh_destination_rank := fh_source_rank (f_header receive), fh_tag := fh_tag (f_header send) \<rparr>"
  from assms(1) have new: "frame_new crc ?h (f_payload send) = Inr f"
    and rank: "rank = unat (fh_source_rank (f_header receive))"
    and contract: "fh_element_type (f_header send) = fh_element_type (f_header receive)"
      "fh_element_count (f_header send) = fh_element_count (f_header receive)"
    by (auto simp: deliver_p2p_receive_def Let_def bind_r_eq_Inr write_to_ok split: if_splits)
  from frame_new_fields[OF new] assms(2) rank contract
  show "channel f = channel send" "content f = content send" "fh_opcode (f_header f) = Receive"
    "rank = unat (fh_destination_rank (f_header send))"
    "fh_sequence (f_header f) = fh_sequence (f_header receive)"
    "fh_element_count (f_header receive) = fh_element_count (f_header send)"
    "fh_element_type (f_header receive) = fh_element_type (f_header send)"
    by (simp_all add: channel_def content_def collective_header_def p2p_matches_def)
qed

lemma acknowledgement_ok:
  assumes "p2p_send_acknowledgement crc send uid w = Inr f"
  shows "fh_opcode (f_header f) = Send" "f_payload f = []"
  using assms frame_new_fields by (fastforce simp: p2p_send_acknowledgement_def collective_header_def)+

lemma heartbeat_ok:
  assumes "p2p_heartbeat_response crc f uid w = Inr g"
  shows "fh_opcode (f_header g) = Heartbeat"
  using assms frame_new_fields by (fastforce simp: p2p_heartbeat_response_def collective_header_def)

lemma remove_at_split: "i < length xs \<Longrightarrow> xs = take i xs @ xs ! i # drop (Suc i) xs"
  by (rule id_take_nth_drop)

text \<open>The four ways a request succeeds.\<close>

lemma route_p2p_request_cases:
  assumes "route_p2p_request crc wr uid w conn f q = (Inr (), outs, q')"
  obtains
    (queued_send) "fh_opcode (f_header f) = Send" "\<forall>r \<in> set (pq_receives q). \<not> p2p_matches f r"
      "deliveries outs = []" "q' = q\<lparr> pq_sends := pq_sends q @ [f] \<rparr>"
  | (delivered_send) i out where "fh_opcode (f_header f) = Send" "i < length (pq_receives q)"
      "p2p_matches f (pq_receives q ! i)" "deliver_p2p_receive crc wr uid w f (pq_receives q ! i) = Inr out"
      "deliveries outs = [snd out]" "q' = q\<lparr> pq_receives := remove_at i (pq_receives q) \<rparr>"
  | (queued_receive) "fh_opcode (f_header f) = Receive" "\<forall>s \<in> set (pq_sends q). \<not> p2p_matches s f"
      "deliveries outs = []" "q' = q\<lparr> pq_receives := pq_receives q @ [f] \<rparr>"
  | (delivered_receive) i out where "fh_opcode (f_header f) = Receive" "i < length (pq_sends q)"
      "p2p_matches (pq_sends q ! i) f" "\<forall>j < i. \<not> p2p_matches (pq_sends q ! j) f"
      "deliver_p2p_receive crc wr uid w (pq_sends q ! i) f = Inr out"
      "deliveries outs = [snd out]" "q' = q\<lparr> pq_sends := remove_at i (pq_sends q) \<rparr>"
  | (control) "fh_opcode (f_header f) = Heartbeat \<or> fh_opcode (f_header f) = Leave"
      "deliveries outs = []" "q' = q"
proof -
  from assms have v: "validate_p2p_request f uid w conn = Inr ()"
    by (auto simp: route_p2p_request_def split: sum.splits)
  show ?thesis
  proof (cases "fh_opcode (f_header f)")
    case Send
    from assms obtain ack where ack: "p2p_send_acknowledgement crc f uid w = Inr (snd ack)"
      "bind_r (map_err Fault (p2p_send_acknowledgement crc f uid w)) (write_to wr w (unat (fh_source_rank (f_header f)))) = Inr ack"
      by (auto simp: route_p2p_request_def v Send bind_r_eq_Inr write_to_ok split: sum.splits)
    note A = acknowledgement_ok[OF ack(1)]
    show ?thesis
    proof (cases "position (p2p_matches f) (pq_receives q)")
      case None
      have "\<forall>r \<in> set (pq_receives q). \<not> p2p_matches f r" using None by (simp only: position_None)
      with None assms Send ack v A show ?thesis
        by (intro queued_send) (auto simp: route_p2p_request_def deliveries_def)
    next
      case (Some i)
      from position_Some[OF this] have i: "i < length (pq_receives q)" "p2p_matches f (pq_receives q ! i)" by auto
      from assms Some Send ack v obtain out where out:
        "deliver_p2p_receive crc wr uid w f (pq_receives q ! i) = Inr out" "outs = [ack, out]"
        "q' = q\<lparr> pq_receives := remove_at i (pq_receives q) \<rparr>"
        by (auto simp: route_p2p_request_def Let_def split: sum.splits)
      with deliver_ok(3)[of crc wr uid w f "pq_receives q ! i" "fst out" "snd out"] i A show ?thesis
        by (intro delivered_send[of i out] Send) (auto simp: deliveries_def)
    qed
  next
    case Receive
    show ?thesis
    proof (cases "position (\<lambda>send. p2p_matches send f) (pq_sends q)")
      case None
      have "\<forall>s \<in> set (pq_sends q). \<not> p2p_matches s f" using None by (simp only: position_None)
      with None assms Receive v show ?thesis
        by (intro queued_receive) (auto simp: route_p2p_request_def deliveries_def)
    next
      case (Some i)
      from position_Some[OF this] have i: "i < length (pq_sends q)" "p2p_matches (pq_sends q ! i) f"
        "\<forall>j < i. \<not> p2p_matches (pq_sends q ! j) f" by auto
      from assms Some Receive v obtain out where out:
        "deliver_p2p_receive crc wr uid w (pq_sends q ! i) f = Inr out" "outs = [out]"
        "q' = q\<lparr> pq_sends := remove_at i (pq_sends q) \<rparr>"
        by (auto simp: route_p2p_request_def Let_def split: sum.splits)
      with deliver_ok(3)[of crc wr uid w "pq_sends q ! i" f "fst out" "snd out"] i show ?thesis
        by (intro delivered_receive[of i out] Receive) (auto simp: deliveries_def)
    qed
  qed (use assms v heartbeat_ok in \<open>auto simp: route_p2p_request_def deliveries_def bind_r_eq_Inr write_to_ok
        split: sum.splits intro!: control\<close>)
qed

lemma route_p2p_source:
  assumes "route_p2p_request crc wr uid w conn f q = (Inr (), outs, q')"
  shows "unat (fh_source_rank (f_header f)) = conn"
  using assms by (auto simp: route_p2p_request_def validate_p2p_request_def Let_def split: sum.splits if_splits)

lemma route_p2p_inv:
  assumes inv: "p2p_inv w q" and conn: "conn < w"
    and ok: "route_p2p_request crc wr uid w conn f q = (Inr (), outs, q')"
  shows "p2p_inv w q'"
  using ok
proof (cases rule: route_p2p_request_cases)
  case (delivered_send i out)
  then show ?thesis using inv set_remove_at[of i "pq_receives q"] by (auto simp: p2p_inv_def)
next
  case (delivered_receive i out)
  then show ?thesis using inv set_remove_at[of i "pq_sends q"] by (auto simp: p2p_inv_def)
next
  case queued_receive
  then show ?thesis using inv conn route_p2p_source[OF ok] by (auto simp: p2p_inv_def)
qed (use inv in \<open>auto simp: p2p_inv_def\<close>)

lemma route_p2p_fifo:
  assumes inv: "p2p_inv w q"
    and ok: "route_p2p_request crc wr uid w conn f q = (Inr (), outs, q')"
  shows "on_channel c (pq_sends q) @ on_channel c (if fh_opcode (f_header f) = Send then [f] else [])
    = on_channel c (deliveries outs) @ on_channel c (pq_sends q')"
  using ok
proof (cases rule: route_p2p_request_cases)
  case (delivered_send i out)
  have D: "channel (snd out) = channel f" "content (snd out) = content f"
    using deliver_ok[of crc wr uid w f "pq_receives q ! i" "fst out" "snd out"] delivered_send by auto
  have "on_channel (channel f) (pq_sends q) = []"
  proof (rule on_channel_empty)
    fix s assume s: "s \<in> set (pq_sends q)"
    then have "\<not> p2p_matches s (pq_receives q ! i)"
      using inv nth_mem[OF delivered_send(2)] by (auto simp: p2p_inv_def)
    then show "channel s \<noteq> channel f" using matches_channel delivered_send(3) by metis
  qed
  then show ?thesis using delivered_send D by auto
next
  case (delivered_receive i out)
  let ?s = "pq_sends q ! i"
  have D: "channel (snd out) = channel ?s" "content (snd out) = content ?s"
    using deliver_ok[of crc wr uid w ?s f "fst out" "snd out"] delivered_receive by auto
  have first: "on_channel (channel ?s) (take i (pq_sends q)) = []"
  proof (rule on_channel_empty)
    fix s assume "s \<in> set (take i (pq_sends q))"
    then obtain j where "j < i" "s = pq_sends q ! j" by (auto simp: in_set_conv_nth)
    then have "\<not> p2p_matches s f" using delivered_receive(4) by blast
    then show "channel s \<noteq> channel ?s" using matches_channel delivered_receive(3) by metis
  qed
  have "on_channel c (pq_sends q) = on_channel c (take i (pq_sends q)) @ on_channel c [?s] @ on_channel c (drop (Suc i) (pq_sends q))"
    using remove_at_split[OF delivered_receive(2)] by (metis append_Cons append_Nil on_channel_append)
  then show ?thesis using delivered_receive D first by (auto simp: remove_at_def)
qed auto

section \<open>Runs\<close>

text \<open>A run of requests that all succeed: the outputs and the final queues.\<close>

fun p2p_run ::
  "(bytes \<Rightarrow> u32) \<Rightarrow> (nat \<Rightarrow> frame \<Rightarrow> network_error option) \<Rightarrow> bytes \<Rightarrow> nat \<Rightarrow> (nat \<times> frame) list
     \<Rightarrow> p2p_queues \<Rightarrow> network_error fault + ((nat \<times> frame) list \<times> p2p_queues)" where
  "p2p_run crc wr uid w [] q = Inr ([], q)"
| "p2p_run crc wr uid w ((conn, f) # rs) q =
     (case route_p2p_request crc wr uid w conn f q of
        (Inl e, _, _) \<Rightarrow> Inl e
      | (Inr _, outs, q') \<Rightarrow> bind_r (p2p_run crc wr uid w rs q') (\<lambda>(outs', q''). Inr (outs @ outs', q'')))"

definition sent :: "(nat \<times> frame) list \<Rightarrow> frame list" where
  "sent rs = filter (\<lambda>f. fh_opcode (f_header f) = Send) (map snd rs)"

lemma p2p_run_fifo:
  assumes "p2p_run crc wr uid w rs q = Inr (outs, q')" "p2p_inv w q" "\<forall>x \<in> set rs. fst x < w"
  shows "p2p_inv w q' \<and>
     on_channel c (pq_sends q) @ on_channel c (sent rs) = on_channel c (deliveries outs) @ on_channel c (pq_sends q')"
  using assms
proof (induction crc wr uid w rs q arbitrary: outs q' rule: p2p_run.induct)
  case (2 crc wr uid w conn f rs q)
  obtain res o1 q1 where r: "route_p2p_request crc wr uid w conn f q = (res, o1, q1)" by (metis prod_cases3)
  from "2.prems"(1) r obtain u where res: "res = Inr u" by (cases res) auto
  from "2.prems"(1) r res obtain o2 where run: "p2p_run crc wr uid w rs q1 = Inr (o2, q')" "outs = o1 @ o2"
    by (auto simp: bind_r_eq_Inr)
  have ok: "route_p2p_request crc wr uid w conn f q = (Inr (), o1, q1)" using r res by simp
  note inv = route_p2p_inv[OF "2.prems"(2) _ ok] and fifo = route_p2p_fifo[OF "2.prems"(2) ok, of c]
  have IH: "p2p_inv w q' \<and> on_channel c (pq_sends q1) @ on_channel c (sent rs) =
      on_channel c (deliveries o2) @ on_channel c (pq_sends q')"
    using "2.IH"[OF r[symmetric] res refl run(1)] inv "2.prems"(3) by auto
  have "on_channel c (sent ((conn, f) # rs)) = on_channel c (if fh_opcode (f_header f) = Send then [f] else []) @ on_channel c (sent rs)"
    by (simp add: sent_def)
  moreover have "deliveries outs = deliveries o1 @ deliveries o2" by (simp add: run(2) deliveries_def)
  ultimately show ?case using IH fifo by (metis append.assoc on_channel_append)
qed (simp add: sent_def deliveries_def)

lemma write_to_panic: "write_to wr w rank f = Inl (Panic m) \<Longrightarrow> \<not> rank < w"
  by (auto simp: write_to_def split: option.splits if_splits)

lemma deliver_panic:
  "deliver_p2p_receive crc wr uid w send receive = Inl (Panic m) \<Longrightarrow> \<not> unat (fh_source_rank (f_header receive)) < w"
  by (auto simp: deliver_p2p_receive_def Let_def bind_r_eq_Inl map_err_eq_Inl dest: write_to_panic split: if_splits)

lemma route_p2p_no_panic:
  assumes "p2p_inv w q" "conn < w"
  shows "fst (route_p2p_request crc wr uid w conn f q) \<noteq> Inl (Panic m)"
proof (cases "validate_p2p_request f uid w conn")
  case (Inr u)
  then have src: "unat (fh_source_rank (f_header f)) = conn"
    by (auto simp: validate_p2p_request_def Let_def split: if_splits)
  have recv: "unat (fh_source_rank (f_header (pq_receives q ! i))) < w"
    if "position P (pq_receives q) = Some i" for i P
    using assms(1) position_Some[OF that] by (simp add: p2p_inv_def)
  have bind: "bind_r (map_err Fault r) (write_to wr w conn) \<noteq> Inl (Panic m)" for r
    using write_to_panic[of wr w conn _ m] assms(2) by (auto simp: bind_r_eq_Inl map_err_eq_Inl)
  show ?thesis
  proof (cases "fh_opcode (f_header f)")
    case Send
    have "deliver_p2p_receive crc wr uid w f (pq_receives q ! i) \<noteq> Inl (Panic m)"
      if "position (p2p_matches f) (pq_receives q) = Some i" for i
      using deliver_panic recv[OF that] by blast
    then show ?thesis
      using Send Inr bind[of "p2p_send_acknowledgement crc f uid w"]
      by (auto simp: route_p2p_request_def Let_def src split: sum.split option.split)
  next
    case Receive
    have "deliver_p2p_receive crc wr uid w s f \<noteq> Inl (Panic m)" for s
      using deliver_panic[of crc wr uid w s f m] src assms(2) by auto
    then show ?thesis
      using Receive Inr by (auto simp: route_p2p_request_def Let_def split: sum.split option.split)
  next
    case Heartbeat
    then show ?thesis
      using Inr bind[of "p2p_heartbeat_response crc f uid w"]
      by (auto simp: route_p2p_request_def split: sum.split)
  qed (use Inr in \<open>simp_all add: route_p2p_request_def validate_p2p_request_def Let_def split: if_splits\<close>)
qed (simp add: route_p2p_request_def)

section \<open>Properties\<close>


definition sample_p2p :: "opcode \<Rightarrow> u32 \<Rightarrow> u32 \<Rightarrow> bytes \<Rightarrow> frame" where
  "sample_p2p opc source destination payload =
     \<lparr> f_header = (collective_header (\<lambda>_. 0) (replicate 16 0) opc U8 source ANY_RANK 2 0 1)
          \<lparr> fh_destination_rank := destination, fh_tag := 9,
            fh_flags := (if payload = [] then 0 else FLAG_PAYLOAD), fh_payload_bytes := of_nat (length payload) \<rparr>,
       f_payload = payload \<rparr>"

definition sample_p2p_requests :: "(nat \<times> frame) list" where
  "sample_p2p_requests =
     [(0, sample_p2p Send 0 1 [5]), (0, sample_p2p Send 0 1 [6]), (1, sample_p2p Receive 1 0 [])]"

lemma sample_p2p_run:
  "\<exists>outs q. p2p_run (\<lambda>_. 0) (\<lambda>_ _. None) (replicate 16 0) 2 sample_p2p_requests \<lparr> pq_sends = [], pq_receives = [] \<rparr>
     = Inr (outs, q) \<and> pq_sends q = [sample_p2p Send 0 1 [6]]"
  by (simp add: sample_p2p_requests_def sample_p2p_def route_p2p_request_def validate_p2p_request_def
      p2p_send_acknowledgement_def deliver_p2p_receive_def write_to_def frame_new_def with_payload_def
      validate_def validate_rank_def validate_lengths_def validate_payload_def collective_header_def wire_consts
      p2p_matches_def Let_def checked_mul_def checked_add_def remove_at_def word_less_nat_alt)


text \<open>No request and no order of requests makes the router panic: the \<open>unreachable!\<close> arm is not
  reached and every connection index is in range, from the empty queues and after every accepted
  request.\<close>

theorem p2p_never_panics:
  assumes "\<forall>x \<in> set requests. fst x < w"
  shows "p2p_run crc wr uid w requests \<lparr> pq_sends = [], pq_receives = [] \<rparr> \<noteq> Inl (Panic m)"
proof -
  have "p2p_run crc wr uid w requests q \<noteq> Inl (Panic m)" if "p2p_inv w q" for q
    using that assms
  proof (induction crc wr uid w requests q rule: p2p_run.induct)
    case (2 crc wr uid w conn f rs q)
    obtain res o1 q1 where r: "route_p2p_request crc wr uid w conn f q = (res, o1, q1)" by (metis prod_cases3)
    show ?case
    proof (cases res)
      case (Inl e)
      then show ?thesis using route_p2p_no_panic[OF "2.prems"(1), of conn crc wr uid f m] "2.prems"(2) r by auto
    next
      case (Inr u)
      then have "p2p_inv w q1" using route_p2p_inv[OF "2.prems"(1)] "2.prems"(2) r by auto
      then have "p2p_run crc wr uid w rs q1 \<noteq> Inl (Panic m)"
        using "2.IH"[OF r[symmetric] Inr refl] "2.prems"(2) by auto
      then show ?thesis using r Inr by (auto simp: bind_r_eq_Inl)
    qed
  qed simp
  then show ?thesis by (simp add: p2p_inv_def)
qed

theorem p2p_never_panics_witness:
  "p2p_run (\<lambda>_. 0) (\<lambda>_ _. None) (replicate 16 0) 2 sample_p2p_requests \<lparr> pq_sends = [], pq_receives = [] \<rparr>
     \<noteq> Inl (Panic ''index out of bounds'')"
  by (rule p2p_never_panics) (simp add: sample_p2p_requests_def)



end
