(* ===== verification/Coordinator_Loop.thy ===== *)
theory Coordinator_Loop
  imports P2p_Router
begin

text \<open>
  The collective event loop of the coordinator, \<open>run_collective_loop\<close> in \<^verbatim>\<open>src/rank/network.rs\<close>, as a
  step function over what the loop can observe next: an event of a rank's reader thread, the deadline
  of the round, a failure published by the point-to-point router, or the end of all readers. The loop
  collects one request per rank, routes the round with \<open>validate_and_route\<close>, writes the responses in
  rank order and starts the next round; every \<open>break\<close> is a \<open>Finished\<close> status.
\<close>

section \<open>Model\<close>

record collective_loop =
  cl_agreement :: collective_agreement
  cl_requests :: "frame option list"
  cl_timeout :: u64
  cl_active_sequence :: u64

text \<open>The second component of an event is what \<open>wait_for_server_failure\<close> returns after it.\<close>

datatype loop_input =
    LoopEvent collective_event "message option"
  | LoopDeadline
  | LoopServerFailure message
  | LoopDisconnected

definition collective_timeout_error :: "u64 \<Rightarrow> frame option list \<Rightarrow> network_error" where
  "collective_timeout_error seqn requests =
     NetTimeout (Msg ''collective sequence {}; missing ranks [{}]''
       (ANat (unat seqn) # map (\<lambda>(rank, _). ANat rank)
          (filter (\<lambda>(_, request). request = None) (enumerate 0 requests))))"

text \<open>\<open>for (stream, response) in streams.iter_mut().zip(&responses)\<close>: stops at the first failed write.\<close>

fun write_responses ::
  "(nat \<Rightarrow> frame \<Rightarrow> network_error option) \<Rightarrow> (nat \<times> frame) list
     \<Rightarrow> network_error option \<times> (nat \<times> frame) list" where
  "write_responses wr [] = (None, [])"
| "write_responses wr ((rank, f) # rest) =
     (case wr rank f of
        Some e \<Rightarrow> (Some e, [])
      | None \<Rightarrow> (case write_responses wr rest of (res, outs) \<Rightarrow> (res, (rank, f) # outs)))"

definition finish_round ::
  "(bytes \<Rightarrow> u32) \<Rightarrow> (nat \<Rightarrow> frame \<Rightarrow> network_error option) \<Rightarrow> bytes \<Rightarrow> frame list \<Rightarrow> collective_loop
     \<Rightarrow> loop_status \<times> (nat \<times> frame) list \<times> collective_loop" where
  "finish_round crc wr uid requests st =
     (case validate_and_route crc (cl_agreement st) uid (ca_next_sequence (cl_agreement st)) requests of
        (Inl e, a) \<Rightarrow> (Finished (Inl e), [], st\<lparr> cl_agreement := a \<rparr>)
      | (Inr responses, a) \<Rightarrow>
          let st = st\<lparr> cl_agreement := a \<rparr>
          in (case write_responses wr (enumerate 0 responses) of
                (Some e, outs) \<Rightarrow> (Finished (Inl (Fault e)), outs, st)
              | (None, outs) \<Rightarrow>
                  let h = f_header (hd requests);
                      st = (if fh_opcode h = SetTimeout then st\<lparr> cl_timeout := fh_tag h \<rparr> else st)
                  in (Running, outs,
                      st\<lparr> cl_active_sequence := ca_next_sequence a,
                          cl_requests := replicate (length requests) None \<rparr>)))"

definition collective_step ::
  "(bytes \<Rightarrow> u32) \<Rightarrow> (nat \<Rightarrow> frame \<Rightarrow> network_error option) \<Rightarrow> bytes \<Rightarrow> loop_input \<Rightarrow> collective_loop
     \<Rightarrow> loop_status \<times> (nat \<times> frame) list \<times> collective_loop" where
  "collective_step crc wr uid inp st =
     (let seqn = ca_next_sequence (cl_agreement st); requests = cl_requests st;
          fail = (\<lambda>e st. (Finished (Inl (Fault e)), [], st))
      in case inp of
        LoopServerFailure message \<Rightarrow> fail (InvalidConfiguration message) st
      | LoopDeadline \<Rightarrow> fail (collective_timeout_error seqn requests) st
      | LoopDisconnected \<Rightarrow> fail ChannelClosed st
      | LoopEvent (EvFrame rank f) _ \<Rightarrow>
          if length requests \<le> rank then (Finished (Inl (Panic ''index out of bounds'')), [], st)
          else
            let requests' = requests[rank := Some f]; st' = st\<lparr> cl_requests := requests' \<rparr>
            in if requests ! rank \<noteq> None
               then fail (invalid_configuration ''rank {} submitted collective sequence {} twice''
                      [ANat rank, ANat (unat seqn)]) st'
               else if None \<in> set requests' then (Running, [], st')
               else finish_round crc wr uid (map the requests') st'
      | LoopEvent (EvClosed rank) failure \<Rightarrow>
          if list_all (\<lambda>request. request = None) requests then (Finished (Inr ()), [], st)
          else (case failure of
                  Some message \<Rightarrow> fail (InvalidConfiguration message) st
                | None \<Rightarrow> fail (invalid_configuration ''rank {} disconnected during collective sequence {}''
                            [ANat rank, ANat (unat seqn)]) st)
      | LoopEvent (EvFailed rank e) failure \<Rightarrow>
          (case failure of
             Some message \<Rightarrow> fail (InvalidConfiguration message) st
           | None \<Rightarrow> fail (invalid_configuration ''rank {} failed during collective sequence {}: {}''
                       [ANat rank, ANat (unat seqn), AErr e]) st))"

text \<open>\<open>broadcast_collective_abort\<close> writes to every rank and ignores errors.\<close>

definition broadcast_collective_abort ::
  "(bytes \<Rightarrow> u32) \<Rightarrow> (nat \<Rightarrow> frame \<Rightarrow> network_error option) \<Rightarrow> bytes \<Rightarrow> u64 \<Rightarrow> nat \<Rightarrow> bytes \<Rightarrow> (nat \<times> frame) list" where
  "broadcast_collective_abort crc wr uid seqn world_size message =
     concat (map (\<lambda>rank. case abort_frame crc uid seqn (of_nat rank) (of_nat world_size) message of
         Inl _ \<Rightarrow> []
       | Inr f \<Rightarrow> (case wr rank f of None \<Rightarrow> [(rank, f)] | Some _ \<Rightarrow> [])) [0..<world_size])"

text \<open>After the loop: an error is broadcast to the ranks. \<open>display\<close> is the text of an error.\<close>

fun after_loop ::
  "(bytes \<Rightarrow> u32) \<Rightarrow> (nat \<Rightarrow> frame \<Rightarrow> network_error option) \<Rightarrow> (network_error \<Rightarrow> bytes) \<Rightarrow> bytes \<Rightarrow> nat
     \<Rightarrow> loop_status \<times> (nat \<times> frame) list \<times> collective_loop \<Rightarrow> loop_status \<times> (nat \<times> frame) list \<times> collective_loop" where
  "after_loop crc wr display uid world_size (Finished (Inl (Fault e)), outs, st) =
     (Finished (Inl (Fault e)),
      outs @ broadcast_collective_abort crc wr uid (cl_active_sequence st) world_size (display e), st)"
| "after_loop crc wr display uid world_size r = r"

text \<open>The whole loop over a sequence of inputs: it stops at the first \<open>Finished\<close> status.\<close>

fun run_collective_loop ::
  "(bytes \<Rightarrow> u32) \<Rightarrow> (nat \<Rightarrow> frame \<Rightarrow> network_error option) \<Rightarrow> (network_error \<Rightarrow> bytes) \<Rightarrow> bytes \<Rightarrow> nat
     \<Rightarrow> loop_input list \<Rightarrow> collective_loop \<Rightarrow> loop_status \<times> (nat \<times> frame) list \<times> collective_loop" where
  "run_collective_loop crc wr display uid world_size [] st = (Running, [], st)"
| "run_collective_loop crc wr display uid world_size (inp # inps) st =
     (case collective_step crc wr uid inp st of
        (Running, outs, st') \<Rightarrow>
          (case run_collective_loop crc wr display uid world_size inps st' of
             (status, outs', st'') \<Rightarrow> (status, outs @ outs', st''))
      | r \<Rightarrow> after_loop crc wr display uid world_size r)"

definition collective_loop_new :: "nat \<Rightarrow> u64 \<Rightarrow> protocol_error + collective_loop" where
  "collective_loop_new world_size timeout =
     bind_r (agreement_new world_size) (\<lambda>a.
       Inr \<lparr> cl_agreement = a, cl_requests = replicate world_size None, cl_timeout = timeout,
             cl_active_sequence = ca_next_sequence a \<rparr>)"

section \<open>Invariant\<close>

definition loop_inv :: "(bytes \<Rightarrow> u32) \<Rightarrow> nat \<Rightarrow> collective_loop \<Rightarrow> bool" where
  "loop_inv crc w st \<longleftrightarrow>
     agreement_inv (cl_agreement st) \<and> voted_ranks (cl_agreement st) = {} \<and>
     ca_world_size (cl_agreement st) = w \<and> length (cl_requests st) = w \<and> None \<in> set (cl_requests st) \<and>
     (\<forall>f. Some f \<in> set (cl_requests st) \<longrightarrow> frame_wf crc f) \<and>
     cl_active_sequence st = ca_next_sequence (cl_agreement st)"

definition input_wf :: "(bytes \<Rightarrow> u32) \<Rightarrow> loop_input \<Rightarrow> bool" where
  "input_wf crc inp \<longleftrightarrow> (\<forall>rank f m. inp = LoopEvent (EvFrame rank f) m \<longrightarrow> frame_wf crc f)"

lemma collective_loop_new_inv:
  assumes "collective_loop_new w timeout = Inr st"
  shows "loop_inv crc w st" "ca_next_sequence (cl_agreement st) = 0" "cl_requests st = replicate w None"
proof -
  from assms obtain a where a: "agreement_new w = Inr a" "cl_agreement st = a" "cl_requests st = replicate w None"
    "cl_active_sequence st = ca_next_sequence a" by (auto simp: collective_loop_new_def bind_r_eq_Inr)
  then have "0 < w" by (auto simp: agreement_new_def split: if_splits)
  with a agreement_new_inv[OF a(1)]
  show "loop_inv crc w st" "ca_next_sequence (cl_agreement st) = 0" "cl_requests st = replicate w None"
    by (auto simp: loop_inv_def in_set_replicate)
qed

lemma write_responses_None:
  "write_responses wr xs = (None, outs) \<Longrightarrow> outs = xs \<and> (\<forall>(rank, f) \<in> set xs. wr rank f = None)"
  by (induction xs arbitrary: outs) (auto split: option.splits prod.splits)

lemma write_responses_ok: "(\<And>rank f. (rank, f) \<in> set xs \<Longrightarrow> wr rank f = None) \<Longrightarrow> write_responses wr xs = (None, xs)"
  by (induction xs) (auto split: prod.splits)

lemma finish_round_Running:
  assumes inv: "agreement_inv (cl_agreement st)" "voted_ranks (cl_agreement st) = {}"
      "ca_world_size (cl_agreement st) = length requests"
    and wf: "\<forall>f \<in> set requests. frame_wf crc f" "unique_id_ok uid" "requests \<noteq> []"
    and seqn: "unat (ca_next_sequence (cl_agreement st)) + 1 < 2 ^ 64"
    and run: "finish_round crc wr uid requests st = (Running, outs, st')"
  shows "loop_inv crc (length requests) st' \<and> cl_requests st' = replicate (length requests) None \<and>
     ca_next_sequence (cl_agreement st') = ca_next_sequence (cl_agreement st) + 1 \<and>
     map fst outs = [0..<length requests] \<and>
     (\<forall>(rank, f) \<in> set outs. response_for crc uid (fh_opcode (f_header (hd requests)))
        (ca_next_sequence (cl_agreement st)) (length requests) rank f)"
proof -
  let ?s = "ca_next_sequence (cl_agreement st)"
  obtain responses a where r: "validate_and_route crc (cl_agreement st) uid ?s requests = (Inr responses, a)"
    "write_responses wr (enumerate 0 responses) = (None, outs)" "cl_agreement st' = a"
    "cl_requests st' = replicate (length requests) None" "cl_active_sequence st' = ca_next_sequence a"
    using run by (auto simp: finish_round_def Let_def split: prod.splits sum.splits option.splits)
  from r(1) obtain request rest where v: "requests = request # rest"
    "agree_requests uid ?s (length requests) (enumerate 0 requests) (cl_agreement st) = (Inr (), a)"
    "route_opcode crc uid ?s requests (f_header request) (byte_width (fh_element_type (f_header request)))
       (unat (fh_element_count (f_header request)))
       (unat (fh_element_count (f_header request)) * byte_width (fh_element_type (f_header request)))
       = Inr responses" by (rule validate_and_route_Inr)
  note A = round_agreement[OF inv(1,2) inv(3)[symmetric] refl seqn v(2)]
  have small: "\<forall>f \<in> set requests. length (f_payload f) < 2 ^ 64"
    using wf(1) frame_wf_payload_small by blast
  note R = route_opcode_ok[OF v(3) wf(2) small]
  have outs: "outs = enumerate 0 responses" using write_responses_None[OF r(2)] by simp
  have "response_for crc uid (fh_opcode (f_header (hd requests))) ?s (length requests) rank f"
    if "(rank, f) \<in> set outs" for rank f
    using R that v(1) by (auto simp: outs responses_ok_def in_set_enumerate_eq)
  moreover have "map fst outs = [0..<length requests]"
    using R by (simp add: outs responses_ok_def map_fst_enumerate)
  ultimately show ?thesis
    using A r(3-5) wf(3) inv(3) by (auto simp: loop_inv_def in_set_replicate)
qed

lemma collective_step_inv:
  assumes inv: "loop_inv crc w st" and inp: "input_wf crc inp" and uid: "unique_id_ok uid"
    and seqn: "unat (ca_next_sequence (cl_agreement st)) + 1 < 2 ^ 64"
    and run: "collective_step crc wr uid inp st = (Running, outs, st')"
  shows "loop_inv crc w st' \<and>
     (outs = [] \<and> ca_next_sequence (cl_agreement st') = ca_next_sequence (cl_agreement st) \<or>
      map fst outs = [0..<w] \<and> cl_requests st' = replicate w None \<and>
      ca_next_sequence (cl_agreement st') = ca_next_sequence (cl_agreement st) + 1 \<and>
      (\<exists>opc. \<forall>(rank, f) \<in> set outs. response_for crc uid opc (ca_next_sequence (cl_agreement st)) w rank f))"
proof -
  from run obtain rank f m where ev: "inp = LoopEvent (EvFrame rank f) m" "rank < length (cl_requests st)"
      "cl_requests st ! rank = None"
    by (auto simp: collective_step_def Let_def split: loop_input.splits collective_event.splits if_splits option.splits)
  let ?r = "(cl_requests st)[rank := Some f]"
  have wf: "frame_wf crc f" using inp ev(1) by (simp add: input_wf_def)
  show ?thesis
  proof (cases "None \<in> set ?r")
    case True
    then have "outs = []" "st' = st\<lparr> cl_requests := ?r \<rparr>"
      using run ev by (auto simp: collective_step_def Let_def)
    with True inv wf show ?thesis
      using set_update_subset_insert[of "cl_requests st" rank "Some f"] by (auto simp: loop_inv_def)
  next
    case False
    then have fin: "finish_round crc wr uid (map the ?r) (st\<lparr> cl_requests := ?r \<rparr>) = (Running, outs, st')"
      using run ev by (simp add: collective_step_def Let_def)
    have "\<forall>g \<in> set (map the ?r). frame_wf crc g"
    proof
      fix g assume "g \<in> set (map the ?r)"
      then obtain x where x: "x \<in> set ?r" "g = the x" by auto
      with False obtain y where "x = Some y" by (cases x) auto
      with x inv wf set_update_subset_insert[of "cl_requests st" rank "Some f"] show "frame_wf crc g"
        by (auto simp: loop_inv_def)
    qed
    moreover have "map the ?r \<noteq> []" "length (map the ?r) = w" using ev(2) inv by (auto simp: loop_inv_def)
    ultimately show ?thesis
      using finish_round_Running[OF _ _ _ _ uid _ _ fin] inv seqn by (fastforce simp: loop_inv_def)
  qed
qed

section \<open>Order of arrival\<close>

abbreviation arrivals :: "frame list \<Rightarrow> nat list \<Rightarrow> loop_input list" where
  "arrivals fs order \<equiv> map (\<lambda>rank. LoopEvent (EvFrame rank (fs ! rank)) None) order"

definition place :: "frame list \<Rightarrow> nat list \<Rightarrow> frame option list \<Rightarrow> frame option list" where
  "place fs order requests = fold (\<lambda>rank rs. rs[rank := Some (fs ! rank)]) order requests"

lemma length_place [simp]: "length (place fs order requests) = length requests"
  by (induction order arbitrary: requests) (simp_all add: place_def)

lemma place_nth:
  "rank < length requests \<Longrightarrow>
     place fs order requests ! rank = (if rank \<in> set order then Some (fs ! rank) else requests ! rank)"
  by (induction order arbitrary: requests) (auto simp: place_def nth_list_update)

lemma run_arrivals:
  assumes "order \<noteq> []" "distinct order"
    and "\<forall>rank \<in> set order. rank < length (cl_requests st) \<and> cl_requests st ! rank = None"
    and "None \<notin> set (place fs order (cl_requests st))"
  shows "run_collective_loop crc wr display uid w (arrivals fs order) st =
     after_loop crc wr display uid w
       (finish_round crc wr uid (map the (place fs order (cl_requests st)))
          (st\<lparr> cl_requests := place fs order (cl_requests st) \<rparr>))"
  using assms
proof (induction order arbitrary: st)
  case (Cons rank rest)
  let ?r = "(cl_requests st)[rank := Some (fs ! rank)]"
  have pl: "place fs (rank # rest) (cl_requests st) = place fs rest ?r" by (simp add: place_def)
  show ?case
  proof (cases "rest = []")
    case True
    with Cons.prems have "None \<notin> set ?r" by (simp add: place_def)
    with Cons.prems True show ?thesis
      by (auto simp: collective_step_def Let_def pl place_def split: prod.splits loop_status.splits)
  next
    case False
    have pre: "\<forall>x \<in> set rest. x < length (cl_requests (st\<lparr> cl_requests := ?r \<rparr>)) \<and>
        cl_requests (st\<lparr> cl_requests := ?r \<rparr>) ! x = None"
      using Cons.prems(2,3) by (auto simp: nth_list_update)
    moreover have "hd rest \<in> set rest" using False by simp
    ultimately have "None \<in> set ?r" by (metis collective_loop.select_convs(2) collective_loop.update_convs(2) collective_loop.surjective nth_mem)
    then have step: "collective_step crc wr uid (LoopEvent (EvFrame rank (fs ! rank)) None) st =
        (Running, [], st\<lparr> cl_requests := ?r \<rparr>)"
      using Cons.prems(3) by (simp add: collective_step_def Let_def)
    have "None \<notin> set (place fs rest (cl_requests (st\<lparr> cl_requests := ?r \<rparr>)))"
      using Cons.prems(4) pl by simp
    from Cons.IH[OF False _ pre this] Cons.prems(2) show ?thesis
      by (simp add: step pl split: prod.splits)
  qed
qed simp

lemma place_all:
  assumes "length fs = w" "set order = {..<w}"
  shows "place fs order (replicate w None) = map Some fs"
  using assms by (intro nth_equalityI) (simp_all add: place_nth)

lemma in_set_not_Nil: "x \<in> set xs \<Longrightarrow> xs \<noteq> []"
  by (cases xs) simp_all

section \<open>Aborts\<close>

lemma abort_frame_succeeds:
  assumes "rank < w" "w < 2 ^ 32" "length message \<le> 2 ^ 30"
  shows "\<exists>f. abort_frame crc uid seqn (of_nat rank) (of_nat w) message = Inr f"
proof -
  have w: "unat (of_nat w :: u32) = w" "unat (of_nat rank :: u32) = rank"
    using assms(1,2) by (simp_all add: unat_of_nat take_bit_nat_eq_self)
  have c: "unat (of_nat (length message) :: u64) = length message"
    using assms(3) by (simp add: unat_of_nat take_bit_nat_eq_self)
  let ?h = "(collective_header crc uid Abort U8 0 ANY_RANK (of_nat w) seqn (of_nat (length message)))
      \<lparr> fh_destination_rank := of_nat rank \<rparr>"
  show ?thesis
  proof (cases "message = []")
    case True
    have "header_wf ?h"
      unfolding header_wf_def collective_header_def using w assms(1) True by (simp add: word_less_nat_alt)
    then have "validate crc ?h None = Inr ()" by (simp add: validate_ok_iff)
    then have "validate crc ?h (Some []) = Inr ()"
      by (simp add: validate_Some validate_payload_ok collective_header_def)
    with True show ?thesis by (simp add: abort_frame_def frame_new_def)
  next
    case False
    then have ne: "(of_nat (length message) :: u64) \<noteq> 0" using c by (metis length_0_conv unat_0)
    let ?h' = "?h\<lparr> fh_flags := fh_flags ?h OR FLAG_PAYLOAD, fh_payload_bytes := of_nat (length message),
        fh_payload_checksum := crc message \<rparr>"
    have "header_wf ?h'"
      unfolding header_wf_def collective_header_def
      using w assms(1,3) c ne by (auto simp: word_less_nat_alt FLAG_PAYLOAD_def)
    then have "validate crc ?h' None = Inr ()" by (simp add: validate_ok_iff)
    then show ?thesis
      using False assms(3) by (simp add: abort_frame_def frame_new_def with_payload_def MAX_FRAME_PAYLOAD_BYTES_def)
  qed
qed

lemma abort_broadcast:
  assumes "rank < w" "w < 2 ^ 32" "length message \<le> 2 ^ 30" "\<And>f. wr rank f = None"
  shows "\<exists>f. (rank, f) \<in> set (broadcast_collective_abort crc wr uid seqn w message) \<and>
     fh_opcode (f_header f) = Abort \<and> fh_sequence (f_header f) = seqn \<and>
     fh_destination_rank (f_header f) = of_nat rank \<and> f_payload f = message"
proof -
  obtain f where f: "abort_frame crc uid seqn (of_nat rank) (of_nat w) message = Inr f"
    using abort_frame_succeeds[OF assms(1-3)] by blast
  then have "(rank, f) \<in> set (broadcast_collective_abort crc wr uid seqn w message)"
    using assms(1,4) by (auto simp: broadcast_collective_abort_def intro!: bexI[of _ rank])
  moreover have "fh_opcode (f_header f) = Abort" "fh_sequence (f_header f) = seqn"
    "fh_destination_rank (f_header f) = of_nat rank" "f_payload f = message"
    using f frame_new_fields by (fastforce simp: abort_frame_def collective_header_def)+
  ultimately show ?thesis by blast
qed

lemma run_error_abort:
  assumes "run_collective_loop crc wr display uid w inps st = (Finished (Inl (Fault e)), outs, st')"
  shows "\<exists>outs'. outs = outs' @ broadcast_collective_abort crc wr uid (cl_active_sequence st') w (display e)"
  using assms
proof (induction inps arbitrary: st outs)
  case (Cons inp inps)
  obtain status o1 s1 where r: "collective_step crc wr uid inp st = (status, o1, s1)" by (metis prod_cases3)
  show ?case
  proof (cases status)
    case Running
    with r Cons.prems obtain o2 where "run_collective_loop crc wr display uid w inps s1 = (Finished (Inl (Fault e)), o2, st')"
      "outs = o1 @ o2" by (auto split: prod.splits)
    with Cons.IH show ?thesis by (metis append.assoc)
  next
    case (Finished x)
    with r Cons.prems show ?thesis by (cases x; cases "projl x") auto
  qed
qed simp

section \<open>Properties\<close>


definition sample_loop :: collective_loop where
  "sample_loop = \<lparr> cl_agreement = sample_agreement, cl_requests = [None, None], cl_timeout = 1000, cl_active_sequence = 0 \<rparr>"

lemma sample_loop_inv: "loop_inv crc 2 sample_loop"
  using sample_agreement_ok by (simp add: loop_inv_def sample_loop_def sample_agreement_def)


text \<open>C16. The outcome of a round does not depend on the order in which the requests arrive: from a
  state with no request pending, every arrival order of the same frames, one per rank, gives the same
  status, the same frames on the same connections in the same order, and the same state, namely those
  of routing the requests in rank order.\<close>

theorem round_independent_of_arrival_order:
  assumes "cl_requests st = replicate w None" "length fs = w" "0 < w"
    and "distinct order" "set order = {..<w}"
  shows "run_collective_loop crc wr display uid w (arrivals fs order) st =
     after_loop crc wr display uid w (finish_round crc wr uid fs (st\<lparr> cl_requests := map Some fs \<rparr>))"
proof -
  have "place fs order (cl_requests st) = map Some fs" using place_all[OF assms(2,5)] assms(1) by simp
  moreover have "0 \<in> set order" using assms(3) unfolding assms(5) by simp
  then have "order \<noteq> []" by (rule in_set_not_Nil)
  moreover have "map the (map Some fs) = fs" by (simp add: comp_def)
  moreover have "\<forall>rank \<in> set order. rank < length (cl_requests st) \<and> cl_requests st ! rank = None"
    using assms(1,5) by simp
  ultimately show ?thesis
    using run_arrivals[OF _ assms(4), of st fs crc wr display uid w] by (simp only: set_map) auto
qed

theorem round_independent_of_arrival_order_witness:
  "run_collective_loop (\<lambda>_. 0) (\<lambda>_ _. None) (\<lambda>_. []) (replicate 16 0) 2 (arrivals sample_requests [1, 0]) sample_loop =
   after_loop (\<lambda>_. 0) (\<lambda>_ _. None) (\<lambda>_. []) (replicate 16 0) 2
     (finish_round (\<lambda>_. 0) (\<lambda>_ _. None) (replicate 16 0) sample_requests
        (sample_loop\<lparr> cl_requests := map Some sample_requests \<rparr>))"
  by (rule round_independent_of_arrival_order) (auto simp: sample_loop_def sample_requests_def numeral_2_eq_2)

text \<open>C17. When the loop ends with an error, every rank whose connection accepts writes is told: it is
  sent an \<open>ABORT\<close> frame of the active sequence, addressed to it, that carries the error text.\<close>

theorem loop_error_reaches_every_rank:
  assumes "run_collective_loop crc wr display uid w inps st = (Finished (Inl (Fault e)), outs, st')"
    and "rank < w" "w < 2 ^ 32" "length (display e) \<le> 2 ^ 30" "\<forall>f. wr rank f = None"
  shows "\<exists>f. (rank, f) \<in> set outs \<and> fh_opcode (f_header f) = Abort \<and>
     fh_sequence (f_header f) = cl_active_sequence st' \<and>
     fh_destination_rank (f_header f) = of_nat rank \<and> f_payload f = display e"
proof -
  obtain outs' where o: "outs = outs' @ broadcast_collective_abort crc wr uid (cl_active_sequence st') w (display e)"
    using run_error_abort[OF assms(1)] by blast
  from abort_broadcast[OF assms(2-4), of wr crc uid "cl_active_sequence st'"] assms(5) show ?thesis
    unfolding o by auto
qed

theorem loop_error_reaches_every_rank_witness:
  "\<exists>outs st' f. run_collective_loop (\<lambda>_. 0) (\<lambda>_ _. None) (\<lambda>_. [1]) (replicate 16 0) 2 [LoopDisconnected] sample_loop
     = (Finished (Inl (Fault ChannelClosed)), outs, st') \<and> (1, f) \<in> set outs \<and> f_payload f = [1]"
proof -
  obtain outs st' where r: "run_collective_loop (\<lambda>_. 0) (\<lambda>_ _. None) (\<lambda>_. [1]) (replicate 16 0) 2 [LoopDisconnected] sample_loop
     = (Finished (Inl (Fault ChannelClosed)), outs, st')" by (simp add: collective_step_def)
  from loop_error_reaches_every_rank[OF r, of 1] r show ?thesis by auto
qed

end
