(* ===== verification/Topology.thy ===== *)
theory Topology
  imports Frame_Stream
begin

text \<open>
  The link model of the collective planner, from \<^verbatim>\<open>src/rank/topology.rs\<close>: the matrices of
  \<open>CollectiveTopology\<close>, the operations that add and list links, and the validators of ring orders,
  rail orders, channel counts and hierarchy groups. Ranks, bandwidths and latencies are natural
  numbers; every operation that could leave their machine width is written with its saturation.

  The private accessors index the matrices directly, as the source does; an index out of range is a
  panic there and an unspecified value here, so every lemma about them asks for ranks in range.
\<close>

section \<open>Data\<close>

definition DEFAULT_RING_THRESHOLD_BYTES :: nat where "DEFAULT_RING_THRESHOLD_BYTES = 256 * 1024"
definition DEFAULT_BANDWIDTH_MBPS :: nat where "DEFAULT_BANDWIDTH_MBPS = 32000"
definition DEFAULT_LATENCY_NS :: nat where "DEFAULT_LATENCY_NS = 1000"
definition MAX_RING_CHANNELS :: nat where "MAX_RING_CHANNELS = 64"
definition MAX_P2P_RAILS :: nat where "MAX_P2P_RAILS = 64"

datatype collective_transport = HostStaged | TcpHostStaged | TcpPeer | PciePeer | Rdma | GxLink

datatype topology_error =
    TopoEmptyWorld
  | TopoRankOutOfRange nat nat
  | SelfLink nat
  | ZeroBandwidth nat nat
  | ZeroDirectBandwidth
  | ProfileRead string string
  | InvalidProfile message
  | InvalidRing message
  | InvalidRingChannels nat
  | InvalidP2pRails nat
  | InvalidRailOrder message
  | P2pRailMismatch nat nat
  | TransportMismatch collective_transport collective_transport
  | InvalidHierarchy message
  | InvalidEnvironment string string

record link_cost =
  lc_bandwidth_mbps :: nat
  lc_latency_ns :: nat

record topology_link =
  tl_first_rank :: nat
  tl_second_rank :: nat
  tl_bandwidth_mbps :: nat
  tl_latency_ns :: nat

record topology_rail_link =
  rl_rail :: nat
  rl_first_rank :: nat
  rl_second_rank :: nat
  rl_bandwidth_mbps :: nat
  rl_latency_ns :: nat

record topology_aggregate_link =
  al_first_rank :: nat
  al_second_rank :: nat
  al_bandwidth_mbps :: nat

type_synonym 'a matrix = "'a list list"

record collective_topology =
  ct_world_size :: nat
  ct_links :: "link_cost option matrix"
  ct_rail_links :: "link_cost option matrix list"
  ct_aggregate_links :: "nat option matrix"

text \<open>\<open>m[i][j]\<close>, \<open>m[i][j] = v\<close>, and the two assignments every \<open>add_*\<close> makes.\<close>

definition mget :: "'a matrix \<Rightarrow> nat \<Rightarrow> nat \<Rightarrow> 'a" where
  "mget m i j = m ! i ! j"

definition mset_at :: "'a matrix \<Rightarrow> nat \<Rightarrow> nat \<Rightarrow> 'a \<Rightarrow> 'a matrix" where
  "mset_at m i j v = m[i := (m ! i)[j := v]]"

definition mset_pair :: "'a matrix \<Rightarrow> nat \<Rightarrow> nat \<Rightarrow> 'a \<Rightarrow> 'a matrix" where
  "mset_pair m i j v = mset_at (mset_at m i j v) j i v"

text \<open>\<open>for first in 0..n { for second in first + 1..n {\<close>.\<close>

definition rank_pairs :: "nat \<Rightarrow> (nat \<times> nat) list" where
  "rank_pairs n = concat (map (\<lambda>first. map (Pair first) [first + 1..<n]) [0..<n])"

section \<open>Validators\<close>

definition validate_ring_channels :: "nat \<Rightarrow> topology_error + unit" where
  "validate_ring_channels channels =
     (if channels = 0 \<or> channels > MAX_RING_CHANNELS then Inl (InvalidRingChannels channels) else Inr ())"

definition validate_p2p_rails :: "nat \<Rightarrow> topology_error + unit" where
  "validate_p2p_rails rails =
     (if rails = 0 \<or> rails > MAX_P2P_RAILS then Inl (InvalidP2pRails rails) else Inr ())"

definition topology_validate_rank :: "collective_topology \<Rightarrow> nat \<Rightarrow> topology_error + unit" where
  "topology_validate_rank t rank =
     (if rank \<ge> ct_world_size t then Inl (TopoRankOutOfRange rank (ct_world_size t)) else Inr ())"

text \<open>The loop \<open>for rank in order\<close> over the vector \<open>seen\<close>, shared by the three validators of orders.\<close>

fun mark_seen ::
  "(nat \<Rightarrow> topology_error) \<Rightarrow> (nat \<Rightarrow> topology_error) \<Rightarrow> nat list \<Rightarrow> bool list \<Rightarrow> topology_error + bool list" where
  "mark_seen outside twice [] seen = Inr seen"
| "mark_seen outside twice (rank # rest) seen =
     (if rank \<ge> length seen then Inl (outside rank)
      else if seen ! rank then Inl (twice rank)
      else mark_seen outside twice rest (seen[rank := True]))"

definition validate_ring_order :: "nat \<Rightarrow> nat list \<Rightarrow> topology_error + unit" where
  "validate_ring_order world_size order =
     (if world_size = 0 then Inl TopoEmptyWorld
      else if length order \<noteq> world_size
      then Inl (InvalidRing (Msg ''contains {} ranks, expected {world_size}'' [ANat (length order), ANat world_size]))
      else bind_r (mark_seen (\<lambda>rank. TopoRankOutOfRange rank world_size)
                     (\<lambda>rank. InvalidRing (Msg ''rank {rank} appears more than once'' [ANat rank]))
                     order (replicate world_size False)) (\<lambda>_. Inr ()))"

definition validate_rail_order :: "nat \<Rightarrow> nat list \<Rightarrow> topology_error + unit" where
  "validate_rail_order rail_count order =
     (if length order \<noteq> rail_count
      then Inl (InvalidRailOrder (Msg ''contains {} rails, expected {rail_count}'' [ANat (length order), ANat rail_count]))
      else bind_r (mark_seen
                     (\<lambda>rail. InvalidRailOrder (Msg ''rail {rail} is outside configured rail count {rail_count}''
                        [ANat rail, ANat rail_count]))
                     (\<lambda>rail. InvalidRailOrder (Msg ''rail {rail} appears more than once'' [ANat rail]))
                     order (replicate rail_count False)) (\<lambda>_. Inr ()))"

definition mark_group :: "nat \<Rightarrow> nat \<times> nat list \<Rightarrow> bool list \<Rightarrow> topology_error + bool list" where
  "mark_group world_size ig seen =
     (case ig of (group_index, members) \<Rightarrow>
        if members = [] then Inl (InvalidHierarchy (Msg ''group {group_index} is empty'' [ANat group_index]))
        else mark_seen (\<lambda>rank. TopoRankOutOfRange rank world_size)
               (\<lambda>rank. InvalidHierarchy (Msg ''rank {rank} appears more than once'' [ANat rank])) members seen)"

definition validate_hierarchy_groups :: "nat \<Rightarrow> nat list list \<Rightarrow> topology_error + unit" where
  "validate_hierarchy_groups world_size groups =
     (if length groups < 2
      then Inl (InvalidHierarchy (Msg ''requires at least two non-empty groups'' []))
      else bind_r (fold_r (mark_group world_size) (enumerate 0 groups) (replicate world_size False)) (\<lambda>seen.
        let missing = map fst (filter (\<lambda>(_, included). \<not> included) (enumerate 0 seen))
        in if missing \<noteq> []
           then Inl (InvalidHierarchy (Msg ''does not cover ranks [{}]'' (map ANat missing)))
           else Inr ()))"

section \<open>Building a topology\<close>

definition topology_empty :: "nat \<Rightarrow> topology_error + collective_topology" where
  "topology_empty world_size =
     (if world_size = 0 then Inl TopoEmptyWorld
      else Inr \<lparr> ct_world_size = world_size,
                 ct_links = replicate world_size (replicate world_size None),
                 ct_rail_links = [],
                 ct_aggregate_links = replicate world_size (replicate world_size None) \<rparr>)"

text \<open>The checks that \<open>add_link\<close>, \<open>add_rail_link\<close> and \<open>add_aggregate_link\<close> make in the same order.\<close>

definition check_link :: "collective_topology \<Rightarrow> nat \<Rightarrow> nat \<Rightarrow> nat \<Rightarrow> topology_error + unit" where
  "check_link t first second bandwidth =
     bind_r (topology_validate_rank t first) (\<lambda>_.
     bind_r (topology_validate_rank t second) (\<lambda>_.
       if first = second then Inl (SelfLink first)
       else if bandwidth = 0 then Inl (ZeroBandwidth first second)
       else Inr ()))"

definition add_link :: "topology_link \<Rightarrow> collective_topology \<Rightarrow> topology_error + collective_topology" where
  "add_link l t =
     bind_r (check_link t (tl_first_rank l) (tl_second_rank l) (tl_bandwidth_mbps l)) (\<lambda>_.
       let cost = Some \<lparr> lc_bandwidth_mbps = tl_bandwidth_mbps l, lc_latency_ns = tl_latency_ns l \<rparr>
       in Inr (t\<lparr> ct_links := mset_pair (ct_links t) (tl_first_rank l) (tl_second_rank l) cost \<rparr>))"

text \<open>\<open>while self.rail_links.len() <= link.rail\<close>: pushes empty matrices until the rail exists.\<close>

definition extend_rails :: "nat \<Rightarrow> nat \<Rightarrow> link_cost option matrix list \<Rightarrow> link_cost option matrix list" where
  "extend_rails n rail ms = ms @ replicate (Suc rail - length ms) (replicate n (replicate n None))"

definition add_rail_link ::
  "topology_rail_link \<Rightarrow> collective_topology \<Rightarrow> topology_error + collective_topology" where
  "add_rail_link l t =
     bind_r (validate_p2p_rails (saturating_add 64 (rl_rail l) 1)) (\<lambda>_.
     bind_r (check_link t (rl_first_rank l) (rl_second_rank l) (rl_bandwidth_mbps l)) (\<lambda>_.
       let ms = extend_rails (ct_world_size t) (rl_rail l) (ct_rail_links t);
           cost = Some \<lparr> lc_bandwidth_mbps = rl_bandwidth_mbps l, lc_latency_ns = rl_latency_ns l \<rparr>
       in Inr (t\<lparr> ct_rail_links :=
            ms[rl_rail l := mset_pair (ms ! rl_rail l) (rl_first_rank l) (rl_second_rank l) cost] \<rparr>)))"

definition add_aggregate_link ::
  "topology_aggregate_link \<Rightarrow> collective_topology \<Rightarrow> topology_error + collective_topology" where
  "add_aggregate_link l t =
     bind_r (check_link t (al_first_rank l) (al_second_rank l) (al_bandwidth_mbps l)) (\<lambda>_.
       Inr (t\<lparr> ct_aggregate_links :=
         mset_pair (ct_aggregate_links t) (al_first_rank l) (al_second_rank l) (Some (al_bandwidth_mbps l)) \<rparr>))"

definition topology_uniform :: "nat \<Rightarrow> topology_error + collective_topology" where
  "topology_uniform world_size =
     (if world_size = 0 then Inl TopoEmptyWorld
      else bind_r (topology_empty world_size) (fold_r (\<lambda>(first, second).
             add_link \<lparr> tl_first_rank = first, tl_second_rank = second,
                        tl_bandwidth_mbps = DEFAULT_BANDWIDTH_MBPS, tl_latency_ns = DEFAULT_LATENCY_NS \<rparr>)
             (rank_pairs world_size)))"

section \<open>Reading a topology\<close>

definition link :: "collective_topology \<Rightarrow> nat \<Rightarrow> nat \<Rightarrow> link_cost option" where
  "link t first second = mget (ct_links t) first second"

definition link_on_rail :: "collective_topology \<Rightarrow> nat \<Rightarrow> nat \<Rightarrow> nat \<Rightarrow> link_cost option" where
  "link_on_rail t first second rail =
     (case (if rail < length (ct_rail_links t) then mget (ct_rail_links t ! rail) first second else None) of
        Some cost \<Rightarrow> Some cost
      | None \<Rightarrow> link t first second)"

definition aggregate_bandwidth_mbps :: "collective_topology \<Rightarrow> nat \<Rightarrow> nat \<Rightarrow> nat option" where
  "aggregate_bandwidth_mbps t first second = mget (ct_aggregate_links t) first second"

definition topology_links :: "collective_topology \<Rightarrow> topology_link list" where
  "topology_links t = List.map_filter (\<lambda>(first, second).
     map_option (\<lambda>l. \<lparr> tl_first_rank = first, tl_second_rank = second,
         tl_bandwidth_mbps = lc_bandwidth_mbps l, tl_latency_ns = lc_latency_ns l \<rparr>) (link t first second))
     (rank_pairs (ct_world_size t))"

definition topology_rail_links :: "collective_topology \<Rightarrow> topology_rail_link list" where
  "topology_rail_links t = concat (map (\<lambda>(rail, m). List.map_filter (\<lambda>(first, second).
       map_option (\<lambda>l. \<lparr> rl_rail = rail, rl_first_rank = first, rl_second_rank = second,
           rl_bandwidth_mbps = lc_bandwidth_mbps l, rl_latency_ns = lc_latency_ns l \<rparr>) (mget m first second))
       (rank_pairs (ct_world_size t)))
     (enumerate 0 (ct_rail_links t)))"

definition topology_aggregate_links :: "collective_topology \<Rightarrow> topology_aggregate_link list" where
  "topology_aggregate_links t = List.map_filter (\<lambda>(first, second).
     map_option (\<lambda>b. \<lparr> al_first_rank = first, al_second_rank = second, al_bandwidth_mbps = b \<rparr>)
       (aggregate_bandwidth_mbps t first second))
     (rank_pairs (ct_world_size t))"

section \<open>Comparing a probed topology with a recorded one\<close>

definition metric_within_factor :: "nat \<Rightarrow> nat \<Rightarrow> nat \<Rightarrow> bool" where
  "metric_within_factor first second factor =
     (if first = 0 \<or> second = 0 then first = second
      else let (smaller, larger) = (if first < second then (first, second) else (second, first))
           in larger \<le> saturating_mul 64 smaller factor)"

fun cost_matches :: "link_cost option \<Rightarrow> link_cost option \<Rightarrow> bool" where
  "cost_matches None None = True"
| "cost_matches (Some current) (Some detected) =
     (metric_within_factor (lc_bandwidth_mbps current) (lc_bandwidth_mbps detected) 4 \<and>
      metric_within_factor (lc_latency_ns current) (lc_latency_ns detected) 4)"
| "cost_matches _ _ = False"

fun bandwidth_matches :: "nat option \<Rightarrow> nat option \<Rightarrow> bool" where
  "bandwidth_matches None None = True"
| "bandwidth_matches (Some current) (Some detected) = metric_within_factor current detected 4"
| "bandwidth_matches _ _ = False"

definition matrices_match :: "('a \<Rightarrow> 'a \<Rightarrow> bool) \<Rightarrow> nat \<Rightarrow> 'a matrix \<Rightarrow> 'a matrix \<Rightarrow> bool" where
  "matrices_match p n current detected =
     list_all (\<lambda>(first, second). p (mget current first second) (mget detected first second)) (rank_pairs n)"

definition probed_topology_matches :: "collective_topology \<Rightarrow> collective_topology \<Rightarrow> bool" where
  "probed_topology_matches current detected =
     (if ct_world_size current \<noteq> ct_world_size detected then False
      else if \<not> matrices_match cost_matches (ct_world_size current) (ct_links current) (ct_links detected) then False
      else if length (ct_rail_links current) \<noteq> length (ct_rail_links detected) then False
      else if \<not> list_all (\<lambda>(current_links, detected_links).
                 matrices_match cost_matches (ct_world_size current) current_links detected_links)
               (zip (ct_rail_links current) (ct_rail_links detected)) then False
      else matrices_match bandwidth_matches (ct_world_size current)
             (ct_aggregate_links current) (ct_aggregate_links detected))"

section \<open>Matrices\<close>

definition square :: "nat \<Rightarrow> 'a matrix \<Rightarrow> bool" where
  "square n m \<longleftrightarrow> length m = n \<and> (\<forall>row \<in> set m. length row = n)"

text \<open>What every link matrix keeps: square, symmetric, empty on the diagonal, entries that satisfy \<open>p\<close>.\<close>

definition matrix_ok :: "nat \<Rightarrow> ('a \<Rightarrow> bool) \<Rightarrow> 'a option matrix \<Rightarrow> bool" where
  "matrix_ok n p m \<longleftrightarrow> square n m \<and> (\<forall>i < n. mget m i i = None) \<and>
     (\<forall>i < n. \<forall>j < n. mget m i j = mget m j i \<and> (\<forall>v. mget m i j = Some v \<longrightarrow> p v))"

lemma square_row: "square n m \<Longrightarrow> i < n \<Longrightarrow> length (m ! i) = n"
  by (simp add: square_def)

lemma square_mset_at: "square n m \<Longrightarrow> square n (mset_at m i j v)"
proof -
  assume m: "square n m"
  show "square n (mset_at m i j v)"
  proof (cases "i < n")
    case True
    have "length row = n" if "row \<in> set (m[i := (m ! i)[j := v]])" for row
      using that True m set_update_subset_insert[of m i "(m ! i)[j := v]"] by (auto simp: square_def)
    with m show ?thesis by (simp add: square_def mset_at_def)
  qed (use m in \<open>simp add: square_def mset_at_def list_update_beyond\<close>)
qed

lemma mget_mset_at:
  assumes "square n m" "i < n" "j < n"
  shows "mget (mset_at m i j v) a b = (if a = i \<and> b = j then v else mget m a b)"
proof -
  have "length m = n" "length (m ! i) = n" using assms by (simp_all add: square_def)
  then show ?thesis using assms(2,3) by (auto simp: mget_def mset_at_def nth_list_update)
qed

lemma square_mset_pair [simp]: "square n m \<Longrightarrow> square n (mset_pair m i j v)"
  by (simp add: mset_pair_def square_mset_at)

lemma mget_mset_pair:
  assumes "square n m" "i < n" "j < n"
  shows "mget (mset_pair m i j v) a b = (if a = i \<and> b = j \<or> a = j \<and> b = i then v else mget m a b)"
proof -
  have "mget (mset_pair m i j v) a b = (if a = j \<and> b = i then v else mget (mset_at m i j v) a b)"
    unfolding mset_pair_def by (rule mget_mset_at[OF square_mset_at[OF assms(1)] assms(3,2)])
  also have "mget (mset_at m i j v) a b = (if a = i \<and> b = j then v else mget m a b)"
    by (rule mget_mset_at[OF assms])
  finally show ?thesis by (simp only: split: if_split) blast
qed

lemma matrix_eqI:
  assumes "square n m" "square n m'" "\<And>i j. i < n \<Longrightarrow> j < n \<Longrightarrow> mget m i j = mget m' i j"
  shows "m = m'"
proof (rule nth_equalityI)
  show "length m = length m'" using assms(1,2) by (simp add: square_def)
  fix i assume "i < length m"
  then have i: "i < n" using assms(1) by (simp add: square_def)
  show "m ! i = m' ! i"
    by (rule nth_equalityI) (use assms i in \<open>simp_all add: square_row mget_def\<close>)
qed

lemma square_empty [simp]: "square n (replicate n (replicate n x))"
  by (simp add: square_def)

lemma mget_empty [simp]: "i < n \<Longrightarrow> j < n \<Longrightarrow> mget (replicate n (replicate n x)) i j = x"
  by (simp add: mget_def)

lemma matrix_ok_empty [simp]: "matrix_ok n p (replicate n (replicate n None))"
  by (simp add: matrix_ok_def)

lemma matrix_ok_mset_pair:
  assumes "matrix_ok n p m" "i < n" "j < n" "i \<noteq> j" "p v"
  shows "matrix_ok n p (mset_pair m i j (Some v))"
proof -
  have sq: "square n m" using assms(1) by (simp add: matrix_ok_def)
  show ?thesis using assms unfolding matrix_ok_def
    by (auto simp: mget_mset_pair[OF sq assms(2,3)])
qed

lemma in_rank_pairs: "(i, j) \<in> set (rank_pairs n) \<longleftrightarrow> i < j \<and> j < n"
  by (auto simp: rank_pairs_def image_iff)

text \<open>A symmetric matrix is rebuilt by setting the pairs above its diagonal, in any order.\<close>

lemma fold_mset_pair:
  assumes "matrix_ok n p m0" "square n m" "\<forall>(i, j) \<in> set ps. i < n \<and> j < n"
  shows "square n (fold (\<lambda>(i, j) m. case mget m0 i j of None \<Rightarrow> m | Some v \<Rightarrow> mset_pair m i j (Some v)) ps m) \<and>
    (\<forall>a < n. \<forall>b < n. mget (fold (\<lambda>(i, j) m. case mget m0 i j of None \<Rightarrow> m | Some v \<Rightarrow> mset_pair m i j (Some v)) ps m) a b =
       (if ((a, b) \<in> set ps \<or> (b, a) \<in> set ps) \<and> mget m0 a b \<noteq> None then mget m0 a b else mget m a b))"
  using assms(2,3)
proof (induction ps arbitrary: m)
  case (Cons x ps)
  obtain i j where x: "x = (i, j)" by force
  with Cons.prems have ij: "i < n" "j < n" by auto
  have sym: "mget m0 a b = mget m0 b a" if "a < n" "b < n" for a b
    using assms(1) that by (simp add: matrix_ok_def)
  show ?case
  proof (cases "mget m0 i j")
    case None
    with Cons x show ?thesis using sym[OF ij] by auto
  next
    case (Some v)
    then have sv: "mget m0 j i = Some v" using sym[OF ij] by simp
    have sq: "square n (mset_pair m i j (Some v))" using Cons.prems(1) by simp
    from Cons.IH[OF sq] Cons.prems(2) x Some sv show ?thesis
      by (auto simp: mget_mset_pair[OF Cons.prems(1) ij])
  qed
qed simp

lemma rebuild_matrix:
  assumes "matrix_ok n p m0"
  shows "fold (\<lambda>(i, j) m. case mget m0 i j of None \<Rightarrow> m | Some v \<Rightarrow> mset_pair m i j (Some v))
           (rank_pairs n) (replicate n (replicate n None)) = m0"
proof (rule matrix_eqI)
  have ps: "\<forall>(i, j) \<in> set (rank_pairs n). i < n \<and> j < n" by (auto simp: in_rank_pairs)
  note F = fold_mset_pair[OF assms square_empty ps, of None]
  show "square n (fold (\<lambda>(i, j) m. case mget m0 i j of None \<Rightarrow> m | Some v \<Rightarrow> mset_pair m i j (Some v))
      (rank_pairs n) (replicate n (replicate n None)))" using F by blast
  show "square n m0" using assms by (simp add: matrix_ok_def)
  fix i j assume ij: "i < n" "j < n"
  have "mget m0 i i = None" using assms ij by (simp add: matrix_ok_def)
  then show "mget (fold (\<lambda>(i, j) m. case mget m0 i j of None \<Rightarrow> m | Some v \<Rightarrow> mset_pair m i j (Some v))
      (rank_pairs n) (replicate n (replicate n None))) i j = mget m0 i j"
    using F ij by (cases i j rule: linorder_cases) (auto simp: in_rank_pairs)
qed

section \<open>Invariant of a topology\<close>

definition topology_ok :: "collective_topology \<Rightarrow> bool" where
  "topology_ok t \<longleftrightarrow>
     0 < ct_world_size t \<and>
     matrix_ok (ct_world_size t) (\<lambda>l. 0 < lc_bandwidth_mbps l) (ct_links t) \<and>
     length (ct_rail_links t) \<le> MAX_P2P_RAILS \<and>
     (\<forall>m \<in> set (ct_rail_links t). matrix_ok (ct_world_size t) (\<lambda>l. 0 < lc_bandwidth_mbps l) m) \<and>
     (ct_rail_links t \<noteq> [] \<longrightarrow>
        (\<exists>i < ct_world_size t. \<exists>j < ct_world_size t. mget (last (ct_rail_links t)) i j \<noteq> None)) \<and>
     matrix_ok (ct_world_size t) (\<lambda>b. 0 < b) (ct_aggregate_links t)"

lemma check_link_ok:
  "check_link t a b w = Inr () \<longleftrightarrow> a < ct_world_size t \<and> b < ct_world_size t \<and> a \<noteq> b \<and> 0 < w"
  by (auto simp: check_link_def topology_validate_rank_def bind_r_def)

lemma topology_empty_ok: "topology_empty n = Inr t \<Longrightarrow> topology_ok t \<and> ct_world_size t = n"
  by (auto simp: topology_empty_def topology_ok_def split: if_splits)

lemma add_link_Inr:
  "add_link l t = Inr t' \<longleftrightarrow> check_link t (tl_first_rank l) (tl_second_rank l) (tl_bandwidth_mbps l) = Inr () \<and>
     t' = t\<lparr> ct_links := mset_pair (ct_links t) (tl_first_rank l) (tl_second_rank l)
       (Some \<lparr> lc_bandwidth_mbps = tl_bandwidth_mbps l, lc_latency_ns = tl_latency_ns l \<rparr>) \<rparr>"
  by (auto simp: add_link_def bind_r_eq_Inr Let_def)

lemma add_link_ok: "topology_ok t \<Longrightarrow> add_link l t = Inr t' \<Longrightarrow> topology_ok t' \<and> ct_world_size t' = ct_world_size t"
  by (auto simp: add_link_Inr check_link_ok topology_ok_def intro!: matrix_ok_mset_pair)

lemma add_aggregate_link_Inr:
  "add_aggregate_link l t = Inr t' \<longleftrightarrow>
     check_link t (al_first_rank l) (al_second_rank l) (al_bandwidth_mbps l) = Inr () \<and>
     t' = t\<lparr> ct_aggregate_links := mset_pair (ct_aggregate_links t) (al_first_rank l) (al_second_rank l)
       (Some (al_bandwidth_mbps l)) \<rparr>"
  by (auto simp: add_aggregate_link_def bind_r_eq_Inr)

lemma add_aggregate_link_ok:
  "topology_ok t \<Longrightarrow> add_aggregate_link l t = Inr t' \<Longrightarrow> topology_ok t' \<and> ct_world_size t' = ct_world_size t"
  by (auto simp: add_aggregate_link_Inr check_link_ok topology_ok_def intro!: matrix_ok_mset_pair)

lemma extend_rails_nth:
  "rail < length (extend_rails n rail ms)"
  "i < length ms \<Longrightarrow> extend_rails n rail ms ! i = ms ! i"
  "length ms \<le> i \<Longrightarrow> i \<le> rail \<Longrightarrow> extend_rails n rail ms ! i = replicate n (replicate n None)"
  by (auto simp: extend_rails_def nth_append)

lemma length_extend_rails: "length (extend_rails n rail ms) = max (length ms) (Suc rail)"
  by (simp add: extend_rails_def)

lemma add_rail_link_Inr:
  "add_rail_link l t = Inr t' \<longleftrightarrow> rl_rail l < MAX_P2P_RAILS \<and>
     check_link t (rl_first_rank l) (rl_second_rank l) (rl_bandwidth_mbps l) = Inr () \<and>
     t' = t\<lparr> ct_rail_links := (extend_rails (ct_world_size t) (rl_rail l) (ct_rail_links t))
       [rl_rail l := mset_pair (extend_rails (ct_world_size t) (rl_rail l) (ct_rail_links t) ! rl_rail l)
          (rl_first_rank l) (rl_second_rank l)
          (Some \<lparr> lc_bandwidth_mbps = rl_bandwidth_mbps l, lc_latency_ns = rl_latency_ns l \<rparr>)] \<rparr>"
proof -
  have "validate_p2p_rails (saturating_add 64 r 1) = Inr () \<longleftrightarrow> r < MAX_P2P_RAILS" for r
    by (auto simp: validate_p2p_rails_def saturating_add_def MAX_P2P_RAILS_def min_def)
  then show ?thesis by (auto simp: add_rail_link_def bind_r_eq_Inr Let_def)
qed

lemma add_rail_link_ok:
  assumes t: "topology_ok t" and l: "add_rail_link l t = Inr t'"
  shows "topology_ok t' \<and> ct_world_size t' = ct_world_size t"
proof -
  define n where "n = ct_world_size t"
  define ms where "ms = extend_rails n (rl_rail l) (ct_rail_links t)"
  define c where "c = \<lparr> lc_bandwidth_mbps = rl_bandwidth_mbps l, lc_latency_ns = rl_latency_ns l \<rparr>"
  let ?p = "\<lambda>l. 0 < lc_bandwidth_mbps l"
  let ?m = "mset_pair (ms ! rl_rail l) (rl_first_rank l) (rl_second_rank l) (Some c)"
  from l have r: "rl_rail l < MAX_P2P_RAILS" "rl_first_rank l < n" "rl_second_rank l < n"
      "rl_first_rank l \<noteq> rl_second_rank l" "0 < rl_bandwidth_mbps l"
    and t': "t' = t\<lparr> ct_rail_links := ms[rl_rail l := ?m] \<rparr>"
    by (auto simp: add_rail_link_Inr check_link_ok ms_def n_def c_def)
  have old: "\<forall>m \<in> set (ct_rail_links t). matrix_ok n ?p m" using t by (simp add: topology_ok_def n_def)
  have ms: "\<forall>m \<in> set ms. matrix_ok n ?p m" using old by (auto simp: ms_def extend_rails_def)
  have len: "rl_rail l < length ms" unfolding ms_def by (rule extend_rails_nth)
  have m: "matrix_ok n ?p ?m" using ms len r by (intro matrix_ok_mset_pair) (auto simp: c_def)
  have sq: "square n (ms ! rl_rail l)" using ms len by (auto simp: matrix_ok_def)
  have hit: "mget ?m (rl_first_rank l) (rl_second_rank l) = Some c"
    by (simp add: mget_mset_pair[OF sq r(2,3)])
  have "\<exists>i < n. \<exists>j < n. mget (last (ms[rl_rail l := ?m])) i j \<noteq> None"
  proof (cases "length (ct_rail_links t) \<le> Suc (rl_rail l)")
    case True
    then have "length ms = Suc (rl_rail l)" by (simp add: ms_def length_extend_rails max_def)
    then have "last (ms[rl_rail l := ?m]) = ?m" by (cases ms rule: rev_cases) (auto simp: list_update_append)
    with hit r show ?thesis by auto
  next
    case False
    then have e: "ms = ct_rail_links t" by (simp add: ms_def extend_rails_def)
    moreover have "ct_rail_links t \<noteq> []" using False by auto
    moreover have "rl_rail l \<noteq> length (ct_rail_links t) - 1" using False by linarith
    ultimately have "last (ms[rl_rail l := ?m]) = last (ct_rail_links t)"
      by (simp add: last_list_update)
    with \<open>ct_rail_links t \<noteq> []\<close> show ?thesis using t by (simp add: topology_ok_def n_def)
  qed
  moreover have "\<forall>x \<in> set (ms[rl_rail l := ?m]). matrix_ok n ?p x"
    using ms m set_update_subset_insert[of ms "rl_rail l" ?m] by blast
  moreover have "length ms \<le> MAX_P2P_RAILS"
    using t r(1) by (simp add: ms_def length_extend_rails topology_ok_def)
  ultimately show ?thesis using t unfolding t' by (simp add: topology_ok_def n_def)
qed

lemma topology_uniform_ok: "topology_uniform n = Inr t \<Longrightarrow> topology_ok t \<and> ct_world_size t = n"
proof -
  assume "topology_uniform n = Inr t"
  then obtain t0 where t0: "topology_empty n = Inr t0" and
    f: "fold_r (\<lambda>(first, second). add_link \<lparr> tl_first_rank = first, tl_second_rank = second,
          tl_bandwidth_mbps = DEFAULT_BANDWIDTH_MBPS, tl_latency_ns = DEFAULT_LATENCY_NS \<rparr>) (rank_pairs n) t0 = Inr t"
    by (auto simp: topology_uniform_def bind_r_eq_Inr split: if_splits)
  show ?thesis
    by (rule fold_r_invariant[OF f, where P = "\<lambda>t. topology_ok t \<and> ct_world_size t = n"])
       (use topology_empty_ok[OF t0] add_link_ok in \<open>auto split: prod.splits\<close>)
qed

section \<open>Listing and rebuilding\<close>

text \<open>Rebuilding a topology from its three listings, as the recorded links of a profile are.\<close>

definition rebuild_topology ::
  "nat \<Rightarrow> topology_link list \<Rightarrow> topology_rail_link list \<Rightarrow> topology_aggregate_link list
     \<Rightarrow> topology_error + collective_topology" where
  "rebuild_topology n ls rs as =
     bind_r (topology_empty n) (\<lambda>t. bind_r (fold_r add_link ls t) (\<lambda>t.
       bind_r (fold_r add_rail_link rs t) (fold_r add_aggregate_link as)))"

lemma fold_r_map_filter:
  "fold_r f (List.map_filter g xs) s = fold_r (\<lambda>x s. case g x of None \<Rightarrow> Inr s | Some y \<Rightarrow> f y s) xs s"
  by (induction xs arbitrary: s) (auto simp: bind_r_def split: option.splits sum.splits)

text \<open>The matrix a listing writes, starting from \<open>m\<close>.\<close>

definition refill :: "'a option matrix \<Rightarrow> (nat \<times> nat) list \<Rightarrow> 'a option matrix \<Rightarrow> 'a option matrix" where
  "refill m0 ps m = fold (\<lambda>(i, j) m. case mget m0 i j of None \<Rightarrow> m | Some v \<Rightarrow> mset_pair m i j (Some v)) ps m"

lemma refill_simps [simp]:
  "refill m0 [] m = m"
  "refill m0 ((i, j) # ps) m =
     refill m0 ps (case mget m0 i j of None \<Rightarrow> m | Some v \<Rightarrow> mset_pair m i j (Some v))"
  by (simp_all add: refill_def)

lemmas refill_all = rebuild_matrix[folded refill_def]

lemma matrix_ok_entry: "matrix_ok n p m \<Longrightarrow> i < n \<Longrightarrow> j < n \<Longrightarrow> mget m i j = Some v \<Longrightarrow> p v"
  by (auto simp: matrix_ok_def)

lemma refill_links:
  assumes "matrix_ok (ct_world_size t) (\<lambda>l. 0 < lc_bandwidth_mbps l) m0"
    and "\<forall>(i, j) \<in> set ps. i < j \<and> j < ct_world_size t"
  shows "fold_r add_link (List.map_filter (\<lambda>(i, j). map_option (\<lambda>l. \<lparr> tl_first_rank = i, tl_second_rank = j,
       tl_bandwidth_mbps = lc_bandwidth_mbps l, tl_latency_ns = lc_latency_ns l \<rparr>) (mget m0 i j)) ps) t =
     Inr (t\<lparr> ct_links := refill m0 ps (ct_links t) \<rparr>)"
  using assms
proof (induction ps arbitrary: t)
  case (Cons x ps)
  obtain i j where x: "x = (i, j)" by force
  with Cons.prems have ij: "i < j" "j < ct_world_size t" "i < ct_world_size t" by auto
  show ?case
  proof (cases "mget m0 i j")
    case (Some v)
    let ?t = "t\<lparr> ct_links := mset_pair (ct_links t) i j (Some v) \<rparr>"
    have "0 < lc_bandwidth_mbps v" using matrix_ok_entry[OF Cons.prems(1) ij(3,2) Some] .
    then have "add_link \<lparr> tl_first_rank = i, tl_second_rank = j, tl_bandwidth_mbps = lc_bandwidth_mbps v,
        tl_latency_ns = lc_latency_ns v \<rparr> t = Inr ?t" using ij by (cases v) (simp add: add_link_Inr check_link_ok)
    with Cons.IH[of ?t] Cons.prems x Some show ?thesis by simp
  qed (use Cons x in simp)
qed simp

lemma refill_aggregates:
  assumes "matrix_ok (ct_world_size t) (\<lambda>b. 0 < b) m0"
    and "\<forall>(i, j) \<in> set ps. i < j \<and> j < ct_world_size t"
  shows "fold_r add_aggregate_link (List.map_filter (\<lambda>(i, j). map_option (\<lambda>b. \<lparr> al_first_rank = i,
       al_second_rank = j, al_bandwidth_mbps = b \<rparr>) (mget m0 i j)) ps) t =
     Inr (t\<lparr> ct_aggregate_links := refill m0 ps (ct_aggregate_links t) \<rparr>)"
  using assms
proof (induction ps arbitrary: t)
  case (Cons x ps)
  obtain i j where x: "x = (i, j)" by force
  with Cons.prems have ij: "i < j" "j < ct_world_size t" "i < ct_world_size t" by auto
  show ?case
  proof (cases "mget m0 i j")
    case (Some v)
    let ?t = "t\<lparr> ct_aggregate_links := mset_pair (ct_aggregate_links t) i j (Some v) \<rparr>"
    have "0 < v" using matrix_ok_entry[OF Cons.prems(1) ij(3,2) Some] .
    then have "add_aggregate_link \<lparr> al_first_rank = i, al_second_rank = j, al_bandwidth_mbps = v \<rparr> t = Inr ?t"
      using ij by (simp add: add_aggregate_link_Inr check_link_ok)
    with Cons.IH[of ?t] Cons.prems x Some show ?thesis by simp
  qed (use Cons x in simp)
qed simp

lemma extend_rails_id: "rail < length ms \<Longrightarrow> extend_rails n rail ms = ms"
  by (simp add: extend_rails_def)

lemma refill_rail:
  assumes "matrix_ok (ct_world_size t) (\<lambda>l. 0 < lc_bandwidth_mbps l) m0" "rail < MAX_P2P_RAILS"
    and "\<forall>(i, j) \<in> set ps. i < j \<and> j < ct_world_size t"
  shows "\<exists>rs. fold_r add_rail_link (List.map_filter (\<lambda>(i, j). map_option (\<lambda>l. \<lparr> rl_rail = rail,
       rl_first_rank = i, rl_second_rank = j, rl_bandwidth_mbps = lc_bandwidth_mbps l,
       rl_latency_ns = lc_latency_ns l \<rparr>) (mget m0 i j)) ps) t = Inr (t\<lparr> ct_rail_links := rs \<rparr>) \<and>
     extend_rails (ct_world_size t) rail rs = (extend_rails (ct_world_size t) rail (ct_rail_links t))
       [rail := refill m0 ps (extend_rails (ct_world_size t) rail (ct_rail_links t) ! rail)]"
  using assms
proof (induction ps arbitrary: t)
  case Nil
  then show ?case by (intro exI[of _ "ct_rail_links t"]) simp
next
  case (Cons x ps)
  obtain i j where x: "x = (i, j)" by force
  with Cons.prems have ij: "i < j" "j < ct_world_size t" "i < ct_world_size t" by auto
  let ?ms = "extend_rails (ct_world_size t) rail (ct_rail_links t)"
  show ?case
  proof (cases "mget m0 i j")
    case (Some v)
    let ?rs = "?ms[rail := mset_pair (?ms ! rail) i j (Some v)]"
    let ?t = "t\<lparr> ct_rail_links := ?rs \<rparr>"
    have "0 < lc_bandwidth_mbps v" using matrix_ok_entry[OF Cons.prems(1) ij(3,2) Some] .
    then have "add_rail_link \<lparr> rl_rail = rail, rl_first_rank = i, rl_second_rank = j,
        rl_bandwidth_mbps = lc_bandwidth_mbps v, rl_latency_ns = lc_latency_ns v \<rparr> t = Inr ?t"
      using ij Cons.prems(2) by (cases v) (simp add: add_rail_link_Inr check_link_ok)
    moreover have "extend_rails (ct_world_size t) rail ?rs = ?rs"
      by (rule extend_rails_id) (simp add: extend_rails_nth)
    ultimately show ?thesis using Cons.IH[of ?t] Cons.prems x Some extend_rails_nth(1) by simp
  qed (use Cons x in simp)
qed

lemma refill_rails:
  assumes "\<forall>m \<in> set ms. matrix_ok (ct_world_size t) (\<lambda>l. 0 < lc_bandwidth_mbps l) m" "k \<le> length ms"
    and "length ms \<le> MAX_P2P_RAILS" "ct_rail_links t = []"
  defines "E \<equiv> replicate (ct_world_size t) (replicate (ct_world_size t) None)"
  shows "\<exists>rs. fold_r add_rail_link (concat (map (\<lambda>(rail, m). List.map_filter (\<lambda>(i, j). map_option (\<lambda>l.
       \<lparr> rl_rail = rail, rl_first_rank = i, rl_second_rank = j, rl_bandwidth_mbps = lc_bandwidth_mbps l,
       rl_latency_ns = lc_latency_ns l \<rparr>) (mget m i j)) (rank_pairs (ct_world_size t))) (enumerate 0 (take k ms)))) t =
       Inr (t\<lparr> ct_rail_links := rs \<rparr>) \<and> length rs \<le> k \<and> rs @ replicate (k - length rs) E = take k ms"
  using assms(2)
proof (induction k)
  case 0
  with assms(4) show ?case by (intro exI[of _ "[]"]) simp
next
  case (Suc k)
  then obtain rs where rs: "fold_r add_rail_link (concat (map (\<lambda>(rail, m). List.map_filter (\<lambda>(i, j). map_option (\<lambda>l.
       \<lparr> rl_rail = rail, rl_first_rank = i, rl_second_rank = j, rl_bandwidth_mbps = lc_bandwidth_mbps l,
       rl_latency_ns = lc_latency_ns l \<rparr>) (mget m i j)) (rank_pairs (ct_world_size t))) (enumerate 0 (take k ms)))) t =
       Inr (t\<lparr> ct_rail_links := rs \<rparr>)" "length rs \<le> k" "rs @ replicate (k - length rs) E = take k ms" by auto
  let ?t = "t\<lparr> ct_rail_links := rs \<rparr>"
  have m: "matrix_ok (ct_world_size ?t) (\<lambda>l. 0 < lc_bandwidth_mbps l) (ms ! k)" "k < MAX_P2P_RAILS"
    using assms(1,3) Suc.prems by auto
  have ps: "\<forall>(i, j) \<in> set (rank_pairs (ct_world_size t)). i < j \<and> j < ct_world_size ?t"
    by (auto simp: in_rank_pairs)
  obtain rs' where rs': "fold_r add_rail_link (List.map_filter (\<lambda>(i, j). map_option (\<lambda>l. \<lparr> rl_rail = k,
       rl_first_rank = i, rl_second_rank = j, rl_bandwidth_mbps = lc_bandwidth_mbps l,
       rl_latency_ns = lc_latency_ns l \<rparr>) (mget (ms ! k) i j)) (rank_pairs (ct_world_size t))) ?t = Inr (?t\<lparr> ct_rail_links := rs' \<rparr>)"
     "extend_rails (ct_world_size t) k rs' = (extend_rails (ct_world_size t) k rs)
       [k := refill (ms ! k) (rank_pairs (ct_world_size t)) (extend_rails (ct_world_size t) k rs ! k)]"
    using refill_rail[OF m ps] by auto
  have "extend_rails (ct_world_size t) k rs = take k ms @ [E]"
    using rs(2) by (simp add: extend_rails_def E_def Suc_diff_le replicate_append_same[symmetric] rs(3)[symmetric])
  then have e: "extend_rails (ct_world_size t) k rs' = take (Suc k) ms"
    using rs'(2) refill_all[OF m(1)] Suc.prems by (simp add: E_def nth_append list_update_append take_Suc_conv_app_nth)
  have "length (extend_rails (ct_world_size t) k rs') = Suc k" using Suc.prems unfolding e by simp
  then have "length rs' \<le> Suc k" by (simp add: length_extend_rails)
  with e rs(1) rs'(1) Suc.prems show ?case
    by (intro exI[of _ rs']) (simp add: extend_rails_def E_def take_Suc_conv_app_nth enumerate_append_eq)
qed

lemma rebuild_rails:
  assumes "topology_ok t" "ct_world_size t0 = ct_world_size t" "ct_rail_links t0 = []"
  shows "fold_r add_rail_link (topology_rail_links t) t0 = Inr (t0\<lparr> ct_rail_links := ct_rail_links t \<rparr>)"
proof -
  let ?ms = "ct_rail_links t" and ?n = "ct_world_size t"
  have ms: "\<forall>m \<in> set ?ms. matrix_ok (ct_world_size t0) (\<lambda>l. 0 < lc_bandwidth_mbps l) m" "length ?ms \<le> MAX_P2P_RAILS"
    using assms(1,2) by (auto simp: topology_ok_def)
  obtain rs where rs: "fold_r add_rail_link (topology_rail_links t) t0 = Inr (t0\<lparr> ct_rail_links := rs \<rparr>)"
    "length rs \<le> length ?ms" "rs @ replicate (length ?ms - length rs) (replicate ?n (replicate ?n None)) = ?ms"
    using refill_rails[OF ms(1) le_refl ms(2) assms(3)] assms(2) by (auto simp: topology_rail_links_def)
  have "length rs = length ?ms"
  proof (rule ccontr)
    assume ne: "length rs \<noteq> length ?ms"
    then have "length ?ms - length rs \<noteq> 0" using rs(2) by simp
    then have "last ?ms = replicate ?n (replicate ?n None)" using rs(3) last_replicate by (metis last_appendR replicate_empty)
    moreover have "?ms \<noteq> []" using ne rs(2) by auto
    ultimately show False using assms(1) by (auto simp: topology_ok_def)
  qed
  with rs show ?thesis by simp
qed

lemma rebuild_topology_listing:
  assumes "topology_ok t"
  shows "rebuild_topology (ct_world_size t) (topology_links t) (topology_rail_links t) (topology_aggregate_links t) = Inr t"
proof -
  let ?n = "ct_world_size t"
  let ?E = "replicate ?n (replicate ?n None)"
  define t0 where "t0 = \<lparr> ct_world_size = ?n, ct_links = ?E, ct_rail_links = [], ct_aggregate_links = ?E \<rparr>"
  have e: "topology_empty ?n = Inr t0" using assms by (simp add: topology_empty_def t0_def topology_ok_def)
  have ok: "matrix_ok (ct_world_size t0) (\<lambda>l. 0 < lc_bandwidth_mbps l) (ct_links t)"
    "matrix_ok (ct_world_size t0) (\<lambda>b. 0 < b) (ct_aggregate_links t)"
    using assms by (simp_all add: topology_ok_def t0_def)
  have ps: "\<forall>(i, j) \<in> set (rank_pairs ?n). i < j \<and> j < ct_world_size t0" by (auto simp: in_rank_pairs t0_def)
  define t1 where "t1 = t0\<lparr> ct_links := ct_links t \<rparr>"
  define t2 where "t2 = t1\<lparr> ct_rail_links := ct_rail_links t \<rparr>"
  have 1: "fold_r add_link (topology_links t) t0 = Inr t1"
    using refill_links[OF ok(1) ps] refill_all[OF ok(1)] by (simp add: topology_links_def link_def t1_def t0_def)
  have 2: "fold_r add_rail_link (topology_rail_links t) t1 = Inr t2"
    unfolding t2_def by (rule rebuild_rails[OF assms]) (simp_all add: t1_def t0_def)
  have 3: "fold_r add_aggregate_link (topology_aggregate_links t) t2 = Inr t"
    using refill_aggregates[of t2 "ct_aggregate_links t" "rank_pairs ?n"] ok(2) ps refill_all[OF ok(2)]
    by (simp add: topology_aggregate_links_def aggregate_bandwidth_mbps_def t2_def t1_def t0_def)
  show ?thesis by (simp add: rebuild_topology_def e 1 2 3)
qed

section \<open>What the validators accept\<close>

lemma mark_seen_Inr:
  "is_ok (mark_seen outside twice order seen) \<longleftrightarrow>
     distinct order \<and> (\<forall>r \<in> set order. r < length seen \<and> \<not> seen ! r)"
  by (induction outside twice order seen rule: mark_seen.induct) (auto simp: nth_list_update split: if_splits)

lemma mark_seen_result:
  "mark_seen outside twice order seen = Inr seen' \<Longrightarrow>
     length seen' = length seen \<and> (\<forall>r < length seen. seen' ! r \<longleftrightarrow> seen ! r \<or> r \<in> set order)"
  by (induction outside twice order seen arbitrary: seen' rule: mark_seen.induct)
     (auto simp: nth_list_update split: if_splits)

lemma validate_order_bind: "bind_r r (\<lambda>_. Inr ()) = Inr () \<longleftrightarrow> is_ok r"
  by (cases r) simp_all

lemma distinct_covers: "distinct xs \<Longrightarrow> length xs = n \<Longrightarrow> \<forall>x \<in> set xs. x < n \<Longrightarrow> set xs = {..<n}"
  by (rule card_subset_eq) (auto simp: distinct_card)

lemma permutation_iff:
  "length order = n \<and> distinct order \<and> (\<forall>r \<in> set order. r < n) \<longleftrightarrow> distinct order \<and> set order = {..<n}"
proof
  assume "distinct order \<and> set order = {..<n}"
  then show "length order = n \<and> distinct order \<and> (\<forall>r \<in> set order. r < n)"
    using distinct_card[of order] by simp
qed (use distinct_covers in blast)

lemma unseen: "(\<forall>r \<in> set order. r < length (replicate n False) \<and> \<not> replicate n False ! r) \<longleftrightarrow> (\<forall>r \<in> set order. r < n)"
  by auto

lemma validate_ring_order_iff:
  "validate_ring_order n order = Inr () \<longleftrightarrow> 0 < n \<and> distinct order \<and> set order = {..<n}"
  unfolding permutation_iff[symmetric]
  by (simp add: validate_ring_order_def validate_order_bind mark_seen_Inr unseen del: length_replicate)

lemma validate_rail_order_iff:
  "validate_rail_order n order = Inr () \<longleftrightarrow> distinct order \<and> set order = {..<n}"
  unfolding permutation_iff[symmetric]
  by (simp add: validate_rail_order_def validate_order_bind mark_seen_Inr unseen del: length_replicate)

lemma mark_groups_result:
  assumes "fold_r (mark_group n) (enumerate k groups) seen = Inr seen'" "length seen = n"
  shows "length seen' = n \<and> distinct (concat groups) \<and> [] \<notin> set groups \<and>
     (\<forall>r \<in> set (concat groups). r < n \<and> \<not> seen ! r) \<and>
     (\<forall>r < n. seen' ! r \<longleftrightarrow> seen ! r \<or> r \<in> set (concat groups))"
  using assms
proof (induction groups arbitrary: k seen)
  case (Cons g groups)
  then obtain s1 where s1: "mark_group n (k, g) seen = Inr s1" "fold_r (mark_group n) (enumerate (Suc k) groups) s1 = Inr seen'"
    by (auto simp: bind_r_eq_Inr)
  then have g: "g \<noteq> []" "mark_seen (\<lambda>rank. TopoRankOutOfRange rank n)
      (\<lambda>rank. InvalidHierarchy (Msg ''rank {rank} appears more than once'' [ANat rank])) g seen = Inr s1"
    by (auto simp: mark_group_def split: if_splits)
  from mark_seen_result[OF g(2)] Cons.prems(2) have r: "length s1 = n" "\<forall>r < n. s1 ! r \<longleftrightarrow> seen ! r \<or> r \<in> set g" by auto
  have d: "distinct g" "\<forall>r \<in> set g. r < n \<and> \<not> seen ! r"
    using g(2) mark_seen_Inr[of _ _ g seen] Cons.prems(2) by (metis is_ok_simps(1))+
  from Cons.IH[OF s1(2) r(1)] r d g(1) show ?case by auto
qed simp

lemma validate_hierarchy_groups_Inr:
  assumes "validate_hierarchy_groups n groups = Inr ()"
  shows "2 \<le> length groups \<and> [] \<notin> set groups \<and> distinct (concat groups) \<and> set (concat groups) = {..<n}"
proof -
  from assms obtain seen where s: "fold_r (mark_group n) (enumerate 0 groups) (replicate n False) = Inr seen"
    "filter (\<lambda>(_, included). \<not> included) (enumerate 0 seen) = []" "2 \<le> length groups"
    by (auto simp: validate_hierarchy_groups_def bind_r_eq_Inr Let_def split: if_splits)
  have "seen ! r" if "r < length seen" for r
    using s(2) that by (auto simp: filter_empty_conv in_set_enumerate_eq)
  with mark_groups_result[OF s(1)] s(3) show ?thesis by auto
qed

lemma mark_groups_succeed:
  assumes "length seen = n" "distinct (concat groups)" "[] \<notin> set groups" "\<forall>r \<in> set (concat groups). r < n \<and> \<not> seen ! r"
  shows "is_ok (fold_r (mark_group n) (enumerate k groups) seen)"
  using assms
proof (induction groups arbitrary: k seen)
  case (Cons g groups)
  have "is_ok (mark_group n (k, g) seen)" using Cons.prems by (auto simp: mark_group_def mark_seen_Inr)
  then obtain s1 where s1: "mark_group n (k, g) seen = Inr s1" by (auto simp: is_ok_iff)
  then have m: "mark_seen (\<lambda>rank. TopoRankOutOfRange rank n)
      (\<lambda>rank. InvalidHierarchy (Msg ''rank {rank} appears more than once'' [ANat rank])) g seen = Inr s1"
    by (auto simp: mark_group_def split: if_splits)
  from mark_seen_result[OF m] Cons.prems(1) have "length s1 = n" "\<forall>r < n. s1 ! r \<longleftrightarrow> seen ! r \<or> r \<in> set g" by auto
  moreover have "\<forall>r \<in> set (concat groups). r < n \<and> \<not> seen ! r \<and> r \<notin> set g" using Cons.prems(2,4) by auto
  ultimately have "is_ok (fold_r (mark_group n) (enumerate (Suc k) groups) s1)"
    using Cons.prems by (intro Cons.IH) auto
  then show ?case by (simp add: s1)
qed simp

lemma validate_hierarchy_groups_iff:
  "validate_hierarchy_groups n groups = Inr () \<longleftrightarrow>
     2 \<le> length groups \<and> [] \<notin> set groups \<and> distinct (concat groups) \<and> set (concat groups) = {..<n}"
proof
  assume g: "2 \<le> length groups \<and> [] \<notin> set groups \<and> distinct (concat groups) \<and> set (concat groups) = {..<n}"
  then obtain seen where s: "fold_r (mark_group n) (enumerate 0 groups) (replicate n False) = Inr seen"
    using mark_groups_succeed[of "replicate n False" n groups 0] by (auto simp: is_ok_iff)
  have "length seen = n" "\<And>r. r < n \<Longrightarrow> seen ! r \<longleftrightarrow> r \<in> set (concat groups)"
    using mark_groups_result[OF s] by simp_all
  moreover have "set (concat groups) = {..<n}" using g by blast
  ultimately have "\<forall>r < n. seen ! r" "length seen = n" by (simp_all del: set_concat)
  then have "\<forall>x \<in> set (enumerate 0 seen). snd x" by (auto simp: in_set_enumerate_eq)
  then have "filter (\<lambda>(_, included). \<not> included) (enumerate 0 seen) = []" by (auto simp: filter_empty_conv)
  then show "validate_hierarchy_groups n groups = Inr ()"
    using g s by (simp add: validate_hierarchy_groups_def Let_def)
qed (rule validate_hierarchy_groups_Inr)

section \<open>Properties\<close>

datatype topology_operation =
    AddLink topology_link
  | AddRailLink topology_rail_link
  | AddAggregateLink topology_aggregate_link

fun apply_operation :: "topology_operation \<Rightarrow> collective_topology \<Rightarrow> topology_error + collective_topology" where
  "apply_operation (AddLink l) t = add_link l t"
| "apply_operation (AddRailLink l) t = add_rail_link l t"
| "apply_operation (AddAggregateLink l) t = add_aggregate_link l t"

lemma apply_operation_ok:
  "topology_ok t \<Longrightarrow> apply_operation op t = Inr t' \<Longrightarrow> topology_ok t' \<and> ct_world_size t' = ct_world_size t"
  by (cases op; simp only: apply_operation.simps)
     (erule (1) add_link_ok add_rail_link_ok add_aggregate_link_ok)+

lemma built_topology_ok:
  assumes "topology_empty n = Inr t0" "fold_r apply_operation ops t0 = Inr t"
  shows "topology_ok t \<and> ct_world_size t = n"
  by (rule fold_r_invariant[OF assms(2), where P = "\<lambda>t. topology_ok t \<and> ct_world_size t = n"])
     (use topology_empty_ok[OF assms(1)] apply_operation_ok in auto)

lemma link_add_link:
  assumes "topology_ok t" "add_link l t = Inr t'"
  shows "link t' a b = (if {a, b} = {tl_first_rank l, tl_second_rank l}
     then Some \<lparr> lc_bandwidth_mbps = tl_bandwidth_mbps l, lc_latency_ns = tl_latency_ns l \<rparr> else link t a b)"
proof -
  from assms have sq: "square (ct_world_size t) (ct_links t)" by (simp add: topology_ok_def matrix_ok_def)
  from assms(2) have "tl_first_rank l < ct_world_size t" "tl_second_rank l < ct_world_size t"
    by (auto simp: add_link_Inr check_link_ok)
  from mget_mset_pair[OF sq this] assms(2) show ?thesis by (auto simp: add_link_Inr link_def doubleton_eq_iff)
qed

lemma link_on_rail_add_rail_link:
  assumes t: "topology_ok t" and l: "add_rail_link l t = Inr t'" and ab: "a < ct_world_size t" "b < ct_world_size t"
  shows "link_on_rail t' a b rail = (if rail = rl_rail l \<and> {a, b} = {rl_first_rank l, rl_second_rank l}
     then Some \<lparr> lc_bandwidth_mbps = rl_bandwidth_mbps l, lc_latency_ns = rl_latency_ns l \<rparr>
     else link_on_rail t a b rail)"
proof -
  define n where "n = ct_world_size t"
  define ms where "ms = extend_rails n (rl_rail l) (ct_rail_links t)"
  let ?c = "\<lparr> lc_bandwidth_mbps = rl_bandwidth_mbps l, lc_latency_ns = rl_latency_ns l \<rparr>"
  from l have r: "rl_first_rank l < n" "rl_second_rank l < n"
    and t': "t' = t\<lparr> ct_rail_links := ms[rl_rail l := mset_pair (ms ! rl_rail l) (rl_first_rank l) (rl_second_rank l) (Some ?c)] \<rparr>"
    by (auto simp: add_rail_link_Inr check_link_ok ms_def n_def)
  have ms: "\<forall>m \<in> set ms. square n m" using t by (auto simp: ms_def extend_rails_def topology_ok_def matrix_ok_def n_def)
  have len: "rl_rail l < length ms" unfolding ms_def by (rule extend_rails_nth)
  have sq: "square n (ms ! rl_rail l)" using ms len by simp
  have old: "(if rail < length ms then mget (ms ! rail) a b else None) =
      (if rail < length (ct_rail_links t) then mget (ct_rail_links t ! rail) a b else None)"
    using ab by (auto simp: ms_def extend_rails_def nth_append n_def)
  show ?thesis
    using old mget_mset_pair[OF sq r, of "Some ?c" a b] len
    by (cases "rail = rl_rail l")
       (auto simp: t' link_on_rail_def link_def doubleton_eq_iff split: option.splits if_splits)
qed


definition sample_topology_ops :: "topology_operation list" where
  "sample_topology_ops =
     [AddLink \<lparr> tl_first_rank = 0, tl_second_rank = 1, tl_bandwidth_mbps = 8, tl_latency_ns = 5 \<rparr>,
      AddLink \<lparr> tl_first_rank = 2, tl_second_rank = 1, tl_bandwidth_mbps = 4, tl_latency_ns = 7 \<rparr>,
      AddRailLink \<lparr> rl_rail = 1, rl_first_rank = 0, rl_second_rank = 2, rl_bandwidth_mbps = 2, rl_latency_ns = 9 \<rparr>]"

definition sample_topology :: collective_topology where
  "sample_topology = projr (bind_r (topology_empty 3) (fold_r apply_operation sample_topology_ops))"

lemma sample_topology_built:
  "\<exists>t0. topology_empty 3 = Inr t0 \<and> fold_r apply_operation sample_topology_ops t0 = Inr sample_topology"
  by (simp add: sample_topology_def sample_topology_ops_def topology_empty_def add_link_def add_rail_link_def
      check_link_def topology_validate_rank_def validate_p2p_rails_def saturating_add_def MAX_P2P_RAILS_def Let_def)

lemma three_ranks:
  "replicate 3 x = [x, x, x]" "replicate 2 x = [x, x]" "[a, b, c][2 := y] = [a, b, y]" "[0..<3] = [0, 1, 2]"
  by (simp_all add: numeral_3_eq_3 numeral_2_eq_2)

lemma sample_topology_eq:
  "sample_topology =
     (let a = Some \<lparr> lc_bandwidth_mbps = 8, lc_latency_ns = 5 \<rparr>; b = Some \<lparr> lc_bandwidth_mbps = 4, lc_latency_ns = 7 \<rparr>;
          c = Some \<lparr> lc_bandwidth_mbps = 2, lc_latency_ns = 9 \<rparr>; e = [[None, None, None], [None, None, None], [None, None, None]]
      in \<lparr> ct_world_size = 3, ct_links = [[None, a, None], [a, None, b], [None, b, None]],
           ct_rail_links = [e, [[None, None, c], [None, None, None], [c, None, None]]],
           ct_aggregate_links = [[None, None, None], [None, None, None], [None, None, None]] \<rparr>)"
  by (simp add: sample_topology_def sample_topology_ops_def topology_empty_def add_link_def add_rail_link_def
      check_link_def topology_validate_rank_def validate_p2p_rails_def saturating_add_def MAX_P2P_RAILS_def Let_def
      extend_rails_def mset_pair_def mset_at_def three_ranks numeral_2_eq_2[symmetric])


text \<open>Listing and rebuilding: adding back the listed links, rail links and aggregate links to an
  empty topology is accepted and gives the topology that was listed, so the three listings lose
  nothing.\<close>

theorem topology_listing_roundtrip:
  assumes "topology_empty n = Inr t0" "fold_r apply_operation ops t0 = Inr t"
  shows "rebuild_topology n (topology_links t) (topology_rail_links t) (topology_aggregate_links t) = Inr t"
  using rebuild_topology_listing built_topology_ok[OF assms] by blast

theorem topology_listing_roundtrip_witness:
  "rebuild_topology 3 (topology_links sample_topology) (topology_rail_links sample_topology)
     (topology_aggregate_links sample_topology) = Inr sample_topology"
  using sample_topology_built topology_listing_roundtrip by blast

end
