(* ===== verification/Shortest_Path.thy ===== *)
theory Shortest_Path
  imports Topology
begin

text \<open>
  Transfer times over a topology, from \<^verbatim>\<open>src/rank/topology.rs\<close>: the time of a payload over one
  link, and \<open>shortest_transfer_time_ns\<close> with its two variants, an array version of Dijkstra's search
  in which \<open>u64::MAX\<close> stands for an unreached rank and additions saturate. The search is proved to
  return the least cost of a route, or nothing exactly when every route costs at least \<open>u64::MAX\<close>.
\<close>

section \<open>Transfer times\<close>

definition saturating_u64 :: "nat \<Rightarrow> nat" where
  "saturating_u64 v = (if v \<le> u64_max then v else u64_max)"

text \<open>The bandwidth is not zero: \<open>add_link\<close> and \<open>with_direct_transport\<close> refuse zero.\<close>

definition transfer_time_ns_u128 :: "nat \<Rightarrow> nat \<Rightarrow> nat" where
  "transfer_time_ns_u128 payload bandwidth_mbps =
     (let numerator = saturating_mul 128 payload 1000
      in saturating_add 128 numerator (bandwidth_mbps - 1) div bandwidth_mbps)"

definition transfer_time_ns :: "nat \<Rightarrow> nat \<Rightarrow> nat" where
  "transfer_time_ns payload bandwidth_mbps = saturating_u64 (transfer_time_ns_u128 payload bandwidth_mbps)"

definition link_transfer_time_ns :: "link_cost \<Rightarrow> nat \<Rightarrow> nat" where
  "link_transfer_time_ns l payload =
     saturating_add 64 (lc_latency_ns l) (transfer_time_ns payload (lc_bandwidth_mbps l))"

section \<open>Iterators\<close>

text \<open>\<open>Iterator::min_by_key\<close> keeps the first least element, \<open>Iterator::max_by_key\<close> the last greatest.\<close>

fun min_by_key :: "('a \<Rightarrow> 'k::linorder) \<Rightarrow> 'a list \<Rightarrow> 'a option" where
  "min_by_key key [] = None"
| "min_by_key key (x # xs) = Some (fold (\<lambda>y best. if key y < key best then y else best) xs x)"

fun max_by_key :: "('a \<Rightarrow> 'k::linorder) \<Rightarrow> 'a list \<Rightarrow> 'a option" where
  "max_by_key key [] = None"
| "max_by_key key (x # xs) = Some (fold (\<lambda>y best. if key best \<le> key y then y else best) xs x)"

section \<open>Search\<close>

text \<open>One pass \<open>for next in 0..rank_count\<close> from the rank \<open>current\<close>; \<open>edge\<close> is the time of a link.\<close>

definition relax ::
  "(nat \<Rightarrow> nat \<Rightarrow> nat option) \<Rightarrow> (nat \<Rightarrow> bool) \<Rightarrow> nat \<Rightarrow> nat \<Rightarrow> bool list \<Rightarrow> nat list \<Rightarrow> nat list" where
  "relax edge permitted rank_count current visited distances =
     fold (\<lambda>nxt distances.
       if \<not> permitted nxt \<or> visited ! nxt then distances
       else (case edge current nxt of
               None \<Rightarrow> distances
             | Some time \<Rightarrow>
                 let candidate = saturating_add 64 (distances ! current) time
                 in distances[nxt := min (distances ! nxt) candidate]))
       [0..<rank_count] distances"

definition finite_distance :: "nat list \<Rightarrow> nat \<Rightarrow> nat option" where
  "finite_distance distances destination =
     (if distances ! destination \<noteq> u64_max then Some (distances ! destination) else None)"

text \<open>The loop \<open>for _ in 0..iterations\<close>; \<open>break\<close> leaves it for the final test of the distance.\<close>

fun search_loop ::
  "(nat \<Rightarrow> nat \<Rightarrow> nat option) \<Rightarrow> (nat \<Rightarrow> bool) \<Rightarrow> nat \<Rightarrow> nat \<Rightarrow> nat \<Rightarrow> bool list \<Rightarrow> nat list \<Rightarrow> nat option" where
  "search_loop edge permitted rank_count destination 0 visited distances = finite_distance distances destination"
| "search_loop edge permitted rank_count destination (Suc iterations) visited distances =
     (case min_by_key (\<lambda>rank. distances ! rank) (filter (\<lambda>rank. permitted rank \<and> \<not> visited ! rank) [0..<rank_count]) of
        None \<Rightarrow> None
      | Some current \<Rightarrow>
          if distances ! current = u64_max then finite_distance distances destination
          else if current = destination then Some (distances ! current)
          else let visited = visited[current := True]
               in search_loop edge permitted rank_count destination iterations visited
                    (relax edge permitted rank_count current visited distances))"

definition shortest_transfer_time_ns_for_rail ::
  "collective_topology \<Rightarrow> nat \<Rightarrow> nat \<Rightarrow> nat \<Rightarrow> nat option \<Rightarrow> nat option" where
  "shortest_transfer_time_ns_for_rail t source destination payload rail =
     (if source = destination then Some 0
      else
        let rank_count = ct_world_size t;
            edge = (\<lambda>current nxt. map_option (\<lambda>l. link_transfer_time_ns l payload)
              (case rail of Some rail \<Rightarrow> link_on_rail t current nxt rail | None \<Rightarrow> mget (ct_links t) current nxt))
        in search_loop edge (\<lambda>_. True) rank_count destination rank_count
             (replicate rank_count False) ((replicate rank_count u64_max)[source := 0]))"

definition shortest_transfer_time_ns :: "collective_topology \<Rightarrow> nat \<Rightarrow> nat \<Rightarrow> nat \<Rightarrow> nat option" where
  "shortest_transfer_time_ns t source destination payload =
     shortest_transfer_time_ns_for_rail t source destination payload None"

definition shortest_transfer_time_ns_on_rail ::
  "collective_topology \<Rightarrow> nat \<Rightarrow> nat \<Rightarrow> nat \<Rightarrow> nat \<Rightarrow> nat option" where
  "shortest_transfer_time_ns_on_rail t source destination payload rail =
     shortest_transfer_time_ns_for_rail t source destination payload (Some rail)"

definition shortest_transfer_time_ns_within ::
  "collective_topology \<Rightarrow> nat \<Rightarrow> nat \<Rightarrow> nat \<Rightarrow> nat list \<Rightarrow> nat option" where
  "shortest_transfer_time_ns_within t source destination payload allowed =
     (if source = destination then Some 0
      else
        let rank_count = ct_world_size t;
            permitted = fold (\<lambda>rank p. p[rank := True]) allowed (replicate rank_count False);
            edge = (\<lambda>current nxt. map_option (\<lambda>l. link_transfer_time_ns l payload) (mget (ct_links t) current nxt))
        in search_loop edge (\<lambda>rank. permitted ! rank) rank_count destination (length allowed)
             (replicate rank_count False) ((replicate rank_count u64_max)[source := 0]))"

text \<open>\<open>aggregate_transfer_cap_ns\<close>: the slowest pair against its measured aggregate bandwidth.\<close>

definition aggregate_transfer_cap_ns :: "collective_topology \<Rightarrow> nat matrix \<Rightarrow> nat" where
  "aggregate_transfer_cap_ns t bytes_by_pair =
     fold (\<lambda>(first, second) slowest.
         let bytes = max (mget bytes_by_pair first second) (mget bytes_by_pair second first)
         in if bytes = 0 then slowest
            else (case aggregate_bandwidth_mbps t first second of
                    None \<Rightarrow> slowest
                  | Some bandwidth \<Rightarrow> max slowest (transfer_time_ns bytes bandwidth)))
       (rank_pairs (min (length bytes_by_pair) (ct_world_size t))) 0"

section \<open>Routes\<close>

text \<open>\<open>route edge permitted n s v d\<close>: some route from \<open>s\<close> to \<open>v\<close> over permitted ranks costs \<open>d\<close>.\<close>

inductive route ::
  "(nat \<Rightarrow> nat \<Rightarrow> nat option) \<Rightarrow> (nat \<Rightarrow> bool) \<Rightarrow> nat \<Rightarrow> nat \<Rightarrow> nat \<Rightarrow> nat \<Rightarrow> bool"
  for edge permitted n s where
  route_here: "route edge permitted n s s 0"
| route_hop: "route edge permitted n s u d \<Longrightarrow> v < n \<Longrightarrow> permitted v \<Longrightarrow> edge u v = Some c
    \<Longrightarrow> route edge permitted n s v (d + c)"

inductive_cases route_startE: "route edge permitted n s s d"

section \<open>Iterator laws\<close>

lemma min_by_key_fold:
  "let b = fold (\<lambda>y best. if key y < key best then y else best) xs x
   in (b = x \<or> b \<in> set xs) \<and> key b \<le> key x \<and> (\<forall>y \<in> set xs. key b \<le> key y)" for key :: "'a \<Rightarrow> 'k::linorder"
proof (induction xs arbitrary: x)
  case (Cons y xs)
  from Cons.IH[of y] Cons.IH[of x] show ?case by (auto simp: Let_def)
qed simp

lemma max_by_key_fold:
  "let b = fold (\<lambda>y best. if key best \<le> key y then y else best) xs x
   in (b = x \<or> b \<in> set xs) \<and> key x \<le> key b \<and> (\<forall>y \<in> set xs. key y \<le> key b)" for key :: "'a \<Rightarrow> 'k::linorder"
proof (induction xs arbitrary: x)
  case (Cons y xs)
  from Cons.IH[of y] Cons.IH[of x] show ?case by (auto simp: Let_def)
qed simp

lemma min_by_key_Some:
  "min_by_key key xs = Some b \<Longrightarrow> b \<in> set xs \<and> (\<forall>y \<in> set xs. key b \<le> key y)"
  using min_by_key_fold[of key] by (cases xs) (auto simp: Let_def)

lemma max_by_key_Some:
  "max_by_key key xs = Some b \<Longrightarrow> b \<in> set xs \<and> (\<forall>y \<in> set xs. key y \<le> key b)"
  using max_by_key_fold[of key] by (cases xs) (auto simp: Let_def)

lemma min_by_key_None [simp]: "min_by_key key xs = None \<longleftrightarrow> xs = []"
  by (cases xs) simp_all

lemma max_by_key_None [simp]: "max_by_key key xs = None \<longleftrightarrow> xs = []"
  by (cases xs) simp_all

section \<open>Invariant of the search\<close>

definition relaxed ::
  "(nat \<Rightarrow> nat \<Rightarrow> nat option) \<Rightarrow> (nat \<Rightarrow> bool) \<Rightarrow> nat \<Rightarrow> bool list \<Rightarrow> nat list \<Rightarrow> nat \<Rightarrow> nat" where
  "relaxed edge permitted current visited distances v =
     (if \<not> permitted v \<or> visited ! v then distances ! v
      else (case edge current v of
              None \<Rightarrow> distances ! v
            | Some c \<Rightarrow> min (distances ! v) (saturating_add 64 (distances ! current) c)))"

lemma relax_fold:
  assumes "visited ! current" "distinct xs" "\<forall>x \<in> set xs. x < length distances"
  shows "length (fold (\<lambda>nxt distances.
       if \<not> permitted nxt \<or> visited ! nxt then distances
       else (case edge current nxt of
               None \<Rightarrow> distances
             | Some time \<Rightarrow>
                 let candidate = saturating_add 64 (distances ! current) time
                 in distances[nxt := min (distances ! nxt) candidate])) xs distances) = length distances \<and>
     (\<forall>v < length distances. fold (\<lambda>nxt distances.
       if \<not> permitted nxt \<or> visited ! nxt then distances
       else (case edge current nxt of
               None \<Rightarrow> distances
             | Some time \<Rightarrow>
                 let candidate = saturating_add 64 (distances ! current) time
                 in distances[nxt := min (distances ! nxt) candidate])) xs distances ! v =
       (if v \<in> set xs then relaxed edge permitted current visited distances v else distances ! v))"
  using assms
proof (induction xs arbitrary: distances)
  case (Cons x xs)
  define one where "one = (if \<not> permitted x \<or> visited ! x then distances
       else (case edge current x of
               None \<Rightarrow> distances
             | Some time \<Rightarrow> distances[x := min (distances ! x) (saturating_add 64 (distances ! current) time)]))"
  have len: "length one = length distances" by (simp add: one_def split: option.split)
  have same: "one ! v = (if v = x then relaxed edge permitted current visited distances v else distances ! v)"
    if "v < length distances" for v
    using that Cons.prems by (auto simp: one_def relaxed_def nth_list_update split: option.split)
  have cur: "one ! current = distances ! current"
    using Cons.prems by (auto simp: one_def nth_list_update split: option.split)
  have rel: "relaxed edge permitted current visited one v = relaxed edge permitted current visited distances v"
    if "v < length distances" "v \<noteq> x" for v
    unfolding relaxed_def cur using same[OF that(1)] that(2) by (simp cong: option.case_cong)
  have "\<forall>y \<in> set xs. y < length one" using Cons.prems(3) unfolding len by simp
  from Cons.IH[OF Cons.prems(1) _ this] Cons.prems(2)
  show ?case unfolding fold.simps comp_apply Let_def one_def[symmetric] len using same rel by auto
qed simp

lemma relax_spec:
  assumes "visited ! current" "length distances = n"
  shows "length (relax edge permitted n current visited distances) = n"
    and "v < n \<Longrightarrow> relax edge permitted n current visited distances ! v = relaxed edge permitted current visited distances v"
  using relax_fold[of visited current "[0..<n]" distances permitted edge] assms by (simp_all add: relax_def)

definition search_inv ::
  "(nat \<Rightarrow> nat \<Rightarrow> nat option) \<Rightarrow> (nat \<Rightarrow> bool) \<Rightarrow> nat \<Rightarrow> nat \<Rightarrow> bool list \<Rightarrow> nat list \<Rightarrow> bool" where
  "search_inv edge permitted n s visited distances \<longleftrightarrow>
     length visited = n \<and> length distances = n \<and> distances ! s = 0 \<and>
     (\<forall>v < n. distances ! v \<le> u64_max) \<and>
     (\<forall>v < n. permitted v \<longrightarrow> distances ! v < u64_max \<longrightarrow> route edge permitted n s v (distances ! v)) \<and>
     (\<forall>u < n. visited ! u \<longrightarrow> permitted u \<and> (\<forall>d. route edge permitted n s u d \<longrightarrow> distances ! u \<le> d)) \<and>
     (\<forall>u < n. \<forall>v < n. \<forall>c. visited ! u \<longrightarrow> permitted v \<longrightarrow> \<not> visited ! v \<longrightarrow> edge u v = Some c
        \<longrightarrow> distances ! v \<le> distances ! u + c)"

lemma route_permitted: "route edge permitted n s v d \<Longrightarrow> s < n \<Longrightarrow> permitted s \<Longrightarrow> v < n \<and> permitted v"
  by (induction rule: route.induct) auto

text \<open>No route to an unvisited rank is cheaper than the least distance of the unvisited ranks.\<close>

lemma unvisited_bound:
  assumes inv: "search_inv edge permitted n s visited distances" and s: "s < n" "permitted s"
    and least: "\<forall>v < n. permitted v \<longrightarrow> \<not> visited ! v \<longrightarrow> b \<le> distances ! v"
    and "route edge permitted n s v d" "\<not> visited ! v"
  shows "b \<le> d"
  using assms(5,6)
proof (induction rule: route.induct)
  case route_here
  with least s inv show ?case by (auto simp: search_inv_def)
next
  case (route_hop u d v c)
  show ?case
  proof (cases "visited ! u")
    case True
    have u: "u < n" using route_permitted[OF route_hop.hyps(1) s] by simp
    have "distances ! v \<le> distances ! u + c" "distances ! u \<le> d"
      using inv u True route_hop by (auto simp: search_inv_def)
    with least route_hop show ?thesis by fastforce
  qed (use route_hop in auto)
qed

lemma search_inv_step:
  assumes inv: "search_inv edge permitted n s visited distances" and s: "s < n" "permitted s"
    and cur: "current < n" "permitted current" "\<not> visited ! current" "distances ! current < u64_max"
    and least: "\<forall>v < n. permitted v \<longrightarrow> \<not> visited ! v \<longrightarrow> distances ! current \<le> distances ! v"
  shows "search_inv edge permitted n s (visited[current := True])
     (relax edge permitted n current (visited[current := True]) distances)"
proof -
  let ?vis = "visited[current := True]"
  let ?dist = "relax edge permitted n current ?vis distances"
  have len: "length visited = n" "length distances = n" using inv by (auto simp: search_inv_def)
  have R: "length ?dist = n" "\<And>v. v < n \<Longrightarrow> ?dist ! v = relaxed edge permitted current ?vis distances v"
    using relax_spec[where visited = ?vis and current = current and distances = distances and n = n] len cur(1) by auto
  have vis: "?vis ! v \<longleftrightarrow> v = current \<or> visited ! v" if "v < n" for v
    using len cur(1) that by (auto simp: nth_list_update)
  have le: "?dist ! v \<le> distances ! v" if "v < n" for v
    unfolding R(2)[OF that] by (simp add: relaxed_def split: option.split)
  have keep: "?dist ! v = distances ! v" if "v < n" "?vis ! v" for v
    unfolding R(2)[OF that(1)] using that(2) by (simp add: relaxed_def)
  have routes: "route edge permitted n s v (?dist ! v)" if v: "v < n" "permitted v" "?dist ! v < u64_max" for v
  proof (cases "?dist ! v = distances ! v")
    case True
    with inv v show ?thesis by (auto simp: search_inv_def)
  next
    case False
    then obtain c where c: "edge current v = Some c" "?dist ! v = saturating_add 64 (distances ! current) c"
      using R(2)[OF v(1)] by (auto simp: relaxed_def min_def split: if_splits option.splits)
    then have "?dist ! v = distances ! current + c" using v(3) by (simp add: saturating_add_def min_def split: if_splits)
    moreover have "route edge permitted n s current (distances ! current)" using inv cur by (auto simp: search_inv_def)
    ultimately show ?thesis
      using route_hop[where edge = edge and permitted = permitted, OF _ v(1,2) c(1)] by simp
  qed
  have best: "?dist ! u \<le> d" if u: "u < n" "?vis ! u" "route edge permitted n s u d" for u d
    using u inv unvisited_bound[OF inv s least u(3)] vis[OF u(1)] keep[OF u(1,2)] cur(3)
    by (auto simp: search_inv_def)
  have edges: "?dist ! v \<le> ?dist ! u + c"
    if e: "u < n" "v < n" "?vis ! u" "permitted v" "\<not> ?vis ! v" "edge u v = Some c" for u v c
  proof (cases "u = current")
    case True
    then have "?dist ! v \<le> saturating_add 64 (distances ! current) c"
      using R(2)[OF e(2)] e by (auto simp: relaxed_def)
    then show ?thesis using keep[OF e(1,3)] True by (simp add: saturating_add_def)
  next
    case False
    then have "visited ! u" "\<not> visited ! v" using vis e by auto
    then have "distances ! v \<le> distances ! u + c" using inv e by (simp add: search_inv_def)
    with le[OF e(2)] keep[OF e(1,3)] show ?thesis by simp
  qed
  have "?dist ! s = 0" using le[OF s(1)] inv by (simp add: search_inv_def)
  moreover have "?dist ! v \<le> u64_max" if "v < n" for v
    using le[OF that] inv that by (auto simp: search_inv_def intro: order_trans)
  moreover have "permitted u" if "u < n" "?vis ! u" for u
    using that vis inv cur by (auto simp: search_inv_def)
  ultimately show ?thesis unfolding search_inv_def using len R(1) routes best edges by simp
qed

lemma search_loop_correct:
  assumes "search_inv edge permitted n s visited distances" "s < n" "permitted s"
    and "destination < n" "permitted destination" "\<not> visited ! destination"
    and "length (filter (\<lambda>r. permitted r \<and> \<not> visited ! r) [0..<n]) \<le> iterations"
  shows "case search_loop edge permitted n destination iterations visited distances of
       Some d \<Rightarrow> d < u64_max \<and> route edge permitted n s destination d \<and>
         (\<forall>d'. route edge permitted n s destination d' \<longrightarrow> d \<le> d')
     | None \<Rightarrow> \<forall>d'. route edge permitted n s destination d' \<longrightarrow> u64_max \<le> d'"
  using assms
proof (induction iterations arbitrary: visited distances)
  case 0
  then have "filter (\<lambda>r. permitted r \<and> \<not> visited ! r) [0..<n] = []" by simp
  then have False using 0(4-6) by (auto simp: filter_empty_conv)
  then show ?case ..
next
  case (Suc k)
  let ?open = "filter (\<lambda>r. permitted r \<and> \<not> visited ! r) [0..<n]"
  have "destination \<in> set ?open" using Suc.prems by simp
  then have "?open \<noteq> []" by force
  then obtain current where m: "min_by_key (\<lambda>r. distances ! r) ?open = Some current"
    by (cases "min_by_key (\<lambda>r. distances ! r) ?open") auto
  from min_by_key_Some[OF m] have cur: "current < n" "permitted current" "\<not> visited ! current"
    and least: "\<forall>v < n. permitted v \<longrightarrow> \<not> visited ! v \<longrightarrow> distances ! current \<le> distances ! v" by auto
  have top: "\<forall>v < n. distances ! v \<le> u64_max" using Suc.prems(1) by (simp add: search_inv_def)
  note bound = unvisited_bound[OF Suc.prems(1-3) least _ Suc.prems(6)]
  show ?case
  proof (cases "distances ! current = u64_max")
    case True
    then have "distances ! destination = u64_max" using least top Suc.prems(4-6) by (metis le_antisym)
    then show ?thesis using m True bound by (simp add: finite_distance_def)
  next
    case False
    then have lt: "distances ! current < u64_max" using top cur(1) by (metis le_neq_implies_less)
    show ?thesis
    proof (cases "current = destination")
      case True
      then have "route edge permitted n s destination (distances ! current)"
        using Suc.prems(1) cur lt by (simp add: search_inv_def)
      then show ?thesis using m True lt bound by simp
    next
      case ne: False
      let ?vis = "visited[current := True]"
      have len: "length visited = n" using Suc.prems(1) by (simp add: search_inv_def)
      have "\<not> ?vis ! destination" using ne Suc.prems(4,6) len by (simp add: nth_list_update)
      moreover have "length (filter (\<lambda>r. permitted r \<and> \<not> ?vis ! r) [0..<n]) \<le> k"
      proof -
        have "set (filter (\<lambda>r. permitted r \<and> \<not> ?vis ! r) [0..<n]) \<subseteq> set ?open - {current}"
          using len cur by (auto simp: nth_list_update split: if_splits)
        then have "card (set (filter (\<lambda>r. permitted r \<and> \<not> ?vis ! r) [0..<n])) \<le> card (set ?open - {current})"
          by (intro card_mono) auto
        also have "\<dots> = card (set ?open) - 1" using cur by (intro card_Diff_singleton) auto
        finally show ?thesis using Suc.prems(7) by (simp only: distinct_card[OF distinct_filter[OF distinct_upt]])
      qed
      ultimately show ?thesis
        using Suc.IH[OF search_inv_step[OF Suc.prems(1-3) cur lt least] Suc.prems(2-5)] m False ne by (simp add: Let_def)
    qed
  qed
qed

lemma search_inv_start:
  assumes "s < n" "permitted s"
  shows "search_inv edge permitted n s (replicate n False) ((replicate n u64_max)[s := 0])"
  using assms by (auto simp: search_inv_def nth_list_update intro: route_here)

lemma search_correct:
  assumes "s < n" "permitted s" "v < n" "permitted v" "length (filter permitted [0..<n]) \<le> iterations"
  shows "search_loop edge permitted n v iterations (replicate n False) ((replicate n u64_max)[s := 0]) = Some d
      \<longleftrightarrow> d < u64_max \<and> route edge permitted n s v d \<and> (\<forall>d'. route edge permitted n s v d' \<longrightarrow> d \<le> d')"
proof -
  have "filter (\<lambda>r. permitted r \<and> \<not> replicate n False ! r) [0..<n] = filter permitted [0..<n]"
    by (rule filter_cong) auto
  with search_loop_correct[where permitted = permitted, OF search_inv_start[where permitted = permitted, OF assms(1,2)] assms(1-4), of iterations edge] assms(3,5)
  show ?thesis by (auto split: option.splits intro: le_antisym)
qed

section \<open>Times of a link\<close>

lemma transfer_time_exact:
  assumes "payload < 2 ^ 64" "0 < bandwidth" "bandwidth < 2 ^ 64"
  shows "transfer_time_ns_u128 payload bandwidth = (payload * 1000 + bandwidth - 1) div bandwidth"
proof -
  have "payload * 1000 \<le> 2 ^ 64 * 1000" using assms(1) by simp
  moreover have "(2::nat) ^ 64 * 1000 + 2 ^ 64 \<le> 2 ^ 128 - 1" by simp
  ultimately have "payload * 1000 + (bandwidth - 1) \<le> 2 ^ 128 - 1" using assms(3) by linarith
  then show ?thesis using assms(2) by (simp add: transfer_time_ns_u128_def saturating_mul_def saturating_add_def Let_def)
qed

text \<open>The time a link of the topology takes, as the search reads it.\<close>

definition hop_time :: "collective_topology \<Rightarrow> nat \<Rightarrow> nat option \<Rightarrow> nat \<Rightarrow> nat \<Rightarrow> nat option" where
  "hop_time t payload rail current nxt = map_option (\<lambda>l. link_transfer_time_ns l payload)
     (case rail of Some rail \<Rightarrow> link_on_rail t current nxt rail | None \<Rightarrow> link t current nxt)"

lemma shortest_for_rail_iff:
  assumes "source < ct_world_size t" "destination < ct_world_size t"
  shows "shortest_transfer_time_ns_for_rail t source destination payload rail = Some d \<longleftrightarrow>
     d < u64_max \<and> route (hop_time t payload rail) (\<lambda>_. True) (ct_world_size t) source destination d \<and>
     (\<forall>d'. route (hop_time t payload rail) (\<lambda>_. True) (ct_world_size t) source destination d' \<longrightarrow> d \<le> d')"
proof (cases "source = destination")
  case True
  have "route (hop_time t payload rail) (\<lambda>_. True) (ct_world_size t) source source 0" by (rule route_here)
  with True show ?thesis by (auto simp: shortest_transfer_time_ns_for_rail_def)
next
  case False
  have e: "hop_time t payload rail = (\<lambda>current nxt. map_option (\<lambda>l. link_transfer_time_ns l payload)
      (case rail of Some rail \<Rightarrow> link_on_rail t current nxt rail | None \<Rightarrow> mget (ct_links t) current nxt))"
    by (auto simp: hop_time_def link_def fun_eq_iff split: option.split)
  show ?thesis
    using False search_correct[where permitted = "\<lambda>_. True" and edge = "hop_time t payload rail", OF assms(1) _ assms(2)]
    unfolding shortest_transfer_time_ns_for_rail_def Let_def e by simp
qed

lemma permitted_fold:
  "length (fold (\<lambda>rank p. p[rank := True]) allowed p) = length p"
  "r < length p \<Longrightarrow> fold (\<lambda>rank p. p[rank := True]) allowed p ! r \<longleftrightarrow> p ! r \<or> r \<in> set allowed"
proof -
  have mark: "p[a := True] ! r \<longleftrightarrow> p ! r \<or> r = a" if "r < length p" for p a
    using that by (cases "a = r") auto
  show "length (fold (\<lambda>rank p. p[rank := True]) allowed p) = length p"
    by (induction allowed arbitrary: p) auto
  show "r < length p \<Longrightarrow> fold (\<lambda>rank p. p[rank := True]) allowed p ! r \<longleftrightarrow> p ! r \<or> r \<in> set allowed"
    by (induction allowed arbitrary: p) (auto simp: mark)
qed

lemma route_cong:
  assumes "\<And>v. v < n \<Longrightarrow> permitted v \<longleftrightarrow> permitted' v"
  shows "route edge permitted n s v d \<longleftrightarrow> route edge permitted' n s v d"
proof -
  have "route edge q n s v d" if "route edge p n s v d" "\<And>v. v < n \<Longrightarrow> p v \<longleftrightarrow> q v" for p q v d
    using that by (induction rule: route.induct) (auto intro: route.intros)
  with assms show ?thesis by blast
qed

lemma shortest_within_iff:
  assumes "source \<in> set allowed" "destination \<in> set allowed" "\<forall>r \<in> set allowed. r < ct_world_size t"
  shows "shortest_transfer_time_ns_within t source destination payload allowed = Some d \<longleftrightarrow>
     d < u64_max \<and> route (hop_time t payload None) (\<lambda>r. r \<in> set allowed) (ct_world_size t) source destination d \<and>
     (\<forall>d'. route (hop_time t payload None) (\<lambda>r. r \<in> set allowed) (ct_world_size t) source destination d' \<longrightarrow> d \<le> d')"
proof (cases "source = destination")
  case True
  have "route (hop_time t payload None) (\<lambda>r. r \<in> set allowed) (ct_world_size t) source source 0" by (rule route_here)
  with True show ?thesis by (auto simp: shortest_transfer_time_ns_within_def)
next
  case False
  let ?n = "ct_world_size t"
  define p where "p = fold (\<lambda>rank p. p[rank := True]) allowed (replicate ?n False)"
  have p: "p ! r \<longleftrightarrow> r \<in> set allowed" if "r < ?n" for r
    using permitted_fold(2)[of r "replicate ?n False" allowed] that by (simp add: p_def)
  have e: "hop_time t payload None = (\<lambda>current nxt. map_option (\<lambda>l. link_transfer_time_ns l payload) (mget (ct_links t) current nxt))"
    by (simp add: hop_time_def link_def fun_eq_iff)
  have in_n: "source < ?n" "destination < ?n" using assms by auto
  have "card (set (filter (\<lambda>r. p ! r) [0..<?n])) \<le> card (set allowed)"
    using p by (intro card_mono) auto
  then have cnt: "length (filter (\<lambda>r. p ! r) [0..<?n]) \<le> length allowed"
    using card_length[of allowed] by (simp only: distinct_card[OF distinct_filter[OF distinct_upt]])
  have "route edge (\<lambda>r. p ! r) ?n source v x \<longleftrightarrow> route edge (\<lambda>r. r \<in> set allowed) ?n source v x" for edge v x
    by (rule route_cong) (rule p)
  with search_correct[where permitted = "\<lambda>r. p ! r" and edge = "hop_time t payload None", OF in_n(1) _ in_n(2) _ cnt, of d]
    p[OF in_n(1)] p[OF in_n(2)] assms False
  show ?thesis unfolding shortest_transfer_time_ns_within_def Let_def p_def[symmetric] e by simp
qed

section \<open>Properties\<close>

text \<open>C20. The search is Dijkstra's: between two ranks of the topology, over the default links or over one
  rail, it returns a cost exactly when some route costs less than \<open>u64::MAX\<close>, and then the least cost
  of a route; restricted to a group, the same over routes that stay in the group.\<close>

theorem shortest_transfer_time_minimal:
  assumes "source < ct_world_size t" "destination < ct_world_size t"
  shows "(shortest_transfer_time_ns_for_rail t source destination payload rail = Some d \<longleftrightarrow>
     d < u64_max \<and> route (hop_time t payload rail) (\<lambda>_. True) (ct_world_size t) source destination d \<and>
     (\<forall>d'. route (hop_time t payload rail) (\<lambda>_. True) (ct_world_size t) source destination d' \<longrightarrow> d \<le> d')) \<and>
   (source \<in> set allowed \<and> destination \<in> set allowed \<and> (\<forall>r \<in> set allowed. r < ct_world_size t) \<longrightarrow>
     (shortest_transfer_time_ns_within t source destination payload allowed = Some d \<longleftrightarrow>
     d < u64_max \<and> route (hop_time t payload None) (\<lambda>r. r \<in> set allowed) (ct_world_size t) source destination d \<and>
     (\<forall>d'. route (hop_time t payload None) (\<lambda>r. r \<in> set allowed) (ct_world_size t) source destination d' \<longrightarrow> d \<le> d')))"
  using shortest_for_rail_iff[OF assms] shortest_within_iff by blast

lemmas search_3 = search_loop.simps(2)[of _ _ _ _ 2, simplified] search_loop.simps(2)[of _ _ _ _ 1, unfolded Suc_1]
  search_loop.simps(2)[of _ _ _ _ 0, simplified]

lemma sample_shortest: "shortest_transfer_time_ns_for_rail sample_topology 0 2 8 None = Some 3012"
  by (simp add: sample_topology_eq shortest_transfer_time_ns_for_rail_def relax_def mget_def saturating_add_def
      link_transfer_time_ns_def transfer_time_ns_def transfer_time_ns_u128_def saturating_mul_def saturating_u64_def
      Let_def three_ranks search_3)

theorem shortest_transfer_time_minimal_witness:
  "route (hop_time sample_topology 8 None) (\<lambda>_. True) (ct_world_size sample_topology) 0 2 3012 \<and>
   \<not> route (hop_time sample_topology 8 None) (\<lambda>_. True) (ct_world_size sample_topology) 0 2 3000"
proof -
  have "ct_world_size sample_topology = 3" by (simp add: sample_topology_eq Let_def)
  with shortest_transfer_time_minimal[of 0 sample_topology 2 8 None 3012] sample_shortest show ?thesis by fastforce
qed

text \<open>Times never wrap: a transfer takes the bandwidth-limited time rounded up to a nanosecond, the
  128-bit intermediate never saturates, and the 64-bit result is that time capped at \<open>u64::MAX\<close>; more
  bytes never take less time, more bandwidth never more.\<close>

theorem transfer_time_rounds_up:
  assumes "payload < 2 ^ 64" "payload' \<le> payload" "0 < bandwidth" "bandwidth \<le> bandwidth'" "bandwidth' < 2 ^ 64"
  shows "transfer_time_ns payload bandwidth = min (div_ceil (payload * 1000) bandwidth) u64_max \<and>
     transfer_time_ns payload' bandwidth \<le> transfer_time_ns payload bandwidth \<and>
     transfer_time_ns payload bandwidth' \<le> transfer_time_ns payload bandwidth"
proof -
  have up: "(x + b - 1) div b = div_ceil x b" if "0 < b" for x b :: nat
  proof (cases "x mod b = 0")
    case True
    then obtain q where q: "x = b * q" by (auto elim: dvdE)
    have "(b * q + (b - 1)) div b = q" using that by (subst div_mult_self4) simp_all
    with q that show ?thesis by (simp add: div_ceil_def)
  next
    case False
    have "x = b * (x div b) + x mod b" by simp
    moreover have "b * (x div b) + b = b * (x div b + 1)" by simp
    ultimately have "x + b - 1 = b * (x div b + 1) + (x mod b - 1)" using False by linarith
    moreover have "(b * (x div b + 1) + (x mod b - 1)) div b = x div b + 1"
    proof -
      have "x mod b - 1 < b" using that mod_less_divisor[of b x] by linarith
      then show ?thesis using that by (subst div_mult_self4) (simp_all add: div_less)
    qed
    ultimately show ?thesis using False by (simp add: div_ceil_def)
  qed
  have t: "transfer_time_ns p b = min ((p * 1000 + b - 1) div b) u64_max" if "p < 2 ^ 64" "0 < b" "b < 2 ^ 64" for p b
    using transfer_time_exact[OF that] by (simp add: transfer_time_ns_def saturating_u64_def min_def)
  have b: "0 < bandwidth'" "bandwidth < 2 ^ 64" "payload' < 2 ^ 64" using assms by auto
  have more: "(payload' * 1000 + bandwidth - 1) div bandwidth \<le> (payload * 1000 + bandwidth - 1) div bandwidth"
    using assms(2) by (intro div_le_mono diff_le_mono add_le_mono1 mult_le_mono1)
  have faster: "div_ceil x bandwidth' \<le> div_ceil x bandwidth" for x
  proof -
    have "x \<le> bandwidth * div_ceil x bandwidth" by (rule div_ceil_mult_ge[OF assms(3)])
    also have "\<dots> \<le> bandwidth' * div_ceil x bandwidth" using assms(4) by simp
    finally have "x + bandwidth' - 1 < bandwidth' * Suc (div_ceil x bandwidth)" using b(1) by (simp add: algebra_simps)
    then have "(x + bandwidth' - 1) div bandwidth' < Suc (div_ceil x bandwidth)"
      using b(1) by (simp only: div_less_iff_less_mult mult.commute)
    then show ?thesis by (simp only: up[OF b(1)])
  qed
  show ?thesis
    using t[OF assms(1,3) b(2)] t[OF b(3) assms(3) b(2)] t[OF assms(1) b(1) assms(5)] more faster[of "payload * 1000"]
    by (simp only: up[OF assms(3)] up[OF b(1)]) (auto intro: min.mono)
qed

theorem transfer_time_rounds_up_witness:
  "transfer_time_ns 10 3 = 3334 \<and> transfer_time_ns 9 3 \<le> 3334 \<and> transfer_time_ns 10 7 \<le> 3334"
  using transfer_time_rounds_up[of 10 9 3 7] by (simp add: div_ceil_def)

end
