(* ===== verification/Ring_Search.thy ===== *)
theory Ring_Search
  imports Shortest_Path "HOL-Library.List_Lexorder" "HOL-Library.Product_Lexorder"
begin

text \<open>
  The search for collective rings in \<^verbatim>\<open>src/rank/topology.rs\<close>: the score of a ring, the exhaustive
  enumeration for up to nine ranks, the greedy construction beyond, the selection of edge-diverse
  rings, and the order of rails. A ring is a list of ranks whose last rank is joined to the first.
\<close>

section \<open>Scores\<close>

definition EXACT_RING_SEARCH_MAX_RANKS :: nat where "EXACT_RING_SEARCH_MAX_RANKS = 9"

text \<open>\<open>RingScore\<close> derives its order from its fields, in their order.\<close>

datatype ringscore = Ring_Score (rs_bottleneck: nat) (rs_total_bandwidth: nat) (rs_inverse_latency: nat)

instantiation ringscore :: linorder
begin

definition less_eq_ringscore :: "ringscore \<Rightarrow> ringscore \<Rightarrow> bool" where
  "less_eq_ringscore a b \<longleftrightarrow>
     (rs_bottleneck a, rs_total_bandwidth a, rs_inverse_latency a) \<le>
     (rs_bottleneck b, rs_total_bandwidth b, rs_inverse_latency b)"

definition less_ringscore :: "ringscore \<Rightarrow> ringscore \<Rightarrow> bool" where
  "less_ringscore a b \<longleftrightarrow>
     (rs_bottleneck a, rs_total_bandwidth a, rs_inverse_latency a) <
     (rs_bottleneck b, rs_total_bandwidth b, rs_inverse_latency b)"

instance
  by standard (auto simp: less_eq_ringscore_def less_ringscore_def ringscore.expand)

end

text \<open>\<open>order[index]\<close> and \<open>order[(index + 1) % order.len()]\<close> for every index.\<close>

definition ring_hops :: "nat list \<Rightarrow> (nat \<times> nat) list" where
  "ring_hops order = map (\<lambda>index. (order ! index, order ! ((index + 1) mod length order))) [0..<length order]"

definition score_hop ::
  "collective_topology \<Rightarrow> nat \<times> nat \<Rightarrow> nat \<times> nat \<times> nat \<Rightarrow> topology_error + nat \<times> nat \<times> nat" where
  "score_hop t hop acc =
     (case (hop, acc) of ((first, second), (bottleneck, total_bandwidth, total_latency)) \<Rightarrow>
        bind_r (ok_or (link t first second)
            (InvalidRing (Msg ''ring edge {first}-{second} is not connected'' [ANat first, ANat second]))) (\<lambda>l.
          Inr (min bottleneck (lc_bandwidth_mbps l), total_bandwidth + lc_bandwidth_mbps l,
               total_latency + lc_latency_ns l)))"

text \<open>The 128-bit totals cannot overflow: fewer than \<open>2 ^ 32\<close> hops of less than \<open>2 ^ 64\<close> each.\<close>

definition ring_score :: "collective_topology \<Rightarrow> nat list \<Rightarrow> topology_error + ringscore" where
  "ring_score t order =
     bind_r (validate_ring_order (ct_world_size t) order) (\<lambda>_.
     bind_r (fold_r (score_hop t) (ring_hops order) (u64_max, 0, 0)) (\<lambda>(bottleneck, total_bandwidth, total_latency).
       Inr (Ring_Score bottleneck total_bandwidth (u128_max - total_latency))))"

section \<open>Candidates\<close>

text \<open>\<open>once(0).chain(order[1..].iter().rev())\<close>.\<close>

definition reversed_ring :: "nat list \<Rightarrow> nat list" where
  "reversed_ring order = 0 # rev (tl order)"

text \<open>
  The depth-first enumeration; \<open>order\<close> and \<open>used\<close> are restored after each call, so a call depends on
  its arguments only. \<open>order\<close> never grows past the world size, where the source tests equality.
\<close>

function collect_rings :: "collective_topology \<Rightarrow> nat list \<Rightarrow> bool list \<Rightarrow> nat list list" where
  "collect_rings t order used =
     (if ct_world_size t \<le> length order then
        (if link t (last order) (order ! 0) = None then []
         else if order \<le> reversed_ring order then [order] else [])
      else
        concat (map (\<lambda>candidate.
          if used ! candidate \<or> link t (last order) candidate = None then []
          else collect_rings t (order @ [candidate]) (used[candidate := True]))
          [1..<ct_world_size t]))"
  by pat_completeness auto
termination
  by (relation "measure (\<lambda>(t, order, used). ct_world_size t - length order)") auto

declare collect_rings.simps [simp del]

definition rotate_ring_to_zero :: "nat list \<Rightarrow> nat list" where
  "rotate_ring_to_zero order =
     (let order = (case position (\<lambda>rank. rank = 0) order of Some p \<Rightarrow> rotate p order | None \<Rightarrow> order);
          reversed = reversed_ring order
      in if reversed < order then reversed else order)"

text \<open>The greedy ring from a start rank: \<open>None\<close> when the walk is stuck (\<open>order.clear(); break\<close>).\<close>

function greedy_ring :: "collective_topology \<Rightarrow> nat list \<Rightarrow> bool list \<Rightarrow> nat list option" where
  "greedy_ring t order used =
     (if ct_world_size t \<le> length order then Some order
      else
        let current = last order;
            open_links = List.map_filter (\<lambda>rank. map_option (\<lambda>cost. (rank, lc_bandwidth_mbps cost, lc_latency_ns cost))
                (link t current rank)) (filter (\<lambda>rank. \<not> used ! rank) [0..<ct_world_size t])
        in (case max_by_key (\<lambda>(rank, bandwidth, latency). (bandwidth, u64_max - latency, u32_max - rank)) open_links of
              None \<Rightarrow> None
            | Some (nxt, _, _) \<Rightarrow> greedy_ring t (order @ [nxt]) (used[nxt := True])))"
  by pat_completeness auto
termination
  by (relation "measure (\<lambda>(t, order, used). ct_world_size t - length order)") auto

declare greedy_ring.simps [simp del]

definition greedy_candidate :: "collective_topology \<Rightarrow> nat \<Rightarrow> nat list list \<Rightarrow> nat list list" where
  "greedy_candidate t start candidates =
     (case greedy_ring t [start] ((replicate (ct_world_size t) False)[start := True]) of
        None \<Rightarrow> candidates
      | Some order \<Rightarrow>
          if link t (last order) (order ! 0) = None then candidates
          else let order = rotate_ring_to_zero order
               in if order \<in> set candidates then candidates else candidates @ [order])"

section \<open>Selection\<close>

definition ring_usage :: "nat matrix \<Rightarrow> nat list \<Rightarrow> nat \<times> nat" where
  "ring_usage edge_usage order =
     fold (\<lambda>(first, second) (maximum_usage, total_usage).
         let usage = mget edge_usage first second
         in (max maximum_usage usage, saturating_add 64 total_usage usage))
       (ring_hops order) (0, 0)"

definition pick_ring ::
  "collective_topology \<Rightarrow> nat matrix \<Rightarrow> nat \<times> nat list \<Rightarrow> nat \<times> (nat \<times> nat \<times> ringscore) option
     \<Rightarrow> topology_error + nat \<times> (nat \<times> nat \<times> ringscore) option" where
  "pick_ring t edge_usage candidate best =
     (case (candidate, best) of ((index, order), (best_index, best_key)) \<Rightarrow>
        let (maximum_usage, total_usage) = ring_usage edge_usage order
        in bind_r (ring_score t order) (\<lambda>score.
             let key = (2 ^ 16 - 1 - maximum_usage, u64_max - total_usage, score)
             in Inr (if (case best_key of None \<Rightarrow> True | Some current \<Rightarrow> current < key)
                     then (index, Some key) else best)))"

definition mark_usage :: "nat list \<Rightarrow> nat matrix \<Rightarrow> nat matrix" where
  "mark_usage order edge_usage =
     fold (\<lambda>(first, second) u.
         let u = mset_at u first second (saturating_add 16 (mget u first second) 1)
         in mset_at u second first (saturating_add 16 (mget u second first) 1))
       (ring_hops order) edge_usage"

text \<open>The first argument counts \<open>maximum - selected.len()\<close>, the number of rings still wanted.\<close>

fun select_loop ::
  "nat \<Rightarrow> collective_topology \<Rightarrow> nat matrix \<Rightarrow> nat list list \<Rightarrow> topology_error + nat list list" where
  "select_loop 0 t edge_usage candidates = Inr []"
| "select_loop (Suc wanted) t edge_usage candidates =
     (if candidates = [] then Inr []
      else bind_r (fold_r (pick_ring t edge_usage) (enumerate 0 candidates) (0, None)) (\<lambda>(best_index, _).
        let order = candidates ! best_index
        in bind_r (select_loop wanted t (mark_usage order edge_usage) (remove_at best_index candidates)) (\<lambda>rest.
             Inr (order # rest))))"

definition select_diverse_rings ::
  "collective_topology \<Rightarrow> nat list list \<Rightarrow> nat \<Rightarrow> topology_error + nat list list" where
  "select_diverse_rings t candidates maximum =
     (if candidates = []
      then Inl (InvalidRing (Msg ''topology does not contain a closed rank ring'' []))
      else let candidates = remdups_adj (sort candidates); rank_count = ct_world_size t
           in select_loop maximum t (replicate rank_count (replicate rank_count 0)) candidates)"

definition best_ring_orders :: "collective_topology \<Rightarrow> nat \<Rightarrow> topology_error + nat list list" where
  "best_ring_orders t maximum =
     (if maximum = 0 then Inr []
      else if ct_world_size t = 1 then Inr [[0]]
      else if ct_world_size t \<le> EXACT_RING_SEARCH_MAX_RANKS then
        select_diverse_rings t
          (collect_rings t [0] ((replicate (ct_world_size t) False)[0 := True])) maximum
      else select_diverse_rings t (fold (greedy_candidate t) [0..<ct_world_size t] []) maximum)"

text \<open>\<open>best_ring_orders(1)?.remove(0)\<close>.\<close>

definition best_ring_order :: "collective_topology \<Rightarrow> topology_error + nat list" where
  "best_ring_order t = bind_r (best_ring_orders t 1) (\<lambda>orders. Inr (hd orders))"

section \<open>Distinct rings of a tuning\<close>

definition ring_edges :: "nat list \<Rightarrow> (nat \<times> nat) list" where
  "ring_edges order = sort (map (\<lambda>(first, second). (min first second, max first second)) (ring_hops order))"

definition ring_orders_with_primary :: "collective_topology \<Rightarrow> nat list \<Rightarrow> nat list list" where
  "ring_orders_with_primary t primary =
     (let primary_edges = ring_edges primary
      in case best_ring_orders t MAX_RING_CHANNELS of
           Inl _ \<Rightarrow> [primary]
         | Inr candidates \<Rightarrow>
             fold (\<lambda>candidate orders.
               let edges = ring_edges candidate
               in if edges \<noteq> primary_edges \<and> \<not> list_ex (\<lambda>order. ring_edges order = edges) orders
                  then orders @ [candidate] else orders)
             candidates [primary])"

section \<open>Rails\<close>

definition rail_score :: "collective_topology \<Rightarrow> nat \<Rightarrow> ringscore" where
  "rail_score t rail =
     (case fold (\<lambda>(first, second) (bottleneck, total_bandwidth, total_latency, link_count).
           case link_on_rail t first second rail of
             None \<Rightarrow> (bottleneck, total_bandwidth, total_latency, link_count)
           | Some l \<Rightarrow> (min bottleneck (lc_bandwidth_mbps l), saturating_add 128 total_bandwidth (lc_bandwidth_mbps l),
                        saturating_add 128 total_latency (lc_latency_ns l), link_count + 1))
         (rank_pairs (ct_world_size t)) (u64_max, 0, 0, 0 :: nat) of
        (bottleneck, total_bandwidth, total_latency, link_count) \<Rightarrow>
          Ring_Score (if link_count = 0 then 0 else bottleneck) total_bandwidth (u128_max - total_latency))"

text \<open>Scores descending, rail numbers ascending: no two rails compare equal.\<close>

definition rail_before :: "ringscore \<times> nat \<Rightarrow> ringscore \<times> nat \<Rightarrow> bool" where
  "rail_before x y \<longleftrightarrow> fst y < fst x \<or> fst x = fst y \<and> snd x \<le> snd y"

fun insert_rail :: "ringscore \<times> nat \<Rightarrow> (ringscore \<times> nat) list \<Rightarrow> (ringscore \<times> nat) list" where
  "insert_rail x [] = [x]"
| "insert_rail x (y # ys) = (if rail_before x y then x # y # ys else y # insert_rail x ys)"

definition preferred_rail_order :: "collective_topology \<Rightarrow> nat \<Rightarrow> nat list" where
  "preferred_rail_order t rail_count =
     map snd (foldr insert_rail (map (\<lambda>rail. (rail_score t rail, rail)) [0..<rail_count]) [])"

definition balanced_sizes :: "nat \<Rightarrow> nat \<Rightarrow> nat list" where
  "balanced_sizes tot parts =
     (let base = tot div parts; remainder = tot mod parts
      in map (\<lambda>part. base + (if part < remainder then 1 else 0)) [0..<parts])"

section \<open>Rings as lists\<close>

lemma ring_hops_zip: "ring_hops order = zip order (rotate1 order)"
  by (rule nth_equalityI) (simp_all add: ring_hops_def nth_rotate1)

lemma ring_hops_Cons: "ring_hops (x # xs) = zip (x # xs) (xs @ [x])"
  by (simp add: ring_hops_zip)

lemma ring_hops_rotate1: "ring_hops (rotate1 xs) = rotate1 (ring_hops xs)"
proof (cases xs)
  case (Cons a l)
  show ?thesis
  proof (cases l)
    case (Cons b m)
    have "zip ((b # m) @ [a]) ((m @ [a]) @ [b]) = zip (b # m) (m @ [a]) @ zip [a] [b]" by (rule zip_append) simp
    with \<open>xs = a # l\<close> Cons show ?thesis by (simp add: ring_hops_zip)
  qed (simp add: ring_hops_zip \<open>xs = a # l\<close>)
qed (simp add: ring_hops_zip)

lemma ring_hops_rotate: "ring_hops (rotate k xs) = rotate k (ring_hops xs)"
  by (induction k) (simp_all add: ring_hops_rotate1)

lemma ring_hops_reversed:
  "ring_hops (x # rev xs) = rev (map (\<lambda>(a, b). (b, a)) (ring_hops (x # xs)))"
proof -
  have "rev (zip (x # rev xs) (rev xs @ [x])) = zip (rev (x # rev xs)) (rev (rev xs @ [x]))"
    by (rule zip_rev[symmetric]) simp
  also have "\<dots> = zip (xs @ [x]) (x # xs)" by simp
  also have "\<dots> = map (\<lambda>(a, b). (b, a)) (zip (x # xs) (xs @ [x]))" by (rule zip_commute)
  finally show ?thesis by (metis rev_swap ring_hops_Cons)
qed

lemma set_ring_hops: "(a, b) \<in> set (ring_hops xs) \<Longrightarrow> a \<in> set xs \<and> b \<in> set xs"
  by (auto simp: ring_hops_zip dest: set_zip_leftD set_zip_rightD)

text \<open>A closed ring: a permutation of the ranks whose consecutive ranks, cyclically, are linked.\<close>

definition closed_ring :: "collective_topology \<Rightarrow> nat list \<Rightarrow> bool" where
  "closed_ring t order \<longleftrightarrow> distinct order \<and> set order = {..<ct_world_size t} \<and>
     (\<forall>(a, b) \<in> set (ring_hops order). link t a b \<noteq> None)"

definition linked :: "collective_topology \<Rightarrow> nat \<Rightarrow> nat \<Rightarrow> bool" where
  "linked t a b \<longleftrightarrow> link t a b \<noteq> None"

lemma hops_linked:
  "xs \<noteq> [] \<Longrightarrow> (\<forall>(a, b) \<in> set (ring_hops xs). linked t a b) \<longleftrightarrow>
     successively (linked t) xs \<and> linked t (last xs) (hd xs)"
proof -
  have zip: "(\<forall>(a, b) \<in> set (zip (y # ys) (ys @ [z])). linked t a b) \<longleftrightarrow>
      successively (linked t) (y # ys) \<and> linked t (last (y # ys)) z" for y ys z
  proof (induction ys arbitrary: y)
    case (Cons a ys)
    from Cons.IH[of a] show ?case by (simp only: append_Cons zip_Cons_Cons list.set successively.simps last.simps) auto
  qed auto
  assume "xs \<noteq> []"
  then show ?thesis using zip by (cases xs) (auto simp: ring_hops_Cons)
qed

lemma closed_ring_iff:
  "closed_ring t xs \<longleftrightarrow> distinct xs \<and> set xs = {..<ct_world_size t} \<and>
     (xs \<noteq> [] \<longrightarrow> successively (linked t) xs \<and> linked t (last xs) (hd xs))"
proof (cases "xs = []")
  case False
  with hops_linked[OF False, of t] show ?thesis by (auto simp: closed_ring_def linked_def)
qed (simp add: closed_ring_def ring_hops_def)

lemma topology_ok_link_sym: "topology_ok t \<Longrightarrow> a < ct_world_size t \<Longrightarrow> b < ct_world_size t \<Longrightarrow> link t a b = link t b a"
  by (simp add: topology_ok_def matrix_ok_def link_def)

lemma closed_ring_rotate: "closed_ring t (rotate k xs) \<longleftrightarrow> closed_ring t xs"
  by (simp add: closed_ring_def ring_hops_rotate)

lemma closed_ring_reversed:
  assumes "topology_ok t" "closed_ring t (x # xs)"
  shows "closed_ring t (x # rev xs)"
proof -
  have "link t b a \<noteq> None" if "(a, b) \<in> set (ring_hops (x # xs))" for a b
    using that assms topology_ok_link_sym[OF assms(1), of a b] set_ring_hops[OF that] by (fastforce simp: closed_ring_def)
  then show ?thesis using assms(2) by (auto simp: closed_ring_def ring_hops_reversed)
qed

section \<open>Scores of closed rings\<close>

definition bandwidth_of :: "collective_topology \<Rightarrow> nat \<times> nat \<Rightarrow> nat" where
  "bandwidth_of t hop = lc_bandwidth_mbps (the (link t (fst hop) (snd hop)))"

definition latency_of :: "collective_topology \<Rightarrow> nat \<times> nat \<Rightarrow> nat" where
  "latency_of t hop = lc_latency_ns (the (link t (fst hop) (snd hop)))"

definition score_of :: "collective_topology \<Rightarrow> nat list \<Rightarrow> ringscore" where
  "score_of t order = Ring_Score (Min (insert u64_max (bandwidth_of t ` set (ring_hops order))))
     (sum_list (map (bandwidth_of t) (ring_hops order)))
     (u128_max - sum_list (map (latency_of t) (ring_hops order)))"

lemma score_hops:
  assumes "\<forall>(a, b) \<in> set hops. link t a b \<noteq> None"
  shows "fold_r (score_hop t) hops (b, tb, tlat) = Inr (Min (insert b (bandwidth_of t ` set hops)),
     tb + sum_list (map (bandwidth_of t) hops), tlat + sum_list (map (latency_of t) hops))"
  using assms
proof (induction hops arbitrary: b tb tlat)
  case (Cons hop hops)
  obtain x y where hop: "hop = (x, y)" by force
  with Cons.prems obtain l where l: "link t x y = Some l" by auto
  have m: "Min (insert (min b c) S) = Min (insert b (insert c S))" if "finite S" for b c :: nat and S
    using that by (cases "S = {}") (simp_all add: min.assoc)
  from Cons l hop show ?case
    by (simp add: score_hop_def bandwidth_of_def latency_of_def ok_or_def m add.assoc)
qed simp

lemma ring_score_closed:
  assumes "closed_ring t order" "0 < ct_world_size t"
  shows "ring_score t order = Inr (score_of t order)"
proof -
  have "validate_ring_order (ct_world_size t) order = Inr ()"
    using assms by (simp add: validate_ring_order_iff closed_ring_def)
  moreover have "\<forall>(a, b) \<in> set (ring_hops order). link t a b \<noteq> None" using assms by (simp add: closed_ring_def)
  ultimately show ?thesis using score_hops[of "ring_hops order" t u64_max 0 0] by (simp add: ring_score_def score_of_def)
qed

lemma ring_score_Inr:
  assumes "ring_score t order = Inr s"
  shows "closed_ring t order"
proof -
  obtain r where v: "validate_ring_order (ct_world_size t) order = Inr ()"
    and f: "fold_r (score_hop t) (ring_hops order) (u64_max, 0, 0) = Inr r"
    using assms by (auto simp: ring_score_def bind_r_eq_Inr)
  have "\<forall>(a, b) \<in> set hops. link t a b \<noteq> None" if "fold_r (score_hop t) hops x = Inr r" for hops x
    using that
    by (induction hops arbitrary: x)
       (fastforce simp: bind_r_eq_Inr score_hop_def ok_or_def split: prod.splits option.splits)+
  from this[OF f] v show ?thesis by (simp add: closed_ring_def validate_ring_order_iff)
qed

lemma score_of_rotate: "score_of t (rotate k xs) = score_of t xs"
proof -
  have "sum_list (map f (rotate k ys)) = sum_list (map f ys)" for f :: "nat \<times> nat \<Rightarrow> nat" and ys
  proof (induction k arbitrary: ys)
    case (Suc k)
    have "sum_list (map f (rotate1 zs)) = sum_list (map f zs)" for zs by (cases zs) simp_all
    with Suc show ?case by simp
  qed simp
  then show ?thesis by (simp add: score_of_def ring_hops_rotate)
qed

lemma score_of_reversed:
  assumes "topology_ok t" "closed_ring t (x # xs)"
  shows "score_of t (x # rev xs) = score_of t (x # xs)"
proof -
  let ?hs = "ring_hops (x # xs)" and ?swap = "\<lambda>(a, b). (b, a)"
  have sym: "link t (fst (?swap h)) (snd (?swap h)) = link t (fst h) (snd h)" if "h \<in> set ?hs" for h
    using that assms topology_ok_link_sym[OF assms(1)] set_ring_hops[of "fst h" "snd h" "x # xs"]
    by (cases h) (auto simp: closed_ring_def)
  then have "map (bandwidth_of t) (map ?swap ?hs) = map (bandwidth_of t) ?hs"
    "map (latency_of t) (map ?swap ?hs) = map (latency_of t) ?hs"
    by (auto simp: bandwidth_of_def latency_of_def)
  then show ?thesis
    by (simp only: score_of_def ring_hops_reversed rev_map[symmetric] sum_list_rev set_map[symmetric] set_rev)
qed

section \<open>The enumeration is complete\<close>

lemma collect_rings_set:
  assumes "order \<noteq> []" "distinct order" "set order \<subseteq> {..<ct_world_size t}" "0 \<in> set order"
    and "length used = ct_world_size t" "\<forall>r < ct_world_size t. used ! r \<longleftrightarrow> r \<in> set order"
  shows "zs \<in> set (collect_rings t order used) \<longleftrightarrow>
     (\<exists>rest. zs = order @ rest \<and> length zs = ct_world_size t \<and> distinct zs \<and> set zs \<subseteq> {..<ct_world_size t} \<and>
        successively (linked t) (last order # rest) \<and> linked t (last zs) (hd zs) \<and> zs \<le> reversed_ring zs)"
  using assms
proof (induction t order used rule: collect_rings.induct)
  case (1 t order used)
  let ?n = "ct_world_size t"
  have len: "length order \<le> ?n"
    using "1.prems"(2,3) by (metis card_lessThan card_mono distinct_card finite_lessThan)
  show ?case
  proof (cases "?n \<le> length order")
    case True
    then have "length order = ?n" using len by simp
    then show ?thesis using True "1.prems"
      by (subst collect_rings.simps) (auto simp: linked_def hd_conv_nth)
  next
    case False
    have step: "zs \<in> set (collect_rings t (order @ [c]) (used[c := True])) \<longleftrightarrow>
       (\<exists>rest. zs = (order @ [c]) @ rest \<and> length zs = ?n \<and> distinct zs \<and> set zs \<subseteq> {..<?n} \<and>
        successively (linked t) (c # rest) \<and> linked t (last zs) (hd zs) \<and> zs \<le> reversed_ring zs)"
      if c: "c \<in> set [1..<?n]" "\<not> (used ! c \<or> link t (last order) c = None)" for c
      using "1.IH"[OF False c] "1.prems" c by (auto simp: nth_list_update)
    have mem: "zs \<in> set (collect_rings t order used) \<longleftrightarrow>
        (\<exists>c \<in> set [1..<?n]. \<not> used ! c \<and> linked t (last order) c \<and> zs \<in> set (collect_rings t (order @ [c]) (used[c := True])))"
      using False by (subst collect_rings.simps) (auto simp: linked_def)
    show ?thesis
    proof
      assume "zs \<in> set (collect_rings t order used)"
      then obtain c where c: "c \<in> set [1..<?n]" "\<not> used ! c" "linked t (last order) c"
        "zs \<in> set (collect_rings t (order @ [c]) (used[c := True]))" using mem by blast
      then have "\<not> (used ! c \<or> link t (last order) c = None)" by (auto simp: linked_def)
      from step[OF c(1) this] c(3,4) show "\<exists>rest. zs = order @ rest \<and> length zs = ?n \<and> distinct zs \<and> set zs \<subseteq> {..<?n} \<and>
        successively (linked t) (last order # rest) \<and> linked t (last zs) (hd zs) \<and> zs \<le> reversed_ring zs"
        by fastforce
    next
      assume "\<exists>rest. zs = order @ rest \<and> length zs = ?n \<and> distinct zs \<and> set zs \<subseteq> {..<?n} \<and>
        successively (linked t) (last order # rest) \<and> linked t (last zs) (hd zs) \<and> zs \<le> reversed_ring zs"
      then obtain rest where r: "zs = order @ rest" "length zs = ?n" "distinct zs" "set zs \<subseteq> {..<?n}"
        "successively (linked t) (last order # rest)" "linked t (last zs) (hd zs)" "zs \<le> reversed_ring zs" by blast
      from r(1,2) False obtain c rest' where rest: "rest = c # rest'" by (cases rest) auto
      have "c \<noteq> 0" using r(1,3) rest "1.prems"(4) by auto
      then have c: "c \<in> set [1..<?n]" using r(1,4) rest by auto
      moreover have "\<not> used ! c" using r(1,3,4) rest "1.prems"(6) by auto
      moreover have l: "linked t (last order) c" "successively (linked t) (c # rest')" using r(5) rest by auto
      moreover from this have "\<not> (used ! c \<or> link t (last order) c = None)"
        using \<open>\<not> used ! c\<close> by (auto simp: linked_def)
      ultimately show "zs \<in> set (collect_rings t order used)"
        using mem step[OF c] r rest by auto
    qed
  qed
qed

lemma collect_all_rings:
  assumes "0 < ct_world_size t"
  shows "set (collect_rings t [0] ((replicate (ct_world_size t) False)[0 := True])) =
     {zs. closed_ring t zs \<and> hd zs = 0 \<and> zs \<le> reversed_ring zs}"
proof (rule set_eqI)
  fix zs
  let ?n = "ct_world_size t"
  have used: "\<forall>r < ?n. (replicate ?n False)[0 := True] ! r \<longleftrightarrow> r \<in> set [0 :: nat]"
    using assms by (auto simp: nth_list_update)
  note C = collect_rings_set[of "[0]" t "(replicate ?n False)[0 := True]" zs]
  have perm: "length zs = ?n \<and> distinct zs \<and> set zs \<subseteq> {..<?n} \<longleftrightarrow> distinct zs \<and> set zs = {..<?n}"
    using permutation_iff[of zs ?n] by (auto simp: subset_iff)
  have "zs \<in> set (collect_rings t [0] ((replicate ?n False)[0 := True])) \<longleftrightarrow>
     (\<exists>rest. zs = 0 # rest) \<and> (length zs = ?n \<and> distinct zs \<and> set zs \<subseteq> {..<?n}) \<and>
        successively (linked t) zs \<and> linked t (last zs) (hd zs) \<and> zs \<le> reversed_ring zs"
    using C used assms by auto
  also have "\<dots> \<longleftrightarrow> closed_ring t zs \<and> hd zs = 0 \<and> zs \<le> reversed_ring zs"
    unfolding perm closed_ring_iff using assms by (cases zs) auto
  finally show "zs \<in> set (collect_rings t [0] ((replicate ?n False)[0 := True])) \<longleftrightarrow>
      zs \<in> {zs. closed_ring t zs \<and> hd zs = 0 \<and> zs \<le> reversed_ring zs}" by simp
qed

text \<open>Every closed ring has a rotation or reversed rotation among the canonical ones, with its score.\<close>

lemma canonical_ring:
  assumes "topology_ok t" "closed_ring t xs"
  shows "\<exists>zs. closed_ring t zs \<and> hd zs = 0 \<and> zs \<le> reversed_ring zs \<and> score_of t zs = score_of t xs"
proof -
  have "0 \<in> set xs" using assms by (auto simp: closed_ring_def topology_ok_def)
  then obtain as bs where "xs = as @ 0 # bs" by (meson split_list)
  then have rot: "rotate (length as) xs = 0 # bs @ as" by (simp add: rotate_append)
  define ys where "ys = bs @ as"
  have c: "closed_ring t (0 # ys)" "score_of t (0 # ys) = score_of t xs"
    using closed_ring_rotate[of t "length as" xs] score_of_rotate[of t "length as" xs] assms(2) rot by (simp_all add: ys_def)
  show ?thesis
  proof (cases "0 # ys \<le> reversed_ring (0 # ys)")
    case True
    with c show ?thesis by (intro exI[of _ "0 # ys"]) simp
  next
    case False
    then have "0 # rev ys \<le> reversed_ring (0 # rev ys)" by (simp add: reversed_ring_def)
    with c closed_ring_reversed[OF assms(1) c(1)] score_of_reversed[OF assms(1) c(1)] show ?thesis
      by (intro exI[of _ "0 # rev ys"]) simp
  qed
qed

section \<open>Selection keeps the best\<close>

definition selection_key :: "collective_topology \<Rightarrow> nat matrix \<Rightarrow> nat list \<Rightarrow> nat \<times> nat \<times> ringscore" where
  "selection_key t u order =
     (2 ^ 16 - 1 - fst (ring_usage u order), u64_max - snd (ring_usage u order), score_of t order)"

lemma pick_rings:
  assumes "\<forall>c \<in> set cs. closed_ring t c" "0 < ct_world_size t" "cs \<noteq> []"
  shows "\<exists>i < length cs. fold_r (pick_ring t u) (enumerate 0 cs) (0, None) = Inr (i, Some (selection_key t u (cs ! i))) \<and>
     (\<forall>c \<in> set cs. selection_key t u c \<le> selection_key t u (cs ! i))"
  using assms
proof (induction cs rule: rev_induct)
  case (snoc c cs)
  have c: "pick_ring t u (k, c) b = Inr (if (case snd b of None \<Rightarrow> True | Some key \<Rightarrow> key < selection_key t u c)
      then (k, Some (selection_key t u c)) else b)" for k b
    using ring_score_closed[of t c] snoc.prems
    by (auto simp: pick_ring_def selection_key_def Let_def split: prod.splits option.splits)
  show ?case
  proof (cases "cs = []")
    case True
    then show ?thesis using c[of 0 "(0, None)"] by simp
  next
    case False
    with snoc obtain i where i: "i < length cs" "fold_r (pick_ring t u) (enumerate 0 cs) (0, None) = Inr (i, Some (selection_key t u (cs ! i)))"
      "\<forall>c \<in> set cs. selection_key t u c \<le> selection_key t u (cs ! i)" by auto
    show ?thesis
    proof (cases "selection_key t u (cs ! i) < selection_key t u c")
      case True
      then have "\<forall>d \<in> set cs. selection_key t u d \<le> selection_key t u c" using i(3) by (meson less_imp_le order_trans)
      with True i c show ?thesis by (intro exI[of _ "length cs"]) (simp add: enumerate_append_eq)
    next
      case False
      with i c show ?thesis by (intro exI[of _ i]) (simp add: enumerate_append_eq nth_append not_less)
    qed
  qed
qed simp

lemma distinct_remove_at:
  assumes "distinct xs" "i < length xs"
  shows "distinct (remove_at i xs) \<and> set (remove_at i xs) = set xs - {xs ! i}"
proof -
  have e: "xs = take i xs @ xs ! i # drop (Suc i) xs" by (rule id_take_nth_drop[OF assms(2)])
  then have d: "distinct (take i xs @ xs ! i # drop (Suc i) xs)" using assms(1) by simp
  have "set xs = set (take i xs @ xs ! i # drop (Suc i) xs)" using e by simp
  then show ?thesis using d by (auto simp: remove_at_def)
qed

lemma select_loop_ok:
  assumes "\<forall>c \<in> set cs. closed_ring t c" "0 < ct_world_size t" "distinct cs"
  shows "\<exists>sel. select_loop k t u cs = Inr sel \<and> set sel \<subseteq> set cs \<and> distinct sel \<and> length sel = min k (length cs) \<and>
     (0 < k \<and> cs \<noteq> [] \<longrightarrow> (\<forall>c \<in> set cs. selection_key t u c \<le> selection_key t u (hd sel)))"
  using assms
proof (induction k arbitrary: u cs)
  case (Suc k)
  show ?case
  proof (cases "cs = []")
    case False
    from pick_rings[OF Suc.prems(1,2) False, of u] obtain i where i: "i < length cs"
      "fold_r (pick_ring t u) (enumerate 0 cs) (0, None) = Inr (i, Some (selection_key t u (cs ! i)))"
      "\<forall>c \<in> set cs. selection_key t u c \<le> selection_key t u (cs ! i)" by blast
    note D = distinct_remove_at[OF Suc.prems(3) i(1)]
    have "\<forall>c \<in> set (remove_at i cs). closed_ring t c" using D Suc.prems(1) by auto
    from Suc.IH[OF this Suc.prems(2), of "mark_usage (cs ! i) u"] D obtain rest where
      rest: "select_loop k t (mark_usage (cs ! i) u) (remove_at i cs) = Inr rest" "set rest \<subseteq> set (remove_at i cs)"
        "distinct rest" "length rest = min k (length (remove_at i cs))" by auto
    have "select_loop (Suc k) t u cs = Inr (cs ! i # rest)" using False i(2) rest(1) by simp
    moreover have "length (cs ! i # rest) = min (Suc k) (length cs)"
      using rest(4) length_remove_at[OF i(1)] i(1) by auto
    ultimately show ?thesis using rest(2,3) D i(1,3) by (intro exI[of _ "cs ! i # rest"]) auto
  qed simp
qed simp

lemma usage_zero:
  assumes "\<forall>r \<in> set order. r < n"
  shows "ring_usage (replicate n (replicate n 0)) order = (0, 0)"
proof -
  have "fold (\<lambda>(first, second) (maximum_usage, total_usage).
         let usage = mget (replicate n (replicate n 0)) first second
         in (max maximum_usage usage, saturating_add 64 total_usage usage)) hops (0, 0) = (0, 0)"
    if "\<forall>(a, b) \<in> set hops. a < n \<and> b < n" for hops
    using that by (induction hops) (auto simp: Let_def saturating_add_def)
  moreover have "\<forall>(a, b) \<in> set (ring_hops order). a < n \<and> b < n" using assms set_ring_hops by blast
  ultimately show ?thesis unfolding ring_usage_def by blast
qed

lemma sorted_remdups_adj_distinct: "sorted xs \<Longrightarrow> distinct (remdups_adj xs)" for xs :: "'a::linorder list"
proof (induction xs rule: remdups_adj.induct)
  case (3 x y xs)
  then show ?case by (auto simp: less_le dest: order_trans)
qed simp_all

lemma select_diverse_ok:
  assumes "\<forall>c \<in> set cs. closed_ring t c" "0 < ct_world_size t" "cs \<noteq> []" "0 < k"
  shows "\<exists>sel. select_diverse_rings t cs k = Inr sel \<and> set sel \<subseteq> set cs \<and> distinct sel \<and> sel \<noteq> [] \<and>
     length sel = min k (card (set cs)) \<and> (\<forall>c \<in> set cs. score_of t c \<le> score_of t (hd sel))"
proof -
  let ?n = "ct_world_size t"
  let ?cs = "remdups_adj (sort cs)"
  have s: "set ?cs = set cs" "distinct ?cs" using sorted_remdups_adj_distinct[of "sort cs"] by simp_all
  have "?cs \<noteq> []" using s(1) assms(3) by (metis set_empty)
  moreover from select_loop_ok[of ?cs t k "replicate ?n (replicate ?n 0)"] s assms(1,2) obtain sel where
    sel: "select_loop k t (replicate ?n (replicate ?n 0)) ?cs = Inr sel" "set sel \<subseteq> set cs" "distinct sel"
      "length sel = min k (length ?cs)"
      "0 < k \<and> ?cs \<noteq> [] \<longrightarrow> (\<forall>c \<in> set cs. selection_key t (replicate ?n (replicate ?n 0)) c
          \<le> selection_key t (replicate ?n (replicate ?n 0)) (hd sel))" by auto
  moreover have "length ?cs = card (set cs)" using s by (metis distinct_card)
  moreover have "sel \<noteq> []" using sel(4) assms(4) \<open>?cs \<noteq> []\<close> by (auto simp: min_def split: if_splits)
  moreover have zero: "selection_key t (replicate ?n (replicate ?n 0)) c = (2 ^ 16 - 1, u64_max, score_of t c)"
    if "c \<in> set cs" for c
  proof -
    have "\<forall>r \<in> set c. r < ?n" using assms(1) that by (auto simp: closed_ring_def)
    from usage_zero[OF this] show ?thesis by (simp add: selection_key_def)
  qed
  moreover have "hd sel \<in> set cs" using \<open>sel \<noteq> []\<close> sel(2) by (meson hd_in_set subsetD)
  ultimately show ?thesis using assms(3,4) by (intro exI[of _ sel]) (auto simp: select_diverse_rings_def Let_def)
qed

section \<open>Greedy rings\<close>

lemma greedy_ring_ok:
  assumes "order \<noteq> []" "distinct order" "set order \<subseteq> {..<ct_world_size t}" "successively (linked t) order"
    and "length used = ct_world_size t" "\<forall>r < ct_world_size t. used ! r \<longleftrightarrow> r \<in> set order"
    and "greedy_ring t order used = Some zs"
  shows "distinct zs \<and> set zs = {..<ct_world_size t} \<and> successively (linked t) zs"
  using assms
proof (induction t order used rule: greedy_ring.induct)
  case (1 t order used)
  let ?n = "ct_world_size t"
  show ?case
  proof (cases "?n \<le> length order")
    case True
    moreover from True "1.prems"(7) have "zs = order" by (subst (asm) greedy_ring.simps) simp
    moreover have "set order = {..<?n}"
      using "1.prems"(2,3) True by (intro card_seteq) (auto simp: distinct_card)
    ultimately show ?thesis using "1.prems" by simp
  next
    case False
    define key where "key = (\<lambda>(rank :: nat, bandwidth :: nat, latency). (bandwidth, u64_max - latency, u32_max - rank))"
    define ls where "ls = List.map_filter (\<lambda>rank. map_option (\<lambda>cost. (rank, lc_bandwidth_mbps cost, lc_latency_ns cost))
      (link t (last order) rank)) (filter (\<lambda>rank. \<not> used ! rank) [0..<?n])"
    from False "1.prems"(7) obtain c b l where m: "max_by_key key ls = Some (c, b, l)"
      and rec: "greedy_ring t (order @ [c]) (used[c := True]) = Some zs"
      by (subst (asm) greedy_ring.simps) (auto simp: Let_def key_def ls_def split: option.splits)
    from max_by_key_Some[OF m] have "(c, b, l) \<in> set ls" by simp
    then have c: "c < ?n" "\<not> used ! c" "linked t (last order) c"
      by (auto simp: ls_def List.map_filter_def linked_def)
    have "successively (linked t) (order @ [c])" using "1.prems"(1,4) c(3) by (simp add: successively_append_iff)
    with "1.IH"[OF False refl refl m[unfolded key_def ls_def] refl refl] rec c "1.prems"(1-6)
    show ?thesis by (simp add: nth_list_update)
  qed
qed

lemma rotate_ring_to_zero_ok:
  assumes "topology_ok t" "closed_ring t order"
  shows "closed_ring t (rotate_ring_to_zero order)"
proof -
  have "0 \<in> set order" using assms by (auto simp: closed_ring_def topology_ok_def)
  then obtain p where p: "position (\<lambda>rank. rank = 0) order = Some p"
    using position_None[of "\<lambda>rank. rank = 0" order] by (cases "position (\<lambda>rank. rank = 0) order") auto
  from position_Some[OF p] have at: "p < length order" "order ! p = 0" by auto
  then have "order \<noteq> []" by auto
  then have "hd (rotate p order) = 0" "rotate p order \<noteq> []" using hd_rotate_conv_nth[of order p] at by auto
  then obtain ys where ys: "rotate p order = 0 # ys" by (cases "rotate p order") auto
  then have "closed_ring t (0 # ys)" using closed_ring_rotate[of t p order] assms(2) by simp
  with ys p closed_ring_reversed[OF assms(1), of 0 ys] show ?thesis
    by (simp add: rotate_ring_to_zero_def reversed_ring_def Let_def)
qed

lemma greedy_candidates_closed:
  assumes "topology_ok t" "\<forall>s \<in> set starts. s < ct_world_size t" "\<forall>c \<in> set cs. closed_ring t c"
  shows "\<forall>c \<in> set (fold (greedy_candidate t) starts cs). closed_ring t c"
  using assms(2,3)
proof (induction starts arbitrary: cs)
  case (Cons start starts)
  let ?n = "ct_world_size t"
  have s: "start < ?n" using Cons.prems by simp
  have "closed_ring t c" if c: "c \<in> set (greedy_candidate t start cs)" for c
  proof (cases "c \<in> set cs")
    case False
    with c obtain order where o: "greedy_ring t [start] ((replicate ?n False)[start := True]) = Some order"
      "link t (last order) (order ! 0) \<noteq> None" "c = rotate_ring_to_zero order"
      by (auto simp: greedy_candidate_def Let_def split: option.splits if_splits)
    have "distinct order \<and> set order = {..<?n} \<and> successively (linked t) order"
      by (rule greedy_ring_ok[OF _ _ _ _ _ _ o(1)]) (use s in \<open>auto simp: nth_list_update\<close>)
    then have "closed_ring t order" using o(2) s by (cases order) (auto simp: closed_ring_iff linked_def)
    then show ?thesis using rotate_ring_to_zero_ok[OF assms(1)] o(3) by simp
  qed (use Cons.prems in blast)
  with Cons.IH[of "greedy_candidate t start cs"] Cons.prems(1) show ?case by simp
qed simp

section \<open>Results of the search\<close>

lemma best_ring_orders_sound:
  assumes "topology_ok t" "1 < ct_world_size t" "0 < maximum" "best_ring_orders t maximum = Inr orders"
  shows "orders \<noteq> [] \<and> length orders \<le> maximum \<and> distinct orders \<and> (\<forall>order \<in> set orders. closed_ring t order)"
proof -
  let ?n = "ct_world_size t"
  define cs where "cs = (if ?n \<le> EXACT_RING_SEARCH_MAX_RANKS
    then collect_rings t [0] ((replicate ?n False)[0 := True]) else fold (greedy_candidate t) [0..<?n] [])"
  have sel: "select_diverse_rings t cs maximum = Inr orders" "0 < ?n"
    using assms(2-4) by (auto simp: best_ring_orders_def cs_def split: if_splits)
  have "\<forall>c \<in> set cs. closed_ring t c"
    using collect_all_rings[OF sel(2)] greedy_candidates_closed[OF assms(1), of "[0..<?n]" "[]"] by (auto simp: cs_def)
  moreover have "cs \<noteq> []" using sel(1) by (auto simp: select_diverse_rings_def)
  ultimately show ?thesis using select_diverse_ok[of cs t maximum] sel assms(3) by auto
qed

lemma best_ring_orders_exact:
  assumes "topology_ok t" "1 < ct_world_size t" "ct_world_size t \<le> EXACT_RING_SEARCH_MAX_RANKS" "0 < maximum"
    and "closed_ring t order"
  shows "\<exists>orders. best_ring_orders t maximum = Inr orders \<and> score_of t order \<le> score_of t (hd orders)"
proof -
  let ?n = "ct_world_size t"
  define cs where "cs = collect_rings t [0] ((replicate ?n False)[0 := True])"
  have pos: "0 < ?n" using assms(2) by simp
  note all = collect_all_rings[OF pos, folded cs_def]
  obtain zs where zs: "zs \<in> set cs" "score_of t zs = score_of t order"
    using canonical_ring[OF assms(1,5)] all by auto
  then have "cs \<noteq> []" by auto
  moreover have "\<forall>c \<in> set cs. closed_ring t c" using all by auto
  ultimately obtain sel where "select_diverse_rings t cs maximum = Inr sel" "\<forall>c \<in> set cs. score_of t c \<le> score_of t (hd sel)"
    using select_diverse_ok[OF _ pos _ assms(4)] by blast
  with zs assms(2-4) show ?thesis by (auto simp: best_ring_orders_def cs_def)
qed

section \<open>Rail order and ring sets\<close>

lemma insert_rail_set [simp]: "set (insert_rail x ys) = insert x (set ys)"
  by (induction ys) auto

lemma insert_rail_sorted: "sorted_wrt rail_before ys \<Longrightarrow> sorted_wrt rail_before (insert_rail x ys)"
proof (induction ys)
  case (Cons y ys)
  have trans: "rail_before a b \<Longrightarrow> rail_before b c \<Longrightarrow> rail_before a c" for a b c by (auto simp: rail_before_def)
  have total: "rail_before a b \<or> rail_before b a" for a b by (auto simp: rail_before_def)
  show ?case
  proof (cases "rail_before x y")
    case True
    with Cons.prems trans show ?thesis by auto
  next
    case False
    with Cons total[of x y] show ?thesis by auto
  qed
qed simp

lemma insert_rail_distinct: "distinct (map snd ys) \<Longrightarrow> snd x \<notin> snd ` set ys \<Longrightarrow> distinct (map snd (insert_rail x ys))"
  by (induction ys) auto

lemma sort_rails:
  "distinct (map snd xs) \<Longrightarrow> sorted_wrt rail_before (foldr insert_rail xs []) \<and>
     set (foldr insert_rail xs []) = set xs \<and> distinct (map snd (foldr insert_rail xs []))"
  by (induction xs) (auto simp: insert_rail_sorted intro!: insert_rail_distinct)

lemma preferred_rail_order_spec:
  "distinct (preferred_rail_order t n) \<and> set (preferred_rail_order t n) = {..<n} \<and>
   sorted_wrt (\<lambda>a b. rail_score t b < rail_score t a \<or> rail_score t a = rail_score t b \<and> a \<le> b) (preferred_rail_order t n)"
proof -
  let ?xs = "map (\<lambda>rail. (rail_score t rail, rail)) [0..<n]"
  let ?ys = "foldr insert_rail ?xs []"
  have "map snd ?xs = [0..<n]" by (simp add: comp_def)
  then have s: "sorted_wrt rail_before ?ys" "set ?ys = set ?xs" "distinct (map snd ?ys)" using sort_rails[of ?xs] by auto
  have "sorted_wrt (\<lambda>x y. rail_score t (snd y) < rail_score t (snd x) \<or>
      rail_score t (snd x) = rail_score t (snd y) \<and> snd x \<le> snd y) ?ys"
    by (rule sorted_wrt_mono_rel[OF _ s(1)]) (use s(2) in \<open>auto simp: rail_before_def\<close>)
  moreover have "snd ` set ?ys = {..<n}" unfolding s(2) by (auto simp: image_iff)
  ultimately show ?thesis using s(3) by (simp add: preferred_rail_order_def sorted_wrt_map)
qed

lemma primary_fold:
  "hd (fold (\<lambda>candidate orders.
       if edge candidate \<noteq> p \<and> \<not> list_ex (\<lambda>order. edge order = edge candidate) orders
       then orders @ [candidate] else orders) cs os) = hd os \<and>
   distinct (map edge (fold (\<lambda>candidate orders.
       if edge candidate \<noteq> p \<and> \<not> list_ex (\<lambda>order. edge order = edge candidate) orders
       then orders @ [candidate] else orders) cs os)) \<and>
   set (fold (\<lambda>candidate orders.
       if edge candidate \<noteq> p \<and> \<not> list_ex (\<lambda>order. edge order = edge candidate) orders
       then orders @ [candidate] else orders) cs os) \<subseteq> set os \<union> set cs \<and>
   length (fold (\<lambda>candidate orders.
       if edge candidate \<noteq> p \<and> \<not> list_ex (\<lambda>order. edge order = edge candidate) orders
       then orders @ [candidate] else orders) cs os) \<le> length os + length cs"
  if "os \<noteq> []" "distinct (map edge os)" for edge :: "'a \<Rightarrow> 'b"
  using that
proof (induction cs arbitrary: os)
  case (Cons c cs)
  define os' where "os' = (if edge c \<noteq> p \<and> \<not> list_ex (\<lambda>order. edge order = edge c) os then os @ [c] else os)"
  have "os' \<noteq> []" "distinct (map edge os')" "hd os' = hd os" "set os' \<subseteq> insert c (set os)" "length os' \<le> Suc (length os)"
    using Cons.prems by (auto simp: os'_def list_ex_iff)
  with Cons.IH[of os'] show ?case unfolding fold.simps comp_apply os'_def[symmetric] by auto
qed simp

lemma ring_orders_with_primary_spec:
  assumes "topology_ok t" "1 < ct_world_size t"
  shows "hd (ring_orders_with_primary t primary) = primary \<and> ring_orders_with_primary t primary \<noteq> [] \<and>
     distinct (map ring_edges (ring_orders_with_primary t primary)) \<and>
     (\<forall>order \<in> set (ring_orders_with_primary t primary). order = primary \<or> closed_ring t order) \<and>
     length (ring_orders_with_primary t primary) \<le> Suc MAX_RING_CHANNELS"
proof (cases "best_ring_orders t MAX_RING_CHANNELS")
  case (Inl e)
  then show ?thesis by (simp add: ring_orders_with_primary_def)
next
  case (Inr cs)
  from best_ring_orders_sound[OF assms _ Inr] have cs: "length cs \<le> MAX_RING_CHANNELS" "\<forall>c \<in> set cs. closed_ring t c"
    by (auto simp: MAX_RING_CHANNELS_def)
  note F = primary_fold[of "[primary]" ring_edges "ring_edges primary" cs]
  have ne: "fold (\<lambda>candidate orders.
       if ring_edges candidate \<noteq> ring_edges primary \<and> \<not> list_ex (\<lambda>order. ring_edges order = ring_edges candidate) orders
       then orders @ [candidate] else orders) cs os \<noteq> []" if "os \<noteq> []" for os
    using that by (induction cs arbitrary: os) auto
  show ?thesis using F ne[of "[primary]"] cs Inr by (auto simp: ring_orders_with_primary_def Let_def)
qed

section \<open>Properties\<close>

text \<open>C21. The exhaustive search is optimal: for two to nine ranks \<open>best_ring_order\<close> returns a ring whose score
  (bottleneck bandwidth, then total bandwidth, then total latency) no other ring of the topology
  exceeds, in whatever rotation or direction it is written, and fails only when the topology has no
  closed ring at all.\<close>

theorem best_ring_order_optimal:
  assumes "topology_ok t" "1 < ct_world_size t" "ct_world_size t \<le> EXACT_RING_SEARCH_MAX_RANKS"
  shows "case best_ring_order t of
       Inr best \<Rightarrow> (\<exists>s. ring_score t best = Inr s \<and> (\<forall>order s'. ring_score t order = Inr s' \<longrightarrow> s' \<le> s))
     | Inl _ \<Rightarrow> (\<forall>order s'. ring_score t order \<noteq> Inr s')"
proof (cases "best_ring_order t")
  case (Inl e)
  have "\<not> closed_ring t order" for order
    using best_ring_orders_exact[OF assms, of 1 order] Inl by (auto simp: best_ring_order_def)
  with Inl show ?thesis using ring_score_Inr by fastforce
next
  case (Inr best)
  then obtain orders where o: "best_ring_orders t 1 = Inr orders" "best = hd orders"
    by (auto simp: best_ring_order_def bind_r_eq_Inr)
  have pos: "0 < ct_world_size t" using assms(2) by simp
  have "closed_ring t best" using best_ring_orders_sound[OF assms(1,2) _ o(1)] o(2) by auto
  then have "ring_score t best = Inr (score_of t best)" by (rule ring_score_closed[OF _ pos])
  moreover have "s' \<le> score_of t best" if "ring_score t order = Inr s'" for order s'
    using best_ring_orders_exact[OF assms, of 1 order] ring_score_Inr[OF that] ring_score_closed[OF _ pos, of order] that o
    by auto
  ultimately show ?thesis using Inr by auto
qed

definition sample_ring_topology :: collective_topology where
  "sample_ring_topology = projr (topology_uniform 3)"

lemma sample_ring_topology_ok:
  "topology_uniform 3 = Inr sample_ring_topology" "topology_ok sample_ring_topology" "ct_world_size sample_ring_topology = 3"
proof -
  have "rank_pairs 3 = [(0, 1), (0, 2), (1, 2)]" by (simp add: rank_pairs_def upt_rec)
  then show u: "topology_uniform 3 = Inr sample_ring_topology"
    by (simp add: sample_ring_topology_def topology_uniform_def topology_empty_def add_link_def check_link_def
        topology_validate_rank_def DEFAULT_BANDWIDTH_MBPS_def Let_def)
  from topology_uniform_ok[OF u] show "topology_ok sample_ring_topology" "ct_world_size sample_ring_topology = 3" by auto
qed

lemma sample_ring_score: "ring_score sample_ring_topology [2, 1, 0] = Inr (Ring_Score 32000 96000 (u128_max - 3000))"
proof -
  have "rank_pairs 3 = [(0, 1), (0, 2), (1, 2)]" by (simp add: rank_pairs_def upt_rec)
  then have t: "\<forall>(a, b) \<in> {(2, 1), (1, 0), (0, 2)}. link sample_ring_topology a b = Some \<lparr> lc_bandwidth_mbps = 32000, lc_latency_ns = 1000 \<rparr>"
    by (simp add: sample_ring_topology_def topology_uniform_def topology_empty_def add_link_def check_link_def
        topology_validate_rank_def DEFAULT_BANDWIDTH_MBPS_def DEFAULT_LATENCY_NS_def Let_def link_def mget_def mset_pair_def
        mset_at_def three_ranks)
  have "validate_ring_order 3 [2, 1, 0] = Inr ()" by (auto simp: validate_ring_order_iff)
  with t show ?thesis
    by (simp add: ring_score_def sample_ring_topology_ok(3) ring_hops_Cons score_hop_def ok_or_def)
qed

theorem best_ring_order_optimal_witness:
  "\<exists>best s. best_ring_order sample_ring_topology = Inr best \<and> ring_score sample_ring_topology best = Inr s \<and>
     Ring_Score 32000 96000 (u128_max - 3000) \<le> s"
  using best_ring_order_optimal[of sample_ring_topology] sample_ring_topology_ok sample_ring_score
  by (fastforce simp: EXACT_RING_SEARCH_MAX_RANKS_def split: sum.splits)

text \<open>Every ring the search returns is usable, for any number of ranks and for both the exhaustive and
  the greedy search: at most the requested number of rings, at least one, all different, each a
  permutation of the ranks whose consecutive ranks are linked, the last to the first included; the
  set of rings of a tuning starts with the primary ring and no two of its rings use the same edges.\<close>

theorem best_ring_orders_valid:
  assumes "topology_ok t" "1 < ct_world_size t" "0 < maximum" "best_ring_orders t maximum = Inr orders"
  shows "orders \<noteq> [] \<and> length orders \<le> maximum \<and> distinct orders \<and>
    (\<forall>order \<in> set orders. validate_ring_order (ct_world_size t) order = Inr () \<and>
       (\<forall>(a, b) \<in> set (ring_hops order). link t a b \<noteq> None)) \<and>
    (let rings = ring_orders_with_primary t primary
     in hd rings = primary \<and> distinct (map ring_edges rings) \<and> length rings \<le> Suc MAX_RING_CHANNELS)"
  using best_ring_orders_sound[OF assms] ring_orders_with_primary_spec[OF assms(1,2), of primary] assms(2)
  by (auto simp: closed_ring_def validate_ring_order_iff Let_def)

theorem best_ring_orders_valid_witness:
  "\<exists>orders. best_ring_orders sample_ring_topology 2 = Inr orders \<and> orders \<noteq> [] \<and>
     (\<forall>order \<in> set orders. validate_ring_order 3 order = Inr ())"
proof -
  have n: "1 < ct_world_size sample_ring_topology" "ct_world_size sample_ring_topology \<le> EXACT_RING_SEARCH_MAX_RANKS"
    by (simp_all add: sample_ring_topology_ok(3) EXACT_RING_SEARCH_MAX_RANKS_def)
  obtain orders where o: "best_ring_orders sample_ring_topology 2 = Inr orders"
    using best_ring_orders_exact[OF sample_ring_topology_ok(2) n, of 2] ring_score_Inr[OF sample_ring_score] by auto
  from best_ring_orders_valid[OF sample_ring_topology_ok(2) n(1) _ o] o show ?thesis
    by (auto simp: sample_ring_topology_ok(3))
qed

text \<open>The preferred rail order is a permutation of the rails sorted by descending score, ties by
  ascending rail number.\<close>

lemma preferred_rail_order_sorted:
  "distinct (preferred_rail_order t n) \<and> set (preferred_rail_order t n) = {..<n} \<and>
   sorted_wrt (\<lambda>a b. rail_score t b < rail_score t a \<or> rail_score t a = rail_score t b \<and> a \<le> b) (preferred_rail_order t n)"
  by (rule preferred_rail_order_spec)

end
