(* ===== verification/Hierarchy.thy ===== *)
theory Hierarchy
  imports Ring_Search
begin

text \<open>
  Inference of two-level groups in \<^verbatim>\<open>src/rank/topology.rs\<close>: \<open>hierarchy_candidates\<close> cuts the
  topology into the components of its fast links, one cut per distinct link time, and
  \<open>optimize_hierarchy\<close> elects a leader per group and orders the groups along a cheap cycle of
  leaders, by exhaustive search up to nine leaders and greedily beyond.
\<close>

section \<open>Cycles of leaders\<close>

text \<open>The cost of a cycle: the slowest hop, then the saturating total; \<open>None\<close> when a hop has no route.\<close>

definition cycle_cost :: "collective_topology \<Rightarrow> nat list \<Rightarrow> nat \<Rightarrow> nat list \<Rightarrow> (nat \<times> nat) option" where
  "cycle_cost t ranks payload order =
     fold_o (\<lambda>(source, destination) (maximum, tot).
         map_option (\<lambda>cost. (max maximum cost, saturating_add 128 tot cost))
           (shortest_transfer_time_ns t source destination payload))
       (ring_hops (map (\<lambda>index. ranks ! index) order)) (0, 0)"

definition better_cycle :: "(nat \<times> nat) \<Rightarrow> nat list \<Rightarrow> ((nat \<times> nat) \<times> nat list) option \<Rightarrow> bool" where
  "better_cycle score order best =
     (case best of
        None \<Rightarrow> True
      | Some (best_score, best_order) \<Rightarrow> score < best_score \<or> score = best_score \<and> order < best_order)"

text \<open>\<open>order\<close> and \<open>used\<close> are restored after each call; only \<open>best\<close> is threaded through the search.\<close>

function collect_rank_cycles ::
  "collective_topology \<Rightarrow> nat list \<Rightarrow> nat \<Rightarrow> nat list \<Rightarrow> bool list \<Rightarrow> ((nat \<times> nat) \<times> nat list) option
     \<Rightarrow> ((nat \<times> nat) \<times> nat list) option" where
  "collect_rank_cycles t ranks payload order used best =
     (if length ranks \<le> length order then
        (case cycle_cost t ranks payload order of
           None \<Rightarrow> best
         | Some score \<Rightarrow> if better_cycle score order best then Some (score, order) else best)
      else
        fold (\<lambda>candidate best.
          if used ! candidate then best
          else collect_rank_cycles t ranks payload (order @ [candidate]) (used[candidate := True]) best)
          [1..<length ranks] best)"
  by pat_completeness auto
termination
  by (relation "measure (\<lambda>(t, ranks, payload, order, used, best). length ranks - length order)") auto

declare collect_rank_cycles.simps [simp del]

text \<open>\<open>while order.len() < ranks.len()\<close>: appends the cheapest unused leader.\<close>

function greedy_cycle ::
  "collective_topology \<Rightarrow> nat list \<Rightarrow> nat \<Rightarrow> nat list \<Rightarrow> bool list \<Rightarrow> nat list option" where
  "greedy_cycle t ranks payload order used =
     (if length ranks \<le> length order then Some order
      else
        let current = last order;
            choices = List.map_filter (\<lambda>candidate. map_option (\<lambda>cost. (cost, ranks ! candidate, candidate))
                (shortest_transfer_time_ns t (ranks ! current) (ranks ! candidate) payload))
              (filter (\<lambda>candidate. \<not> used ! candidate) [0..<length ranks])
        in (case min_by_key (\<lambda>(cost, rank, _). (cost, rank)) choices of
              None \<Rightarrow> None
            | Some (_, _, nxt) \<Rightarrow> greedy_cycle t ranks payload (order @ [nxt]) (used[nxt := True])))"
  by pat_completeness auto
termination
  by (relation "measure (\<lambda>(t, ranks, payload, order, used). length ranks - length order)") auto

declare greedy_cycle.simps [simp del]

definition best_rank_cycle_order :: "collective_topology \<Rightarrow> nat list \<Rightarrow> nat \<Rightarrow> nat list option" where
  "best_rank_cycle_order t ranks payload =
     (if ranks = [] then None
      else if length ranks = 1 then Some [0]
      else
        let used = (replicate (length ranks) False)[0 := True]
        in if length ranks \<le> EXACT_RING_SEARCH_MAX_RANKS
           then map_option snd (collect_rank_cycles t ranks payload [0] used None)
           else (case greedy_cycle t ranks payload [0] used of
                   None \<Rightarrow> None
                 | Some order \<Rightarrow>
                     (case shortest_transfer_time_ns t (ranks ! last order) (ranks ! (order ! 0)) payload of
                        None \<Rightarrow> None
                      | Some _ \<Rightarrow> Some order)))"

section \<open>Leaders\<close>

definition leader_cost :: "collective_topology \<Rightarrow> nat \<Rightarrow> nat list \<Rightarrow> nat \<Rightarrow> nat option" where
  "leader_cost t payload members candidate =
     fold_o (\<lambda>rank tot. map_option (\<lambda>cost. saturating_add 64 tot cost)
       (shortest_transfer_time_ns_within t candidate rank payload members)) members 0"

definition swap_at :: "nat \<Rightarrow> nat \<Rightarrow> 'a list \<Rightarrow> 'a list" where
  "swap_at i j xs = xs[i := xs ! j, j := xs ! i]"

definition elect_leader :: "collective_topology \<Rightarrow> nat \<Rightarrow> nat list \<Rightarrow> nat list option" where
  "elect_leader t payload members =
     (case min_by_key id (List.map_filter (\<lambda>candidate.
              map_option (\<lambda>tot. (tot, candidate)) (leader_cost t payload members candidate)) members) of
        None \<Rightarrow> None
      | Some (_, leader) \<Rightarrow>
          let members = sort members
          in (case position (\<lambda>rank. rank = leader) members of
                None \<Rightarrow> None
              | Some p \<Rightarrow> Some (swap_at 0 p members)))"

definition optimize_hierarchy :: "collective_topology \<Rightarrow> nat list list \<Rightarrow> nat \<Rightarrow> nat list list option" where
  "optimize_hierarchy t groups payload =
     (case traverse_o (elect_leader t payload) groups of
        None \<Rightarrow> None
      | Some groups \<Rightarrow>
          let leaders = map (\<lambda>members. members ! 0) groups
          in map_option (map (\<lambda>index. groups ! index)) (best_rank_cycle_order t leaders payload))"

section \<open>Components of fast links\<close>

definition fast_link :: "collective_topology \<Rightarrow> nat \<Rightarrow> nat \<Rightarrow> nat \<Rightarrow> nat \<Rightarrow> bool" where
  "fast_link t payload threshold rank peer =
     (case link t rank peer of None \<Rightarrow> False | Some l \<Rightarrow> link_transfer_time_ns l payload \<le> threshold)"

text \<open>\<open>for peer in 0..world_size\<close>: \<open>visited\<close> has one entry per rank.\<close>

definition push_peers ::
  "(nat \<Rightarrow> bool) \<Rightarrow> bool list \<Rightarrow> nat list \<Rightarrow> bool list \<times> nat list" where
  "push_peers fast visited pending =
     fold (\<lambda>peer (visited, pending).
         if visited ! peer then (visited, pending)
         else if fast peer then (visited[peer := True], pending @ [peer]) else (visited, pending))
       [0..<length visited] (visited, pending)"

lemma push_peers_measure:
  "push_peers fast visited pending = (visited', pending') \<Longrightarrow>
     length visited' = length visited \<and>
     length pending' + length (filter Not visited') = length pending + length (filter Not visited)"
proof -
  have mark: "length (filter Not vs) = Suc (length (filter Not (vs[p := True])))" if "p < length vs" "\<not> vs ! p" for vs p
    using that
  proof (induction vs arbitrary: p)
    case (Cons v vs)
    then show ?case by (cases p) auto
  qed simp
  have "fold (\<lambda>peer (visited, pending).
         if visited ! peer then (visited, pending)
         else if fast peer then (visited[peer := True], pending @ [peer]) else (visited, pending))
       peers (visited, pending) = (visited', pending') \<Longrightarrow> \<forall>p \<in> set peers. p < length visited \<Longrightarrow>
     length visited' = length visited \<and>
     length pending' + length (filter Not visited') = length pending + length (filter Not visited)" for peers
    by (induction peers arbitrary: visited pending) (auto simp: mark split: if_splits)
  then show "push_peers fast visited pending = (visited', pending') \<Longrightarrow> ?thesis" by (simp add: push_peers_def)
qed

text \<open>\<open>while let Some(rank) = pending.pop()\<close>; \<open>fast rank peer\<close> is the test of the link.\<close>

function grow_group ::
  "(nat \<Rightarrow> nat \<Rightarrow> bool) \<Rightarrow> bool list \<Rightarrow> nat list \<Rightarrow> nat list \<Rightarrow> bool list \<times> nat list" where
  "grow_group fast visited pending members =
     (if pending = [] then (visited, members)
      else
        let rank = last pending
        in (case push_peers (fast rank) visited (butlast pending) of
              (visited, pending) \<Rightarrow> grow_group fast visited pending (members @ [rank])))"
  by pat_completeness auto
termination
proof (relation "measure (\<lambda>(fast, visited, pending, members). length pending + length (filter Not visited))", goal_cases)
  case 2
  from push_peers_measure[OF 2(3)[symmetric]] 2(1) show ?case by (auto simp: neq_Nil_conv)
qed simp

declare grow_group.simps [simp del]

definition group_from ::
  "(nat \<Rightarrow> nat \<Rightarrow> bool) \<Rightarrow> nat \<Rightarrow> bool list \<times> nat list list \<Rightarrow> bool list \<times> nat list list" where
  "group_from fast first_rank st =
     (case st of (visited, groups) \<Rightarrow>
        if visited ! first_rank then (visited, groups)
        else (case grow_group fast (visited[first_rank := True]) [first_rank] [] of
                (visited, members) \<Rightarrow> (visited, groups @ [sort members])))"

definition fast_groups :: "nat \<Rightarrow> (nat \<Rightarrow> nat \<Rightarrow> bool) \<Rightarrow> nat list list" where
  "fast_groups n fast =
     sort_key (\<lambda>members. members ! 0) (snd (fold (group_from fast) [0..<n] (replicate n False, [])))"

definition hierarchy_thresholds :: "collective_topology \<Rightarrow> nat \<Rightarrow> nat list" where
  "hierarchy_thresholds t payload =
     remdups_adj (sort (List.map_filter (\<lambda>(first, second).
       map_option (\<lambda>l. link_transfer_time_ns l payload) (link t first second)) (rank_pairs (ct_world_size t))))"

definition hierarchy_candidate ::
  "collective_topology \<Rightarrow> nat \<Rightarrow> nat \<Rightarrow> nat list list list \<Rightarrow> nat list list list" where
  "hierarchy_candidate t payload threshold candidates =
     (let groups = fast_groups (ct_world_size t) (fast_link t payload threshold)
      in if length groups < 2 \<or> length groups = ct_world_size t \<or> groups \<in> set candidates then candidates
         else (case optimize_hierarchy t groups payload of
                 None \<Rightarrow> candidates
               | Some groups \<Rightarrow> if groups \<in> set candidates then candidates else candidates @ [groups]))"

definition hierarchy_candidates :: "collective_topology \<Rightarrow> nat \<Rightarrow> nat list list list" where
  "hierarchy_candidates t payload = fold (hierarchy_candidate t payload) (hierarchy_thresholds t payload) []"

section \<open>Groups are the components of the fast links\<close>

lemma push_peers_spec:
  assumes "push_peers fast visited pending = (visited', pending')"
  shows "length visited' = length visited \<and>
     (\<forall>r < length visited. visited' ! r \<longleftrightarrow> visited ! r \<or> fast r) \<and>
     pending' = pending @ filter (\<lambda>p. \<not> visited ! p \<and> fast p) [0..<length visited]"
proof -
  have "fold (\<lambda>peer (visited, pending).
         if visited ! peer then (visited, pending)
         else if fast peer then (visited[peer := True], pending @ [peer]) else (visited, pending))
       peers (visited, pending) = (visited', pending') \<Longrightarrow> distinct peers \<Longrightarrow> \<forall>p \<in> set peers. p < length visited \<Longrightarrow>
     length visited' = length visited \<and>
     (\<forall>r < length visited. visited' ! r \<longleftrightarrow> visited ! r \<or> (r \<in> set peers \<and> fast r)) \<and>
     pending' = pending @ filter (\<lambda>p. \<not> visited ! p \<and> fast p) peers" for peers
  proof (induction peers arbitrary: visited pending)
    case (Cons p peers)
    show ?case
    proof (cases "\<not> visited ! p \<and> fast p")
      case True
      let ?v = "visited[p := True]"
      have "filter (\<lambda>q. \<not> ?v ! q \<and> fast q) peers = filter (\<lambda>q. \<not> visited ! q \<and> fast q) peers"
        using Cons.prems(2) by (intro filter_cong refl) (metis distinct.simps(2) nth_list_update_neq)
      with True Cons.IH[of ?v "pending @ [p]"] Cons.prems show ?thesis by (auto simp: nth_list_update)
    next
      case False
      with Cons show ?thesis by (auto split: if_splits)
    qed
  qed simp
  from this[of "[0..<length visited]"] assms show ?thesis by (auto simp: push_peers_def)
qed

definition reaches :: "nat \<Rightarrow> (nat \<Rightarrow> nat \<Rightarrow> bool) \<Rightarrow> nat \<Rightarrow> nat \<Rightarrow> bool" where
  "reaches n fast = (\<lambda>a b. b < n \<and> fast a b)\<^sup>*\<^sup>*"

definition fresh_ok :: "nat \<Rightarrow> (nat \<Rightarrow> nat \<Rightarrow> bool) \<Rightarrow> nat \<Rightarrow> bool list \<Rightarrow> nat list \<Rightarrow> bool" where
  "fresh_ok n fast root visited found \<longleftrightarrow>
     length visited = n \<and> distinct found \<and> (\<forall>r \<in> set found. r < n \<and> visited ! r \<and> reaches n fast root r)"

lemma grow_group_ok:
  assumes "grow_group fast visited pending members = (visited', members')"
    and "fresh_ok n fast root visited (members @ pending)"
    and "\<forall>a \<in> set members. \<forall>b < n. fast a b \<longrightarrow> visited ! b"
  shows "fresh_ok n fast root visited' members' \<and> set members \<union> set pending \<subseteq> set members' \<and>
     (\<forall>r < n. visited' ! r \<longleftrightarrow> visited ! r \<or> r \<in> set members') \<and>
     (\<forall>r \<in> set members'. r \<in> set members \<union> set pending \<or> \<not> visited ! r) \<and>
     (\<forall>a \<in> set members'. \<forall>b < n. fast a b \<longrightarrow> visited' ! b)"
  using assms
proof (induction fast visited pending members rule: grow_group.induct)
  case (1 fast visited pending members)
  show ?case
  proof (cases "pending = []")
    case True
    with "1.prems" show ?thesis by (subst (asm) grow_group.simps) (auto simp: fresh_ok_def)
  next
    case False
    obtain v p where vp: "push_peers (fast (last pending)) visited (butlast pending) = (v, p)" by force
    have rec: "grow_group fast v p (members @ [last pending]) = (visited', members')"
      using "1.prems"(1) False vp by (subst (asm) grow_group.simps) (simp add: Let_def)
    have pend: "pending = butlast pending @ [last pending]" using False by simp
    have last: "last pending \<in> set pending" using False by simp
    note P = push_peers_spec[OF vp]
    have len: "length visited = n" using "1.prems"(2) by (simp add: fresh_ok_def)
    let ?new = "filter (\<lambda>q. \<not> visited ! q \<and> fast (last pending) q) [0..<n]"
    have p: "p = butlast pending @ ?new" using P len by simp
    have v: "length v = n" "\<forall>r < n. v ! r \<longleftrightarrow> visited ! r \<or> fast (last pending) r" using P len by auto
    have set_pending: "set pending = insert (last pending) (set (butlast pending))" using pend by (metis list.simps(15) rotate1.simps(2) set_rotate1)
    have new: "reaches n fast root q" if "q \<in> set ?new" for q
    proof -
      have "reaches n fast root (last pending)" using "1.prems"(2) last by (simp add: fresh_ok_def)
      then show ?thesis using that unfolding reaches_def by (auto intro: rtranclp.rtrancl_into_rtrancl)
    qed
    have fresh: "fresh_ok n fast root v ((members @ [last pending]) @ p)"
    proof -
      have "distinct (members @ butlast pending @ [last pending])" using "1.prems"(2) pend by (simp add: fresh_ok_def)
      moreover have "\<forall>q \<in> set (members @ pending). q < n \<and> visited ! q \<and> reaches n fast root q"
        using "1.prems"(2) by (simp add: fresh_ok_def)
      ultimately show ?thesis unfolding fresh_ok_def p using v new set_pending by auto
    qed
    have closed: "\<forall>a \<in> set (members @ [last pending]). \<forall>b < n. fast a b \<longrightarrow> v ! b"
      using "1.prems"(3) v by auto
    have sub: "set (members @ [last pending]) \<union> set p = set members \<union> set pending \<union> set ?new"
      unfolding p using set_pending by auto
    note IH = "1.IH"[OF False refl vp[symmetric] rec fresh closed]
    have vis: "visited' ! r \<longleftrightarrow> visited ! r \<or> r \<in> set members'" if "r < n" for r
    proof -
      have "visited' ! r \<longleftrightarrow> v ! r \<or> r \<in> set members'" using IH that by blast
      moreover have "v ! r \<longleftrightarrow> visited ! r \<or> r \<in> set ?new" using v(2) that by auto
      ultimately show ?thesis using IH sub by blast
    qed
    moreover have "r \<in> set members \<union> set pending \<or> \<not> visited ! r" if "r \<in> set members'" for r
    proof -
      have "r \<in> set members \<union> set pending \<union> set ?new \<or> \<not> v ! r" using IH that unfolding sub by blast
      moreover have "r < n" using IH that by (auto simp: fresh_ok_def)
      ultimately show ?thesis using v(2) by auto
    qed
    ultimately show ?thesis using IH unfolding sub by blast
  qed
qed

definition groups_ok :: "nat \<Rightarrow> (nat \<Rightarrow> nat \<Rightarrow> bool) \<Rightarrow> bool list \<times> nat list list \<Rightarrow> bool" where
  "groups_ok n fast st \<longleftrightarrow>
     length (fst st) = n \<and> distinct (concat (snd st)) \<and> [] \<notin> set (snd st) \<and>
     (\<forall>r < n. fst st ! r \<longleftrightarrow> r \<in> set (concat (snd st))) \<and> set (concat (snd st)) \<subseteq> {..<n} \<and>
     (\<forall>g \<in> set (snd st). \<exists>root \<in> set g. (\<forall>r \<in> set g. reaches n fast root r) \<and> (\<forall>a \<in> set g. \<forall>b < n. fast a b \<longrightarrow> b \<in> set g))"

lemma group_from_ok:
  assumes ok: "groups_ok n fast st" and r: "first < n"
    and sym: "\<And>a b. a < n \<Longrightarrow> b < n \<Longrightarrow> fast a b \<Longrightarrow> fast b a"
  shows "groups_ok n fast (group_from fast first st) \<and> fst (group_from fast first st) ! first \<and>
     (\<forall>r < n. fst st ! r \<longrightarrow> fst (group_from fast first st) ! r)"
proof (cases "fst st ! first")
  case True
  with ok show ?thesis by (cases st) (simp add: group_from_def)
next
  case False
  obtain visited groups where st: "st = (visited, groups)" by force
  let ?v = "visited[first := True]"
  obtain v' m where g: "grow_group fast ?v [first] [] = (v', m)" by force
  have len: "length visited = n" using ok st by (simp add: groups_ok_def)
  have vis: "?v ! r \<longleftrightarrow> visited ! r \<or> r = first" if "r < n" for r
    using len that r by (auto simp: nth_list_update)
  have "fresh_ok n fast first ?v ([] @ [first])" using len r by (simp add: fresh_ok_def reaches_def)
  note G = grow_group_ok[OF g this, simplified]
  have m: "distinct m" "set m \<subseteq> {..<n}" "first \<in> set m" "length v' = n"
    using G by (auto simp: fresh_ok_def)
  have m_new: "\<not> visited ! q" if "q \<in> set m" for q
    using G that vis[of q] m(2) False st by fastforce
  have v': "v' ! q \<longleftrightarrow> visited ! q \<or> q \<in> set m" if "q < n" for q
    using G that vis[of q] m(3) by auto
  have conc: "q \<in> set (concat groups) \<longleftrightarrow> visited ! q" if "q < n" for q
    using ok st that by (simp add: groups_ok_def)
  have disj: "set m \<inter> set (concat groups) = {}" using m_new conc m(2) by blast
  have closed: "b \<in> set m" if ab: "a \<in> set m" "b < n" "fast a b" for a b
  proof (rule ccontr)
    assume b: "b \<notin> set m"
    have "v' ! b" using G ab by blast
    then have "visited ! b" using v'[OF ab(2)] b by simp
    then obtain g where g: "g \<in> set groups" "b \<in> set g" using conc[OF ab(2)] by auto
    have "fast b a" using sym ab m(2) by blast
    moreover have "a < n" using ab(1) m(2) by auto
    ultimately have "a \<in> set g" using ok st g by (auto simp: groups_ok_def)
    then show False using disj ab(1) g(1) by auto
  qed
  have new: "\<exists>root \<in> set (sort m). (\<forall>q \<in> set (sort m). reaches n fast root q) \<and> (\<forall>a \<in> set (sort m). \<forall>b < n. fast a b \<longrightarrow> b \<in> set (sort m))"
  proof (rule bexI[of _ first])
    have "\<forall>q \<in> set m. reaches n fast first q" using G by (simp add: fresh_ok_def)
    then show "(\<forall>q \<in> set (sort m). reaches n fast first q) \<and> (\<forall>a \<in> set (sort m). \<forall>b < n. fast a b \<longrightarrow> b \<in> set (sort m))"
      using closed by simp
  qed (simp add: m(3))
  have res: "group_from fast first st = (v', groups @ [sort m])"
    using False st g by (simp add: group_from_def)
  have old: "distinct (concat groups)" "[] \<notin> set groups" "set (concat groups) \<subseteq> {..<n}"
    "\<forall>g \<in> set groups. \<exists>root \<in> set g. (\<forall>r \<in> set g. reaches n fast root r) \<and> (\<forall>a \<in> set g. \<forall>b < n. fast a b \<longrightarrow> b \<in> set g)"
    using ok st by (simp_all add: groups_ok_def)
  have conc': "set (concat (groups @ [sort m])) = set (concat groups) \<union> set m" by simp
  have "distinct (concat (groups @ [sort m]))" using old(1) m(1) disj by (simp add: Int_commute)
  moreover have "sort m \<noteq> []" using m(3) by (metis empty_iff list.set(1) set_sort)
  then have "[] \<notin> set (groups @ [sort m])" using old(2) by auto
  moreover have "v' ! q \<longleftrightarrow> q \<in> set (concat (groups @ [sort m]))" if "q < n" for q
    unfolding conc' Un_iff conc[OF that] by (rule v'[OF that])
  moreover have "set (concat (groups @ [sort m])) \<subseteq> {..<n}" unfolding conc' using old(3) m(2) by blast
  moreover have "\<forall>g \<in> set (groups @ [sort m]). \<exists>root \<in> set g. (\<forall>r \<in> set g. reaches n fast root r) \<and> (\<forall>a \<in> set g. \<forall>b < n. fast a b \<longrightarrow> b \<in> set g)"
    using old(4) new by (simp only: set_append list.set Un_insert_right Un_empty_right ball_simps)
  ultimately have "groups_ok n fast (v', groups @ [sort m])" unfolding groups_ok_def fst_conv snd_conv using m(4) by blast
  then show ?thesis unfolding res using v' m(3) r st by auto
qed

lemma groups_fold_ok:
  assumes "groups_ok n fast st" "\<forall>r \<in> set rs. r < n"
    and sym: "\<And>a b. a < n \<Longrightarrow> b < n \<Longrightarrow> fast a b \<Longrightarrow> fast b a"
  shows "groups_ok n fast (fold (group_from fast) rs st) \<and> (\<forall>r \<in> set rs. fst (fold (group_from fast) rs st) ! r) \<and>
     (\<forall>r < n. fst st ! r \<longrightarrow> fst (fold (group_from fast) rs st) ! r)"
  using assms(1,2)
proof (induction rs arbitrary: st)
  case (Cons r rs)
  note G = group_from_ok[OF Cons.prems(1) _ sym, of r]
  have r: "r < n" using Cons.prems(2) by simp
  from Cons.IH[of "group_from fast r st"] Cons.prems(2) G[OF r] r show ?case by auto
qed simp

lemma fast_groups_components:
  assumes sym: "\<And>a b. a < n \<Longrightarrow> b < n \<Longrightarrow> fast a b \<Longrightarrow> fast b a"
  shows "distinct (concat (fast_groups n fast)) \<and> set (concat (fast_groups n fast)) = {..<n} \<and>
     [] \<notin> set (fast_groups n fast) \<and>
     (\<forall>a < n. \<forall>b < n. (\<exists>g \<in> set (fast_groups n fast). a \<in> set g \<and> b \<in> set g) \<longleftrightarrow> reaches n fast a b)"
proof -
  let ?st = "fold (group_from fast) [0..<n] (replicate n False, [])"
  have "groups_ok n fast (replicate n False, [])" by (simp add: groups_ok_def)
  from groups_fold_ok[OF this _ sym, of "[0..<n]"] have ok: "groups_ok n fast ?st" and all: "\<forall>r < n. fst ?st ! r" by auto
  have sorted: "set (fast_groups n fast) = set (snd ?st)" by (simp add: fast_groups_def)
  have part: "distinct (concat (snd ?st))" "set (concat (snd ?st)) = {..<n}" using ok all by (auto simp: groups_ok_def)
  have dist: "distinct (concat (sort_key k xs))" if "distinct (concat xs)" "[] \<notin> set xs" for k :: "nat list \<Rightarrow> nat" and xs :: "nat list list"
    using that by (simp add: distinct_concat_iff removeAll_id)
  have flip: "reaches n fast b a" if "reaches n fast a b" "a < n" for a b
    using that(1) unfolding reaches_def
  proof (induction rule: rtranclp_induct)
    case (step y z)
    have "y < n" using step(1) that(2) by (cases rule: rtranclp.cases) auto
    then have "fast z y" "z < n" using sym step(2) by auto
    then show ?case
      using converse_rtranclp_into_rtranclp[of "\<lambda>a b. b < n \<and> fast a b" z y a] step(3) \<open>y < n\<close> by simp
  qed simp
  have iff: "(\<exists>g \<in> set (snd ?st). a \<in> set g \<and> b \<in> set g) \<longleftrightarrow> reaches n fast a b" if ab: "a < n" "b < n" for a b
  proof
    assume "\<exists>g \<in> set (snd ?st). a \<in> set g \<and> b \<in> set g"
    then obtain g where g: "g \<in> set (snd ?st)" "a \<in> set g" "b \<in> set g" by blast
    moreover have "\<forall>g \<in> set (snd ?st). \<exists>root \<in> set g. (\<forall>r \<in> set g. reaches n fast root r) \<and> (\<forall>a \<in> set g. \<forall>b < n. fast a b \<longrightarrow> b \<in> set g)"
      using ok unfolding groups_ok_def by blast
    ultimately obtain root where root: "root \<in> set g" "reaches n fast root a" "reaches n fast root b" by blast
    then have "root < n" using part(2) g(1) by auto
    with root show "reaches n fast a b" using flip unfolding reaches_def by (meson rtranclp_trans)
  next
    assume r: "reaches n fast a b"
    obtain g where g: "g \<in> set (snd ?st)" "a \<in> set g" using part(2) ab(1) by auto
    have "b \<in> set g" using r unfolding reaches_def
    proof (induction rule: rtranclp_induct)
      case (step y z)
      then show ?case using ok g(1) by (auto simp: groups_ok_def)
    qed (rule g(2))
    with g show "\<exists>g \<in> set (snd ?st). a \<in> set g \<and> b \<in> set g" by blast
  qed
  have ne: "[] \<notin> set (snd ?st)" using ok unfolding groups_ok_def by blast
  have "distinct (concat (fast_groups n fast))" unfolding fast_groups_def by (rule dist[OF part(1) ne])
  moreover have "set (concat (fast_groups n fast)) = {..<n}" using part(2) sorted by (simp only: set_concat)
  ultimately show ?thesis using iff ne unfolding sorted by blast
qed

section \<open>The search over cycles is exhaustive\<close>

text \<open>\<open>result\<close> improves \<open>best\<close> over the candidates \<open>E\<close>: it is \<open>best\<close> or a candidate, and the least of them.\<close>

definition improves :: "('k::linorder \<Rightarrow> bool) \<Rightarrow> 'k option \<Rightarrow> 'k option \<Rightarrow> bool" where
  "improves E best result \<longleftrightarrow>
     (result = best \<or> (\<exists>x. result = Some x \<and> E x)) \<and>
     (\<forall>b. best = Some b \<longrightarrow> (\<exists>r. result = Some r \<and> r \<le> b)) \<and>
     (\<forall>x. E x \<longrightarrow> (\<exists>r. result = Some r \<and> r \<le> x))"

lemma pair_less: "(a, b) < (c, d) \<longleftrightarrow> a < c \<or> a = c \<and> b < d" for a c :: "'a::linorder" and b d :: "'b::linorder"
  by (auto simp: order.order_iff_strict)

lemma improvesD: "improves E best (Some r) \<Longrightarrow> E x \<Longrightarrow> r \<le> x"
  by (auto simp: improves_def)

lemma improves_leaf: "improves (\<lambda>x. x = y) best (if \<forall>b. best = Some b \<longrightarrow> y < b then Some y else best)"
  by (cases best) (auto simp: improves_def)

lemma improves_fold:
  assumes "\<And>c b. c \<in> set xs \<Longrightarrow> improves (E c) b (f c b)"
  shows "improves (\<lambda>x. \<exists>c \<in> set xs. E c x) best (fold f xs best)"
  using assms
proof (induction xs arbitrary: best)
  case (Cons c xs)
  have 1: "improves (E c) best (f c best)" using Cons.prems by simp
  have 2: "improves (\<lambda>x. \<exists>c \<in> set xs. E c x) (f c best) (fold f xs (f c best))" using Cons by simp
  have "\<exists>r. fold f xs (f c best) = Some r \<and> r \<le> b" if b: "best = Some b \<or> E c b" for b
  proof -
    obtain x where x: "f c best = Some x" "x \<le> b" using 1 b unfolding improves_def by blast
    then obtain r where "fold f xs (f c best) = Some r" "r \<le> x" using 2 unfolding improves_def by blast
    with x(2) show ?thesis by auto
  qed
  moreover have "fold f xs (f c best) = best \<or> (\<exists>x. fold f xs (f c best) = Some x \<and> (\<exists>d \<in> set (c # xs). E d x))"
  proof (cases "fold f xs (f c best) = f c best")
    case True
    then show ?thesis using 1 unfolding improves_def by auto
  next
    case False
    then show ?thesis using 2 unfolding improves_def by auto
  qed
  ultimately show ?case using 2 unfolding improves_def by auto
qed (simp add: improves_def)

definition cycle_extends :: "nat \<Rightarrow> nat list \<Rightarrow> nat list \<Rightarrow> bool" where
  "cycle_extends m order z \<longleftrightarrow> (\<exists>rest. z = order @ rest) \<and> distinct z \<and> set z = {..<m}"

lemma cycle_extends_step:
  assumes "length order < m" "distinct order" "0 \<in> set order"
  shows "cycle_extends m order z \<longleftrightarrow> (\<exists>c \<in> set [1..<m]. c \<notin> set order \<and> cycle_extends m (order @ [c]) z)"
proof
  assume z: "cycle_extends m order z"
  then obtain rest where r: "z = order @ rest" "distinct z" "set z = {..<m}" by (auto simp: cycle_extends_def)
  have "length z = m" using r(2,3) by (metis card_lessThan distinct_card)
  with r(1) assms(1) obtain c rest' where rest: "rest = c # rest'" by (cases rest) auto
  then have "c \<in> set z" "c \<notin> set order" "c \<noteq> 0" using r(1,2) assms(3) by auto
  moreover have "z = (order @ [c]) @ rest'" using r(1) rest by simp
  ultimately show "\<exists>c \<in> set [1..<m]. c \<notin> set order \<and> cycle_extends m (order @ [c]) z"
    using r by (intro bexI[of _ c]) (auto simp: cycle_extends_def)
qed (auto simp: cycle_extends_def)

lemma collect_rank_cycles_improves:
  assumes "order \<noteq> []" "distinct order" "set order \<subseteq> {..<length ranks}" "0 \<in> set order"
    and "length used = length ranks" "\<forall>r < length ranks. used ! r \<longleftrightarrow> r \<in> set order"
  shows "improves (\<lambda>(s, z). cycle_extends (length ranks) order z \<and> cycle_cost t ranks payload z = Some s) best
     (collect_rank_cycles t ranks payload order used best)"
  using assms
proof (induction t ranks payload order used best rule: collect_rank_cycles.induct)
  case (1 t ranks payload order used best)
  let ?m = "length ranks"
  show ?case
  proof (cases "?m \<le> length order")
    case True
    have full: "set order = {..<?m}" using "1.prems"(2,3) True by (intro card_seteq) (auto simp: distinct_card)
    have "length order = ?m" using full "1.prems"(2) by (metis card_lessThan distinct_card)
    have ext: "cycle_extends ?m order z \<longleftrightarrow> z = order" for z
    proof
      assume "cycle_extends ?m order z"
      then obtain rest where r: "z = order @ rest" "distinct z" "set z = {..<?m}" by (auto simp: cycle_extends_def)
      then have "length z = ?m" by (metis card_lessThan distinct_card)
      with r(1) \<open>length order = ?m\<close> show "z = order" by simp
    qed (use "1.prems"(2) full in \<open>auto simp: cycle_extends_def\<close>)
    have r: "collect_rank_cycles t ranks payload order used best = (case cycle_cost t ranks payload order of
           None \<Rightarrow> best
         | Some score \<Rightarrow> if better_cycle score order best then Some (score, order) else best)"
      using True by (subst collect_rank_cycles.simps) simp
    show ?thesis
    proof (cases "cycle_cost t ranks payload order")
      case None
      then show ?thesis unfolding r improves_def ext by auto
    next
      case (Some score)
      have b: "better_cycle score order best \<longleftrightarrow> (\<forall>b. best = Some b \<longrightarrow> (score, order) < b)"
        by (cases best) (auto simp: better_cycle_def pair_less)
      have "(\<lambda>(s, z). z = order \<and> cycle_cost t ranks payload z = Some s) = (\<lambda>x. x = (score, order))"
        using Some by (auto simp: fun_eq_iff)
      then show ?thesis unfolding r Some ext b option.case by (simp only: improves_leaf)
    qed
  next
    case False
    let ?E = "\<lambda>c (s, z). c \<notin> set order \<and> cycle_extends ?m (order @ [c]) z \<and> cycle_cost t ranks payload z = Some s"
    let ?f = "\<lambda>c b. if used ! c then b else collect_rank_cycles t ranks payload (order @ [c]) (used[c := True]) b"
    have step: "improves (?E c) b (?f c b)" if c: "c \<in> set [1..<?m]" for c b
    proof (cases "used ! c")
      case True
      then have "c \<in> set order" using "1.prems"(6) c by auto
      then show ?thesis using True by (auto simp: improves_def)
    next
      case nu: False
      then have n: "c \<notin> set order" "c < ?m" using "1.prems"(6) c by auto
      have "improves (\<lambda>(s, z). cycle_extends ?m (order @ [c]) z \<and> cycle_cost t ranks payload z = Some s) b
          (collect_rank_cycles t ranks payload (order @ [c]) (used[c := True]) b)"
        by (rule "1.IH"[OF False c nu]) (use "1.prems" n in \<open>auto simp: nth_list_update\<close>)
      with nu n show ?thesis by simp
    qed
    have "(\<lambda>x. \<exists>c \<in> set [1..<?m]. ?E c x) = (\<lambda>(s, z). cycle_extends ?m order z \<and> cycle_cost t ranks payload z = Some s)"
      using cycle_extends_step[of order ?m] False "1.prems"(2,4) by (auto simp: fun_eq_iff)
    with improves_fold[of "[1..<?m]" ?E ?f best] step False show ?thesis
      by (subst collect_rank_cycles.simps) simp
  qed
qed

section \<open>Orders of leaders\<close>

lemma greedy_cycle_ok:
  assumes "order \<noteq> []" "distinct order" "set order \<subseteq> {..<length ranks}"
    and "length used = length ranks" "\<forall>r < length ranks. used ! r \<longleftrightarrow> r \<in> set order"
    and "greedy_cycle t ranks payload order used = Some zs"
  shows "distinct zs \<and> set zs = {..<length ranks}"
  using assms
proof (induction t ranks payload order used rule: greedy_cycle.induct)
  case (1 t ranks payload order used)
  let ?m = "length ranks"
  show ?case
  proof (cases "?m \<le> length order")
    case True
    moreover from True "1.prems"(6) have "zs = order" by (subst (asm) greedy_cycle.simps) simp
    moreover have "set order = {..<?m}"
      using "1.prems"(2,3) True by (intro card_seteq) (auto simp: distinct_card)
    ultimately show ?thesis using "1.prems" by simp
  next
    case False
    define key where "key = (\<lambda>(cost :: nat, rank :: nat, _ :: nat). (cost, rank))"
    define ls where "ls = List.map_filter (\<lambda>candidate. map_option (\<lambda>cost. (cost, ranks ! candidate, candidate))
        (shortest_transfer_time_ns t (ranks ! last order) (ranks ! candidate) payload))
        (filter (\<lambda>candidate. \<not> used ! candidate) [0..<?m])"
    from False "1.prems"(6) obtain a b c where m: "min_by_key key ls = Some (a, b, c)"
      and rec: "greedy_cycle t ranks payload (order @ [c]) (used[c := True]) = Some zs"
      by (subst (asm) greedy_cycle.simps) (auto simp: Let_def key_def ls_def split: option.splits)
    from min_by_key_Some[OF m] have "(a, b, c) \<in> set ls" by simp
    then have c: "c < ?m" "\<not> used ! c" by (auto simp: ls_def List.map_filter_def)
    from "1.IH"[OF False refl refl m[unfolded key_def ls_def] refl refl] rec c "1.prems"(1-5)
    show ?thesis by (simp add: nth_list_update)
  qed
qed

lemma first_used: "0 < n \<Longrightarrow> \<forall>r < n. (replicate n False)[0 := True] ! r \<longleftrightarrow> r \<in> set [0 :: nat]"
  by (auto simp: nth_list_update)

lemma best_rank_cycle_exact:
  assumes "1 < length ranks" "length ranks \<le> EXACT_RING_SEARCH_MAX_RANKS"
  shows "\<exists>result. improves (\<lambda>(s, z). cycle_extends (length ranks) [0] z \<and> cycle_cost t ranks payload z = Some s) None result \<and> best_rank_cycle_order t ranks payload = map_option snd result"
proof -
  have ne: "ranks \<noteq> []" "0 < length ranks" "length ranks \<noteq> 1" using assms(1) by auto
  have "improves (\<lambda>(s, z). cycle_extends (length ranks) [0] z \<and> cycle_cost t ranks payload z = Some s) None (collect_rank_cycles t ranks payload [0] ((replicate (length ranks) False)[0 := True]) None)"
    by (rule collect_rank_cycles_improves) (use ne first_used[OF ne(2)] in auto)
  with ne assms(2) show ?thesis unfolding best_rank_cycle_order_def Let_def by auto
qed

lemma best_rank_cycle_perm:
  assumes "best_rank_cycle_order t ranks payload = Some order"
  shows "distinct order \<and> set order = {..<length ranks}"
proof -
  have ne: "ranks \<noteq> []" using assms by (auto simp: best_rank_cycle_order_def)
  consider "length ranks = 1" | "1 < length ranks" "length ranks \<le> EXACT_RING_SEARCH_MAX_RANKS"
    | "1 < length ranks" "\<not> length ranks \<le> EXACT_RING_SEARCH_MAX_RANKS" using ne by (cases ranks) auto
  then show ?thesis
  proof cases
    case 1
    with assms ne show ?thesis by (auto simp: best_rank_cycle_order_def)
  next
    case 2
    from best_rank_cycle_exact[OF 2, of t payload] assms show ?thesis
      by (auto simp: improves_def cycle_extends_def)
  next
    case 3
    then have "greedy_cycle t ranks payload [0] ((replicate (length ranks) False)[0 := True]) = Some order"
      using assms ne by (auto simp: best_rank_cycle_order_def Let_def split: option.splits)
    moreover have "0 < length ranks" using ne by simp
    ultimately show ?thesis using first_used[of "length ranks"] by (intro greedy_cycle_ok) auto
  qed
qed

lemma elect_leader_perm:
  assumes "elect_leader t payload members = Some g" "distinct members"
  shows "distinct g \<and> set g = set members \<and> g \<noteq> [] \<and>
     (\<exists>best. leader_cost t payload members (g ! 0) = Some best \<and>
        (\<forall>c \<in> set members. \<forall>x. leader_cost t payload members c = Some x \<longrightarrow> (best, g ! 0) \<le> (x, c)))"
proof -
  let ?choices = "List.map_filter (\<lambda>candidate. map_option (\<lambda>tot. (tot, candidate)) (leader_cost t payload members candidate)) members"
  from assms(1) obtain best leader p where m: "min_by_key id ?choices = Some (best, leader)"
    and p: "position (\<lambda>rank. rank = leader) (sort members) = Some p" and g: "g = swap_at 0 p (sort members)"
    by (auto simp: elect_leader_def Let_def split: option.splits)
  from position_Some[OF p] have at: "p < length (sort members)" "sort members ! p = leader" by auto
  then have z: "0 < length (sort members)" by linarith
  have "distinct g" "set g = set members"
    unfolding g swap_at_def using distinct_swap[OF z at(1)] set_swap[OF z at(1)] assms(2) by (simp_all only: distinct_sort set_sort)
  moreover have "g ! 0 = leader" using z at by (cases "p = 0") (auto simp: g swap_at_def nth_list_update)
  moreover have "length g = length (sort members)" by (simp add: g swap_at_def)
  then have "g \<noteq> []" using z by auto
  moreover from min_by_key_Some[OF m] have "leader_cost t payload members leader = Some best"
    and "\<forall>c \<in> set members. \<forall>x. leader_cost t payload members c = Some x \<longrightarrow> (best, leader) \<le> (x, c)"
    by (auto simp: List.map_filter_def simp del: less_eq_prod_simp)
  ultimately show ?thesis by (simp del: less_eq_prod_simp)
qed

lemma regroup_perm:
  assumes "list_all2 (\<lambda>g g'. set g' = set g \<and> distinct g' \<and> g' \<noteq> []) gs gs'" "distinct (concat gs)"
  shows "distinct (concat gs') \<and> set (concat gs') = set (concat gs) \<and> [] \<notin> set gs' \<and> map set gs' = map set gs"
  using assms
proof (induction rule: list_all2_induct)
  case (Cons g gs g' gs')
  then show ?case by (auto simp: Int_commute)
qed simp

lemma permute_groups:
  assumes "distinct (concat gs)" "[] \<notin> set gs" "distinct order" "set order = {..<length gs}"
  shows "distinct (concat (map (\<lambda>i. gs ! i) order)) \<and> set (concat (map (\<lambda>i. gs ! i) order)) = set (concat gs) \<and>
     [] \<notin> set (map (\<lambda>i. gs ! i) order) \<and> length (map (\<lambda>i. gs ! i) order) = length gs \<and>
     set (map (\<lambda>i. gs ! i) order) = set gs"
proof -
  have sets: "set (map (\<lambda>i. gs ! i) order) = set gs"
    unfolding set_map assms(4) using nth_image[of "length gs" gs] by (simp add: lessThan_atLeast0)
  have d: "distinct gs" using assms(1,2) by (simp add: distinct_concat_iff removeAll_id)
  have "distinct (map (\<lambda>i. gs ! i) order)"
    using assms(3,4) d by (simp add: distinct_map inj_on_def nth_eq_iff_index_eq)
  then have "distinct (concat (map (\<lambda>i. gs ! i) order))"
    using assms(1,2) sets by (simp add: distinct_concat_iff removeAll_id del: set_map)
  moreover have "length order = length gs" using assms(3,4) by (metis card_lessThan distinct_card)
  ultimately show ?thesis using sets assms(2) by (simp del: set_map)
qed

lemma optimize_hierarchy_perm:
  assumes "optimize_hierarchy t groups payload = Some gs" "distinct (concat groups)"
  shows "distinct (concat gs) \<and> set (concat gs) = set (concat groups) \<and> [] \<notin> set gs \<and> length gs = length groups \<and>
     set ` set gs = set ` set groups"
proof -
  from assms(1) obtain gs' order where e: "traverse_o (elect_leader t payload) groups = Some gs'"
    and o: "best_rank_cycle_order t (map (\<lambda>members. members ! 0) gs') payload = Some order"
    and gs: "gs = map (\<lambda>i. gs' ! i) order"
    by (auto simp: optimize_hierarchy_def Let_def split: option.splits)
  have len: "length gs' = length groups" using traverse_o_length[OF e] .
  have "list_all2 (\<lambda>g g'. elect_leader t payload g = Some g') groups gs'" using e by (simp add: traverse_o_iff)
  moreover have "distinct g" if "g \<in> set groups" for g using assms(2) that by (auto simp: distinct_concat_iff)
  ultimately have "list_all2 (\<lambda>g g'. set g' = set g \<and> distinct g' \<and> g' \<noteq> []) groups gs'"
    unfolding list_all2_conv_all_nth using elect_leader_perm by (metis nth_mem)
  note R = regroup_perm[OF this assms(2)]
  note P = permute_groups[of gs' order]
  have "set ` set gs' = set ` set groups" using R by (metis list.set_map)
  then show ?thesis using R P best_rank_cycle_perm[OF o] len unfolding gs by (simp del: set_map)
qed

section \<open>Candidates\<close>

definition candidate_ok :: "collective_topology \<Rightarrow> nat \<Rightarrow> nat list list \<Rightarrow> bool" where
  "candidate_ok t payload groups \<longleftrightarrow>
     validate_hierarchy_groups (ct_world_size t) groups = Inr () \<and> length groups \<noteq> ct_world_size t \<and>
     (\<exists>threshold \<in> set (hierarchy_thresholds t payload). \<forall>a < ct_world_size t. \<forall>b < ct_world_size t.
        (\<exists>g \<in> set groups. a \<in> set g \<and> b \<in> set g) \<longleftrightarrow> reaches (ct_world_size t) (fast_link t payload threshold) a b)"

lemma hierarchy_candidate_ok:
  assumes "topology_ok t" "threshold \<in> set (hierarchy_thresholds t payload)" "\<forall>g \<in> set cs. candidate_ok t payload g"
  shows "\<forall>g \<in> set (hierarchy_candidate t payload threshold cs). candidate_ok t payload g"
proof
  fix gs assume gs: "gs \<in> set (hierarchy_candidate t payload threshold cs)"
  let ?n = "ct_world_size t" and ?fast = "fast_link t payload threshold"
  let ?groups = "fast_groups ?n ?fast"
  show "candidate_ok t payload gs"
  proof (cases "gs \<in> set cs")
    case False
    with gs have g: "optimize_hierarchy t ?groups payload = Some gs" "2 \<le> length ?groups" "length ?groups \<noteq> ?n"
      by (auto simp: hierarchy_candidate_def Let_def split: if_splits option.splits)
    have "?fast b a" if "a < ?n" "b < ?n" "?fast a b" for a b
      using that topology_ok_link_sym[OF assms(1), of a b] by (simp add: fast_link_def)
    note C = fast_groups_components[of ?n ?fast, OF this]
    have d: "distinct (concat ?groups)" "set (concat ?groups) = {..<?n}" using C by blast+
    have O: "distinct (concat gs)" "set (concat gs) = set (concat ?groups)" "[] \<notin> set gs" "length gs = length ?groups"
      "set ` set gs = set ` set ?groups" using optimize_hierarchy_perm[OF g(1) d(1)] by blast+
    have same: "(\<exists>x \<in> set gs. a \<in> set x \<and> b \<in> set x) \<longleftrightarrow> (\<exists>x \<in> set ?groups. a \<in> set x \<and> b \<in> set x)" for a b
    proof -
      have e: "(\<exists>x \<in> X. a \<in> set x \<and> b \<in> set x) \<longleftrightarrow> (\<exists>y \<in> set ` X. a \<in> y \<and> b \<in> y)" for X :: "nat list set" by blast
      show ?thesis unfolding e O(5) ..
    qed
    have "validate_hierarchy_groups ?n gs = Inr ()"
      unfolding validate_hierarchy_groups_iff O(2) d(2) O(4) using g(2) O(1,3) by blast
    moreover have "length gs \<noteq> ?n" unfolding O(4) by (rule g(3))
    ultimately show ?thesis unfolding candidate_ok_def same using assms(2) C by blast
  qed (use assms(3) in blast)
qed

lemma hierarchy_candidates_ok:
  assumes "topology_ok t"
  shows "\<forall>g \<in> set (hierarchy_candidates t payload). candidate_ok t payload g"
proof -
  have "\<forall>g \<in> set (fold (hierarchy_candidate t payload) ths cs). candidate_ok t payload g"
    if "set ths \<subseteq> set (hierarchy_thresholds t payload)" "\<forall>g \<in> set cs. candidate_ok t payload g" for ths cs
    using that
  proof (induction ths arbitrary: cs)
    case (Cons th ths)
    have "th \<in> set (hierarchy_thresholds t payload)" "set ths \<subseteq> set (hierarchy_thresholds t payload)"
      using Cons.prems(1) by auto
    then show ?case unfolding fold.simps comp_apply
      by (intro Cons.IH hierarchy_candidate_ok[OF assms] Cons.prems(2))
  qed simp
  from this[OF subset_refl, of "[]"] show ?thesis by (simp add: hierarchy_candidates_def)
qed

section \<open>A three-rank example\<close>

lemmas time_defs = link_transfer_time_ns_def transfer_time_ns_def transfer_time_ns_u128_def saturating_mul_def saturating_u64_def saturating_add_def

lemma two_ranks: "replicate 2 x = [x, x]" "[1..<2] = [1]"
  by (simp_all add: numeral_2_eq_2)

lemma sample_shortest_back: "shortest_transfer_time_ns_for_rail sample_topology 2 0 8 None = Some 3012"
  by (simp add: sample_topology_eq shortest_transfer_time_ns_for_rail_def relax_def mget_def time_defs
      Let_def three_ranks search_3)

lemma sample_cycle: "cycle_cost sample_topology [0, 2] 8 [0, 1] = Some (3012, 6024)"
  by (simp add: cycle_cost_def ring_hops_Cons shortest_transfer_time_ns_def sample_shortest sample_shortest_back saturating_add_def)

lemma sample_links:
  "link sample_topology 0 0 = None" "link sample_topology 0 1 = Some \<lparr> lc_bandwidth_mbps = 8, lc_latency_ns = 5 \<rparr>"
  "link sample_topology 0 2 = None" "link sample_topology 1 0 = Some \<lparr> lc_bandwidth_mbps = 8, lc_latency_ns = 5 \<rparr>"
  "link sample_topology 1 1 = None" "link sample_topology 1 2 = Some \<lparr> lc_bandwidth_mbps = 4, lc_latency_ns = 7 \<rparr>"
  "link sample_topology 2 0 = None" "link sample_topology 2 1 = Some \<lparr> lc_bandwidth_mbps = 4, lc_latency_ns = 7 \<rparr>"
  "link sample_topology 2 2 = None"
  by (simp_all add: sample_topology_eq link_def mget_def Let_def)

lemma sample_fast: "fast_groups 3 (fast_link sample_topology 8 1005) = [[0, 1], [2]]"
  by (simp add: fast_groups_def group_from_def three_ranks grow_group.simps push_peers_def fast_link_def sample_links [simplified] time_defs numeral_3_eq_3[symmetric])

lemma sample_slow: "fast_groups 3 (fast_link sample_topology 8 2007) = [[0, 1, 2]]"
  by (simp add: fast_groups_def group_from_def three_ranks grow_group.simps push_peers_def fast_link_def sample_links [simplified] time_defs numeral_3_eq_3[symmetric])

lemma sample_thresholds: "hierarchy_thresholds sample_topology 8 = [1005, 2007]"
proof -
  have "rank_pairs 3 = [(0, 1), (0, 2), (1, 2)]" by (simp add: rank_pairs_def upt_rec)
  moreover have "ct_world_size sample_topology = 3" by (simp add: sample_topology_eq Let_def)
  ultimately show ?thesis by (simp add: hierarchy_thresholds_def sample_links [simplified] time_defs)
qed

lemma sample_leader: "elect_leader sample_topology 8 [0, 1] = Some [0, 1]" "elect_leader sample_topology 8 [2] = Some [2]"
   by (simp_all add: elect_leader_def leader_cost_def shortest_transfer_time_ns_within_def sample_topology_eq relax_def mget_def time_defs
      Let_def three_ranks search_3 swap_at_def)

lemma sample_order: "best_rank_cycle_order sample_topology [0, 2] 8 = Some [0, 1]"
  by (simp add: best_rank_cycle_order_def EXACT_RING_SEARCH_MAX_RANKS_def collect_rank_cycles.simps two_ranks upt_rec sample_cycle[simplified] better_cycle_def numeral_2_eq_2[symmetric])

lemma sample_hierarchy: "hierarchy_candidates sample_topology 8 = [[[0, 1], [2]]]"
proof -
  have "ct_world_size sample_topology = 3" by (simp add: sample_topology_eq Let_def)
  then show ?thesis
    by (simp add: hierarchy_candidates_def sample_thresholds hierarchy_candidate_def Let_def sample_fast sample_slow optimize_hierarchy_def
     sample_leader[simplified] sample_order)
qed

section \<open>Properties\<close>

text \<open>C22. Inferred hierarchies are valid and mean what they say: every candidate is accepted by
  \<open>validate_hierarchy_groups\<close>, is neither one group nor all singletons, and two ranks share a group
  exactly when they are connected by links at least as fast as one of the topology's own link times.\<close>

theorem hierarchy_candidates_are_components:
  assumes "topology_ok t" "groups \<in> set (hierarchy_candidates t payload)"
  shows "validate_hierarchy_groups (ct_world_size t) groups = Inr () \<and>
    2 \<le> length groups \<and> length groups < ct_world_size t \<and>
    (\<exists>threshold \<in> set (hierarchy_thresholds t payload). \<forall>a < ct_world_size t. \<forall>b < ct_world_size t.
        (\<exists>g \<in> set groups. a \<in> set g \<and> b \<in> set g) \<longleftrightarrow> reaches (ct_world_size t) (fast_link t payload threshold) a b)"
proof -
  have ok: "candidate_ok t payload groups" using hierarchy_candidates_ok[OF assms(1)] assms(2) by blast
  then have v: "2 \<le> length groups" "[] \<notin> set groups" "distinct (concat groups)" "set (concat groups) = {..<ct_world_size t}"
    by (simp_all add: candidate_ok_def validate_hierarchy_groups_iff)
  have "length groups \<le> length (concat groups)"
    using v(2)
  proof (induction groups)
    case (Cons g gs)
    then show ?case by (cases g) auto
  qed simp
  moreover have "length (concat groups) = ct_world_size t" using v(3,4) by (metis card_lessThan distinct_card)
  ultimately have "length groups \<le> ct_world_size t" by (simp only:)
  moreover have "length groups \<noteq> ct_world_size t" using ok by (simp add: candidate_ok_def)
  ultimately have "length groups < ct_world_size t" by (rule le_neq_implies_less)
  with ok v(1) show ?thesis unfolding candidate_ok_def by blast
qed

theorem hierarchy_candidates_are_components_witness:
  "validate_hierarchy_groups 3 [[0, 1], [2]] = Inr () \<and>
   (\<exists>threshold \<in> set (hierarchy_thresholds sample_topology 8). reaches 3 (fast_link sample_topology 8 threshold) 0 1)"
proof -
  have n: "ct_world_size sample_topology = 3" "topology_ok sample_topology"
    using sample_topology_built built_topology_ok by blast+
  have "[[0, 1], [2]] \<in> set (hierarchy_candidates sample_topology 8)" by (simp add: sample_hierarchy)
  from hierarchy_candidates_are_components[OF n(2) this, unfolded n(1)] obtain threshold where
    v: "validate_hierarchy_groups 3 [[0, 1], [2]] = Inr ()" "threshold \<in> set (hierarchy_thresholds sample_topology 8)"
    and r: "\<forall>a < 3. \<forall>b < 3. (\<exists>g \<in> set [[0, 1], [2]]. a \<in> set g \<and> b \<in> set g) \<longleftrightarrow>
        reaches 3 (fast_link sample_topology 8 threshold) a b"
    by blast
  have "(\<exists>g \<in> set [[0, 1], [2]]. 0 \<in> set g \<and> 1 \<in> set g) \<longleftrightarrow> reaches 3 (fast_link sample_topology 8 threshold) 0 1"
    using r[rule_format, of 0 1] by simp
  then have "reaches 3 (fast_link sample_topology 8 threshold) 0 1" by simp
  with v show ?thesis by blast
qed

text \<open>C23. The cycle of leaders is optimal for two to nine leaders: the order returned is a permutation that
  starts with the first leader, and no other such permutation has a smaller slowest hop, or the same
  slowest hop and a smaller total; nothing is returned only when every cycle contains an unroutable hop.\<close>

theorem best_rank_cycle_optimal:
  assumes "1 < length ranks" "length ranks \<le> EXACT_RING_SEARCH_MAX_RANKS"
  shows "case best_rank_cycle_order t ranks payload of
       Some order \<Rightarrow> distinct order \<and> set order = {..<length ranks} \<and> hd order = 0 \<and>
         (\<exists>s. cycle_cost t ranks payload order = Some s \<and>
            (\<forall>z s'. distinct (0 # z) \<and> set (0 # z) = {..<length ranks} \<and> cycle_cost t ranks payload (0 # z) = Some s' \<longrightarrow> s \<le> s'))
     | None \<Rightarrow> \<forall>z. distinct (0 # z) \<and> set (0 # z) = {..<length ranks} \<longrightarrow> cycle_cost t ranks payload (0 # z) = None"
proof -
  let ?m = "length ranks"
  obtain result where r: "improves (\<lambda>(s, z). cycle_extends ?m [0] z \<and> cycle_cost t ranks payload z = Some s) None result"
    "best_rank_cycle_order t ranks payload = map_option snd result" using best_rank_cycle_exact[OF assms] by blast
  have ext: "cycle_extends ?m [0] (0 # z)" if "distinct (0 # z)" "set (0 # z) = {..<?m}" for z
    using that by (simp add: cycle_extends_def)
  show ?thesis
  proof (cases result)
    case None
    then have "cycle_cost t ranks payload (0 # z) = None" if "distinct (0 # z)" "set (0 # z) = {..<?m}" for z
      using r(1) ext[OF that] by (cases "cycle_cost t ranks payload (0 # z)") (auto simp: improves_def)
    then show ?thesis using r(2) None by simp
  next
    case (Some x)
    obtain s order where x: "x = (s, order)" by (cases x)
    have E: "cycle_extends ?m [0] order" "cycle_cost t ranks payload order = Some s"
      using r(1) Some x by (auto simp: improves_def)
    have least: "s \<le> s'" if "distinct (0 # z)" "set (0 # z) = {..<?m}" "cycle_cost t ranks payload (0 # z) = Some s'" for z s'
    proof -
      have "(s, order) \<le> (s', 0 # z)"
        by (rule improvesD[OF r(1)[unfolded Some x]]) (use ext[OF that(1,2)] that(3) in simp)
      then show ?thesis by (auto simp: less_imp_le simp del: less_prod_simp)
    qed
    from E(1) obtain rest where o: "order = [0] @ rest" and d: "distinct order" "set order = {..<?m}"
      unfolding cycle_extends_def by blast
    have "hd order = 0" by (simp add: o)
    with d have perm: "distinct order \<and> set order = {..<?m} \<and> hd order = 0" by blast
    show ?thesis unfolding r(2) Some x option.map snd_conv option.case
      using perm E(2) least by blast
  qed
qed

theorem best_rank_cycle_optimal_witness:
  "\<exists>order s. best_rank_cycle_order sample_topology [0, 2] 8 = Some order \<and>
     cycle_cost sample_topology [0, 2] 8 order = Some s \<and> s \<le> (3012, 6024)"
proof -
  have perm: "distinct (0 # [1 :: nat]) \<and> set (0 # [1 :: nat]) = {..<length [0 :: nat, 2]}" by auto
  from best_rank_cycle_optimal[of "[0, 2]" sample_topology 8] sample_order perm sample_cycle show ?thesis
    by (fastforce simp: EXACT_RING_SEARCH_MAX_RANKS_def)
qed

end
