(* ===== verification/Topology_Parse.thy ===== *)
theory Topology_Parse
  imports Topology
begin

text \<open>
  The textual forms of rings, rails, groups and links in \<^verbatim>\<open>src/rank/topology.rs\<close>, as the environment
  and recorded profiles give them, and the variables of the environment. Strings are ASCII text; the
  standard library's \<open>split\<close>, \<open>split_once\<close>, \<open>trim\<close>, \<open>to_ascii_lowercase\<close> and integer parsing are
  written out on character lists.
\<close>

section \<open>Strings of the standard library\<close>

definition is_space :: "char \<Rightarrow> bool" where
  "is_space c \<longleftrightarrow> (let n = of_char c :: nat in n = 32 \<or> (9 \<le> n \<and> n \<le> 13))"

definition trim :: "string \<Rightarrow> string" where
  "trim s = rev (dropWhile is_space (rev (dropWhile is_space s)))"

text \<open>\<open>str::split(c)\<close> always gives at least one piece.\<close>

fun split_on :: "char \<Rightarrow> string \<Rightarrow> string list" where
  "split_on c [] = [[]]"
| "split_on c (x # xs) =
     (if x = c then [] # split_on c xs
      else (case split_on c xs of [] \<Rightarrow> [[x]] | piece # pieces \<Rightarrow> (x # piece) # pieces))"

fun split_once :: "char \<Rightarrow> string \<Rightarrow> (string \<times> string) option" where
  "split_once c [] = None"
| "split_once c (x # xs) =
     (if x = c then Some ([], xs) else map_option (\<lambda>(a, b). (x # a, b)) (split_once c xs))"

definition to_ascii_lowercase :: "string \<Rightarrow> string" where
  "to_ascii_lowercase = map (\<lambda>c. let n = of_char c :: nat in if 65 \<le> n \<and> n \<le> 90 then char_of (n + 32) else c)"

definition eq_ignore_ascii_case :: "string \<Rightarrow> string \<Rightarrow> bool" where
  "eq_ignore_ascii_case a b \<longleftrightarrow> to_ascii_lowercase a = to_ascii_lowercase b"

text \<open>\<open>str::parse\<close> of an unsigned integer of \<open>w\<close> bits: an optional plus sign and digits, checked at each digit.\<close>

definition push_digit :: "nat \<Rightarrow> char \<Rightarrow> nat \<Rightarrow> nat option" where
  "push_digit w c acc =
     (let n = of_char c :: nat in
      if 48 \<le> n \<and> n \<le> 57
      then (case checked_mul w acc 10 of None \<Rightarrow> None | Some m \<Rightarrow> checked_add w m (n - 48))
      else None)"

definition parse_unsigned :: "nat \<Rightarrow> string \<Rightarrow> nat option" where
  "parse_unsigned w s =
     (let digits = (case s of [] \<Rightarrow> [] | c # rest \<Rightarrow> if c = CHR ''+'' then rest else s)
      in if digits = [] then None else fold_o (push_digit w) digits 0)"

section \<open>Environment\<close>

text \<open>What \<open>env::var\<close> returns; a value that is not Unicode comes with its lossy text.\<close>

datatype env_value = EnvValue string | EnvNotPresent | EnvNotUnicode string

type_synonym environment = "string \<Rightarrow> env_value"

definition parse_usize_environment :: "environment \<Rightarrow> string \<Rightarrow> nat \<Rightarrow> topology_error + nat" where
  "parse_usize_environment env name fallback =
     (case env name of
        EnvValue v \<Rightarrow> ok_or (parse_unsigned 64 v) (InvalidEnvironment name v)
      | EnvNotPresent \<Rightarrow> Inr fallback
      | EnvNotUnicode v \<Rightarrow> Inl (InvalidEnvironment name v))"

definition parse_u64_environment :: "environment \<Rightarrow> string \<Rightarrow> nat \<Rightarrow> topology_error + nat" where
  "parse_u64_environment env name fallback =
     (case env name of
        EnvValue v \<Rightarrow> ok_or (parse_unsigned 64 v) (InvalidEnvironment name v)
      | EnvNotPresent \<Rightarrow> Inr fallback
      | EnvNotUnicode v \<Rightarrow> Inl (InvalidEnvironment name v))"

definition parse_collective_transport_environment :: "environment \<Rightarrow> topology_error + collective_transport" where
  "parse_collective_transport_environment env =
     (case env ''GX1_COLLECTIVE_TRANSPORT'' of
        EnvValue v \<Rightarrow>
          (let word = to_ascii_lowercase (trim v)
           in if word \<in> {''coordinator'', ''tcp_coordinator'', ''tcp_host_staged''} then Inr TcpHostStaged
              else if word \<in> {''peer'', ''tcp_peer''} then Inr TcpPeer
              else Inl (InvalidEnvironment ''GX1_COLLECTIVE_TRANSPORT'' v))
      | EnvNotPresent \<Rightarrow> Inr TcpHostStaged
      | EnvNotUnicode v \<Rightarrow> Inl (InvalidEnvironment ''GX1_COLLECTIVE_TRANSPORT'' v))"

definition topology_probe_requested :: "environment \<Rightarrow> topology_error + bool" where
  "topology_probe_requested env =
     (case env ''GX1_TOPOLOGY_LINKS'' of
        EnvValue v \<Rightarrow> Inr (eq_ignore_ascii_case (trim v) ''probe'')
      | EnvNotPresent \<Rightarrow> Inr False
      | EnvNotUnicode v \<Rightarrow> Inl (InvalidEnvironment ''GX1_TOPOLOGY_LINKS'' v))"

section \<open>Orders and groups\<close>

definition parse_ring_order :: "nat \<Rightarrow> string \<Rightarrow> topology_error + nat list" where
  "parse_ring_order world_size v =
     bind_r (traverse_r (\<lambda>rank. ok_or (parse_unsigned 32 (trim rank)) (InvalidEnvironment ''GX1_RING_ORDER'' v))
        (split_on CHR '','' v)) (\<lambda>order.
     bind_r (validate_ring_order world_size order) (\<lambda>_. Inr order))"

definition parse_rail_order :: "nat \<Rightarrow> string \<Rightarrow> topology_error + nat list" where
  "parse_rail_order rail_count v =
     bind_r (traverse_r (\<lambda>rail. ok_or (parse_unsigned 64 (trim rail)) (InvalidEnvironment ''GX1_RAIL_ORDER'' v))
        (split_on CHR '','' v)) (\<lambda>order.
     bind_r (validate_rail_order rail_count order) (\<lambda>_. Inr order))"

definition parse_hierarchy_groups :: "nat \<Rightarrow> string \<Rightarrow> topology_error + nat list list" where
  "parse_hierarchy_groups world_size v =
     bind_r (traverse_r (\<lambda>members.
          traverse_r (\<lambda>rank. ok_or (parse_unsigned 32 (trim rank)) (InvalidEnvironment ''GX1_TOPOLOGY_GROUPS'' v))
            (filter (\<lambda>rank. trim rank \<noteq> []) (split_on CHR '','' members)))
        (split_on CHR '';'' v)) (\<lambda>groups.
     bind_r (validate_hierarchy_groups world_size groups) (\<lambda>_. Inr groups))"

section \<open>Links\<close>

text \<open>The fields are parsed in the order of the source: ranks, bandwidth, latency.\<close>

definition parse_topology_link :: "string \<Rightarrow> string \<Rightarrow> collective_topology \<Rightarrow> topology_error + collective_topology" where
  "parse_topology_link v encoded t =
     (let invalid = InvalidEnvironment ''GX1_TOPOLOGY_LINKS'' v in
      bind_r (ok_or (split_once CHR '':'' (trim encoded)) invalid) (\<lambda>(ranks, metrics).
      bind_r (ok_or (split_once CHR ''-'' ranks) invalid) (\<lambda>(first, second).
      bind_r (ok_or (split_once CHR '':'' metrics) invalid) (\<lambda>(bandwidth, latency).
      bind_r (ok_or (parse_unsigned 32 (trim first)) invalid) (\<lambda>first.
      bind_r (ok_or (parse_unsigned 32 (trim second)) invalid) (\<lambda>second.
      bind_r (ok_or (parse_unsigned 64 (trim bandwidth)) invalid) (\<lambda>bandwidth.
      bind_r (ok_or (parse_unsigned 64 (trim latency)) invalid) (\<lambda>latency.
        add_link \<lparr> tl_first_rank = first, tl_second_rank = second,
                   tl_bandwidth_mbps = bandwidth, tl_latency_ns = latency \<rparr> t))))))))"

definition parse_topology_links :: "nat \<Rightarrow> string \<Rightarrow> topology_error + collective_topology" where
  "parse_topology_links world_size v =
     bind_r (topology_empty world_size)
       (fold_r (parse_topology_link v) (filter (\<lambda>l. trim l \<noteq> []) (split_on CHR '','' v)))"

definition parse_topology_rail_link ::
  "string \<Rightarrow> nat \<Rightarrow> string \<Rightarrow> collective_topology \<Rightarrow> topology_error + collective_topology" where
  "parse_topology_rail_link v p2p_rails encoded t =
     (let invalid = InvalidEnvironment ''GX1_TOPOLOGY_RAIL_LINKS'' v in
      bind_r (ok_or (split_once CHR ''@'' (trim encoded)) invalid) (\<lambda>(rail, l).
      bind_r (ok_or (parse_unsigned 64 (trim rail)) invalid) (\<lambda>rail.
      if rail \<ge> p2p_rails then Inl invalid else
      bind_r (ok_or (split_once CHR '':'' l) invalid) (\<lambda>(ranks, metrics).
      bind_r (ok_or (split_once CHR ''-'' ranks) invalid) (\<lambda>(first, second).
      bind_r (ok_or (split_once CHR '':'' metrics) invalid) (\<lambda>(bandwidth, latency).
      bind_r (ok_or (parse_unsigned 32 (trim first)) invalid) (\<lambda>first.
      bind_r (ok_or (parse_unsigned 32 (trim second)) invalid) (\<lambda>second.
      bind_r (ok_or (parse_unsigned 64 (trim bandwidth)) invalid) (\<lambda>bandwidth.
      bind_r (ok_or (parse_unsigned 64 (trim latency)) invalid) (\<lambda>latency.
        add_rail_link \<lparr> rl_rail = rail, rl_first_rank = first, rl_second_rank = second,
                        rl_bandwidth_mbps = bandwidth, rl_latency_ns = latency \<rparr> t))))))))))"

definition parse_topology_rail_links ::
  "string \<Rightarrow> nat \<Rightarrow> collective_topology \<Rightarrow> topology_error + collective_topology" where
  "parse_topology_rail_links v p2p_rails =
     fold_r (parse_topology_rail_link v p2p_rails) (filter (\<lambda>l. trim l \<noteq> []) (split_on CHR '','' v))"

definition parse_topology_aggregate_link ::
  "string \<Rightarrow> string \<Rightarrow> collective_topology \<Rightarrow> topology_error + collective_topology" where
  "parse_topology_aggregate_link v encoded t =
     (let invalid = InvalidEnvironment ''GX1_TOPOLOGY_AGGREGATE_LINKS'' v in
      bind_r (ok_or (split_once CHR '':'' (trim encoded)) invalid) (\<lambda>(ranks, bandwidth).
      bind_r (ok_or (split_once CHR ''-'' ranks) invalid) (\<lambda>(first, second).
      bind_r (ok_or (parse_unsigned 32 (trim first)) invalid) (\<lambda>first.
      bind_r (ok_or (parse_unsigned 32 (trim second)) invalid) (\<lambda>second.
      bind_r (ok_or (parse_unsigned 64 (trim bandwidth)) invalid) (\<lambda>bandwidth.
        add_aggregate_link \<lparr> al_first_rank = first, al_second_rank = second,
                             al_bandwidth_mbps = bandwidth \<rparr> t))))))"

definition parse_topology_aggregate_links :: "string \<Rightarrow> collective_topology \<Rightarrow> topology_error + collective_topology" where
  "parse_topology_aggregate_links v =
     fold_r (parse_topology_aggregate_link v) (filter (\<lambda>l. trim l \<noteq> []) (split_on CHR '','' v))"

section \<open>Printed forms\<close>

text \<open>The documented syntax of the variables, written from the values.\<close>

definition join_with :: "char \<Rightarrow> string list \<Rightarrow> string" where
  "join_with c pieces = (case pieces of [] \<Rightarrow> [] | p # ps \<Rightarrow> p @ concat (map (\<lambda>q. c # q) ps))"

definition show_order :: "nat list \<Rightarrow> string" where
  "show_order order = join_with CHR '','' (map show_nat order)"

definition show_groups :: "nat list list \<Rightarrow> string" where
  "show_groups groups = join_with CHR '';'' (map show_order groups)"

definition show_link :: "topology_link \<Rightarrow> string" where
  "show_link l = show_nat (tl_first_rank l) @ CHR ''-'' # show_nat (tl_second_rank l) @ CHR '':'' #
     show_nat (tl_bandwidth_mbps l) @ CHR '':'' # show_nat (tl_latency_ns l)"

section \<open>Digits\<close>

definition is_digit :: "char \<Rightarrow> bool" where
  "is_digit c \<longleftrightarrow> (let n = of_char c :: nat in 48 \<le> n \<and> n \<le> 57)"

lemma digit_char_code: "d < 10 \<Longrightarrow> (of_char (digit_char d) :: nat) = 48 + d"
  by (simp add: digit_char_def)

lemma show_nat_digits: "show_nat n \<noteq> [] \<and> (\<forall>c \<in> set (show_nat n). is_digit c)"
proof (induction n rule: show_nat.induct)
  case (1 n)
  have d: "is_digit (digit_char d)" if "d < 10" for d using that by (simp add: is_digit_def digit_char_code)
  show ?case
  proof (cases "n < 10")
    case True
    then show ?thesis using d by (subst (1 2) show_nat.simps) simp
  next
    case False
    then show ?thesis using 1[OF False] d[of "n mod 10"] by (subst (1 2) show_nat.simps) auto
  qed
qed

lemma fold_o_append: "fold_o f (xs @ ys) s = (case fold_o f xs s of None \<Rightarrow> None | Some s' \<Rightarrow> fold_o f ys s')"
  by (induction xs arbitrary: s) (auto split: option.split)

lemma push_digit_char: "d < 10 \<Longrightarrow> a * 10 + d < 2 ^ w \<Longrightarrow> push_digit w (digit_char d) a = Some (a * 10 + d)"
  by (simp add: push_digit_def digit_char_code checked_mul_def checked_add_def)

lemma push_show_nat: "n < 2 ^ w \<Longrightarrow> fold_o (push_digit w) (show_nat n) 0 = Some n"
proof (induction n rule: show_nat.induct)
  case (1 n)
  show ?case
  proof (cases "n < 10")
    case True
    then show ?thesis using 1(2) push_digit_char[of n 0 w] by (subst show_nat.simps) simp
  next
    case False
    have "n div 10 < 2 ^ w" using 1(2) div_le_dividend le_less_trans by blast
    moreover have "push_digit w (digit_char (n mod 10)) (n div 10) = Some n"
      using push_digit_char[of "n mod 10" "n div 10" w] 1(2) by simp
    ultimately show ?thesis using 1(1)[OF False] False by (subst show_nat.simps) (simp add: fold_o_append)
  qed
qed

lemma digit_facts: "is_digit c \<Longrightarrow> \<not> is_space c" "\<not> is_digit CHR '',''" "\<not> is_digit CHR '';''" "\<not> is_digit CHR '':''"
  "\<not> is_digit CHR ''-''" "\<not> is_digit CHR ''+''" "\<not> is_digit CHR ''@''"
  by (auto simp: is_digit_def is_space_def Let_def)

lemma trim_solid:
  assumes "s \<noteq> []" "\<not> is_space (hd s)" "\<not> is_space (last s)"
  shows "trim s = s"
proof -
  have "dropWhile is_space s = s" using assms(1,2) by (cases s) auto
  moreover have "dropWhile is_space (rev s) = rev s" using assms(1,3) by (cases s rule: rev_cases) auto
  ultimately show ?thesis by (simp add: trim_def)
qed

lemma trim_show_nat [simp]: "trim (show_nat n) = show_nat n"
  by (rule trim_solid) (use show_nat_digits[of n] digit_facts(1) in \<open>auto\<close>)

lemma parse_show_nat [simp]: "n < 2 ^ w \<Longrightarrow> parse_unsigned w (show_nat n) = Some n"
proof -
  assume n: "n < 2 ^ w"
  from show_nat_digits[of n] obtain c rest where s: "show_nat n = c # rest" "is_digit c" by (cases "show_nat n") auto
  then have "c \<noteq> CHR ''+''" using digit_facts(6) by auto
  with s push_show_nat[OF n] show ?thesis by (simp add: parse_unsigned_def Let_def)
qed

lemma show_nat_free: "\<not> is_digit c \<Longrightarrow> c \<notin> set (show_nat n)"
  using show_nat_digits by blast

section \<open>Splitting\<close>

lemma split_on_nonempty [simp]: "split_on c s \<noteq> []"
  by (induction s) (auto split: list.split)

lemma split_on_solid: "c \<notin> set p \<Longrightarrow> split_on c p = [p]"
  by (induction p) auto

lemma split_on_piece: "c \<notin> set p \<Longrightarrow> split_on c (p @ c # rest) = p # split_on c rest"
  by (induction p) auto

lemma split_on_join:
  assumes "ps \<noteq> []" "\<forall>p \<in> set ps. c \<notin> set p"
  shows "split_on c (join_with c ps) = ps"
proof -
  have "split_on c (p @ concat (map (\<lambda>q. c # q) qs)) = p # qs" if "\<forall>q \<in> set (p # qs). c \<notin> set q" for p qs
    using that
  proof (induction qs arbitrary: p)
    case (Cons q qs)
    then show ?case by (simp add: split_on_piece)
  qed (simp add: split_on_solid)
  with assms show ?thesis by (cases ps) (auto simp: join_with_def)
qed

lemma split_once_piece: "c \<notin> set a \<Longrightarrow> split_once c (a @ c # b) = Some (a, b)"
  by (induction a) auto

lemma set_join_with: "set (join_with c ps) \<subseteq> insert c (\<Union>p \<in> set ps. set p)"
  by (cases ps) (auto simp: join_with_def)

section \<open>Reading back what is printed\<close>

lemma parse_numbers:
  assumes "\<forall>r \<in> set order. r < 2 ^ w"
  shows "traverse_r (\<lambda>x. ok_or (parse_unsigned w (trim x)) e) (map show_nat order) = Inr order"
  using assms by (induction order) (simp_all add: ok_or_def)

lemma split_show_order: "order \<noteq> [] \<Longrightarrow> split_on CHR '','' (show_order order) = map show_nat order"
  unfolding show_order_def by (rule split_on_join) (use show_nat_free digit_facts(2) in auto)

lemma below_all: "set xs = {..<n} \<Longrightarrow> 0 < n \<Longrightarrow> n \<le> b \<Longrightarrow> xs \<noteq> [] \<and> (\<forall>r \<in> set xs. r < b)" for b :: nat
  by (metis empty_iff empty_set lessThan_iff order_less_le_trans)

lemma ring_order_roundtrip:
  assumes "validate_ring_order n order = Inr ()" "n \<le> 2 ^ 32"
  shows "parse_ring_order n (show_order order) = Inr order"
proof -
  have "set order = {..<n}" "0 < n" using assms(1) unfolding validate_ring_order_iff by blast+
  from below_all[OF this assms(2)] have ne: "order \<noteq> []" and small: "\<forall>r \<in> set order. r < 2 ^ 32" by blast+
  show ?thesis unfolding parse_ring_order_def split_show_order[OF ne] parse_numbers[OF small] by (simp add: assms(1))
qed

lemma rail_order_roundtrip:
  assumes "validate_rail_order n order = Inr ()" "0 < n" "n \<le> 2 ^ 64"
  shows "parse_rail_order n (show_order order) = Inr order"
proof -
  have "set order = {..<n}" using assms(1) unfolding validate_rail_order_iff by blast
  from below_all[OF this assms(2,3)] have ne: "order \<noteq> []" and small: "\<forall>r \<in> set order. r < 2 ^ 64" by blast+
  show ?thesis unfolding parse_rail_order_def split_show_order[OF ne] parse_numbers[OF small] by (simp add: assms(1))
qed

lemma parse_groups:
  assumes "\<forall>g \<in> set gs. g \<noteq> [] \<and> (\<forall>r \<in> set g. r < 2 ^ w)"
  shows "traverse_r (\<lambda>members.
          traverse_r (\<lambda>rank. ok_or (parse_unsigned w (trim rank)) e)
            (filter (\<lambda>rank. trim rank \<noteq> []) (split_on CHR '','' members))) (map show_order gs) = Inr gs"
  using assms
proof (induction gs)
  case (Cons x gs)
  have "filter (\<lambda>rank. trim rank \<noteq> []) (map show_nat x) = map show_nat x"
    using show_nat_digits by (auto simp: filter_id_conv)
  with Cons show ?case by (simp add: split_show_order parse_numbers)
qed simp

lemma groups_roundtrip:
  assumes v: "validate_hierarchy_groups n groups = Inr ()" and n: "n \<le> 2 ^ 32"
  shows "parse_hierarchy_groups n (show_groups groups) = Inr groups"
proof -
  from v have g: "2 \<le> length groups" "[] \<notin> set groups" "set (concat groups) = {..<n}"
    unfolding validate_hierarchy_groups_iff by blast+
  have ne: "groups \<noteq> []" using g(1) by auto
  have small: "\<forall>r \<in> set g. r < 2 ^ 32" if "g \<in> set groups" for g
  proof
    fix r assume "r \<in> set g"
    then have "r \<in> set (concat groups)" using that by auto
    then show "r < 2 ^ 32" unfolding g(3) using n by (simp only: lessThan_iff)
  qed
  have free: "CHR '';'' \<notin> set (show_order g)" for g
  proof -
    have "CHR '';'' \<notin> set (show_nat r)" for r by (rule show_nat_free[OF digit_facts(3)])
    then show ?thesis using set_join_with[of "CHR '',''" "map show_nat g"] by (auto simp: show_order_def)
  qed
  have "split_on CHR '';'' (show_groups groups) = map show_order groups"
    unfolding show_groups_def by (rule split_on_join) (use ne free in auto)
  moreover have "\<forall>g \<in> set groups. g \<noteq> [] \<and> (\<forall>r \<in> set g. r < 2 ^ 32)" using g(2) small by metis
  ultimately show ?thesis using v by (simp only: parse_hierarchy_groups_def parse_groups bind_r_simps)
qed

lemma show_link_chars:
  "show_link l \<noteq> []" "\<not> is_space (hd (show_link l))" "\<not> is_space (last (show_link l))" "CHR '','' \<notin> set (show_link l)"
proof -
  obtain c rest where s: "show_nat (tl_first_rank l) = c # rest" "is_digit c"
    using show_nat_digits[of "tl_first_rank l"] by (cases "show_nat (tl_first_rank l)") auto
  then show "show_link l \<noteq> []" "\<not> is_space (hd (show_link l))" using digit_facts(1) by (simp_all add: show_link_def)
  have e: "show_nat (tl_latency_ns l) \<noteq> []" using show_nat_digits by blast
  then have "last (show_link l) = last (show_nat (tl_latency_ns l))" by (simp add: show_link_def)
  moreover have "is_digit (last (show_nat (tl_latency_ns l)))" using show_nat_digits e last_in_set by blast
  ultimately show "\<not> is_space (last (show_link l))" using digit_facts(1) by simp
  have "CHR '','' \<notin> set (show_nat n)" for n by (rule show_nat_free[OF digit_facts(2)])
  then show "CHR '','' \<notin> set (show_link l)" by (simp add: show_link_def)
qed

lemma link_eta:
  "\<lparr> tl_first_rank = tl_first_rank l, tl_second_rank = tl_second_rank l,
     tl_bandwidth_mbps = tl_bandwidth_mbps l, tl_latency_ns = tl_latency_ns l \<rparr> = (l :: topology_link)"
  by (cases l) simp

lemma parse_show_link:
  assumes "tl_first_rank l < 2 ^ 32" "tl_second_rank l < 2 ^ 32" "tl_bandwidth_mbps l < 2 ^ 64" "tl_latency_ns l < 2 ^ 64"
  shows "parse_topology_link v (show_link l) t = add_link l t"
proof -
  have colon: "CHR '':'' \<notin> set (show_nat (tl_first_rank l) @ CHR ''-'' # show_nat (tl_second_rank l))"
    "CHR '':'' \<notin> set (show_nat (tl_bandwidth_mbps l))" using show_nat_free[OF digit_facts(4)] by auto
  have dash: "CHR ''-'' \<notin> set (show_nat (tl_first_rank l))" by (rule show_nat_free[OF digit_facts(5)])
  have "trim (show_link l) = (show_nat (tl_first_rank l) @ CHR ''-'' # show_nat (tl_second_rank l)) @ CHR '':'' #
      (show_nat (tl_bandwidth_mbps l) @ CHR '':'' # show_nat (tl_latency_ns l))"
    using trim_solid[OF show_link_chars(1-3)] by (simp add: show_link_def)
  then show ?thesis
    using assms by (simp add: parse_topology_link_def Let_def ok_or_def split_once_piece[OF colon(1)]
        split_once_piece[OF colon(2)] split_once_piece[OF dash] link_eta del: append_assoc)
qed

lemma parse_show_links:
  assumes "\<forall>l \<in> set ls. tl_first_rank l < 2 ^ 32 \<and> tl_second_rank l < 2 ^ 32 \<and> tl_bandwidth_mbps l < 2 ^ 64 \<and> tl_latency_ns l < 2 ^ 64"
  shows "parse_topology_links n (join_with CHR '','' (map show_link ls)) = bind_r (topology_empty n) (fold_r add_link ls)"
proof -
  have solid: "trim (show_link l) \<noteq> []" for l using trim_solid[OF show_link_chars(1-3)] show_link_chars(1) by metis
  have pieces: "filter (\<lambda>l. trim l \<noteq> []) (split_on CHR '','' (join_with CHR '','' (map show_link ls))) = map show_link ls"
  proof (cases "ls = []")
    case False
    then have "split_on CHR '','' (join_with CHR '','' (map show_link ls)) = map show_link ls"
      by (intro split_on_join) (use show_link_chars(4) in auto)
    with solid show ?thesis by (simp add: filter_id_conv)
  qed (simp add: join_with_def trim_def)
  have "fold_r (parse_topology_link v) (map show_link ls) t = fold_r add_link ls t" for v t
    using assms by (induction ls arbitrary: t) (auto simp: parse_show_link bind_r_def split: sum.splits)
  then have "fold_r (parse_topology_link v) (map show_link ls) = fold_r add_link ls" for v by blast
  then show ?thesis unfolding parse_topology_links_def pieces by simp
qed

section \<open>Properties\<close>

text \<open>Printed orders are read back: every ring order, rail order and hierarchy the validators accept is
  parsed from its documented textual form to itself, whatever the number of ranks or rails.\<close>

theorem parse_orders_roundtrip:
  assumes "validate_ring_order n ring = Inr ()" "n \<le> 2 ^ 32"
    and "validate_rail_order m rails = Inr ()" "0 < m" "m \<le> 2 ^ 64"
    and "validate_hierarchy_groups n groups = Inr ()"
  shows "parse_ring_order n (show_order ring) = Inr ring \<and> parse_rail_order m (show_order rails) = Inr rails \<and>
    parse_hierarchy_groups n (show_groups groups) = Inr groups"
  using ring_order_roundtrip[OF assms(1,2)] rail_order_roundtrip[OF assms(3-5)] groups_roundtrip[OF assms(6,2)] by blast

theorem parse_orders_roundtrip_witness:
  "parse_ring_order 3 (show_order [0, 2, 1]) = Inr [0, 2, 1] \<and> parse_rail_order 2 (show_order [1, 0]) = Inr [1, 0] \<and>
   parse_hierarchy_groups 3 (show_groups [[1, 0], [2]]) = Inr [[1, 0], [2]]"
proof -
  have "validate_ring_order 3 [0, 2, 1] = Inr ()" by (auto simp: validate_ring_order_iff)
  moreover have "validate_rail_order 2 [1, 0] = Inr ()" by (auto simp: validate_rail_order_iff)
  moreover have "validate_hierarchy_groups 3 [[1, 0], [2]] = Inr ()" by (auto simp: validate_hierarchy_groups_iff)
  ultimately show ?thesis using parse_orders_roundtrip[of 3 "[0, 2, 1]" 2 "[1, 0]" "[[1, 0], [2]]"] by simp
qed

text \<open>A topology's links survive their textual form: the links listed by a topology whose metrics fit
  in 64 bits, printed in the syntax of \<open>GX1_TOPOLOGY_LINKS\<close>, are accepted by the parser, and every
  pair of ranks has the same link in the topology that is read.\<close>

theorem parse_topology_links_roundtrip:
  assumes "topology_ok t" "ct_world_size t \<le> 2 ^ 32"
    and "\<forall>a < ct_world_size t. \<forall>b < ct_world_size t. \<forall>l. link t a b = Some l \<longrightarrow> lc_bandwidth_mbps l < 2 ^ 64 \<and> lc_latency_ns l < 2 ^ 64"
  shows "\<exists>t'. parse_topology_links (ct_world_size t) (join_with CHR '','' (map show_link (topology_links t))) = Inr t' \<and>
    topology_ok t' \<and> ct_links t' = ct_links t"
proof -
  let ?n = "ct_world_size t"
  have "tl_first_rank l < 2 ^ 32 \<and> tl_second_rank l < 2 ^ 32 \<and> tl_bandwidth_mbps l < 2 ^ 64 \<and> tl_latency_ns l < 2 ^ 64"
    if l: "l \<in> set (topology_links t)" for l
  proof -
    from l obtain a b c where c: "(a, b) \<in> set (rank_pairs ?n)" "link t a b = Some c" "tl_first_rank l = a" "tl_second_rank l = b"
      "tl_bandwidth_mbps l = lc_bandwidth_mbps c" "tl_latency_ns l = lc_latency_ns c"
      by (auto simp: topology_links_def List.map_filter_def)
    then have ab: "b < ?n" "a < ?n" by (auto simp: in_rank_pairs)
    have "lc_bandwidth_mbps c < 2 ^ 64 \<and> lc_latency_ns c < 2 ^ 64" using assms(3) ab c(2) by blast
    moreover have "a < 2 ^ 32" "b < 2 ^ 32" using ab assms(2) order_less_le_trans by blast+
    ultimately show ?thesis unfolding c(3-6) by blast
  qed
  note P = parse_show_links[of "topology_links t" ?n, OF ballI[OF this]]
  obtain t0 where t0: "topology_empty ?n = Inr t0" using assms(1) by (simp add: topology_empty_def topology_ok_def)
  then have z: "ct_world_size t0 = ?n" "ct_links t0 = replicate ?n (replicate ?n None)" "topology_ok t0"
    using topology_empty_ok[OF t0] by (auto simp: topology_empty_def split: if_splits)
  have m: "matrix_ok (ct_world_size t0) (\<lambda>l. 0 < lc_bandwidth_mbps l) (ct_links t)"
    using assms(1) z by (simp add: topology_ok_def)
  have ps: "\<forall>(i, j) \<in> set (rank_pairs ?n). i < j \<and> j < ct_world_size t0" by (auto simp: in_rank_pairs z)
  have "fold_r add_link (topology_links t) t0 = Inr (t0\<lparr> ct_links := ct_links t \<rparr>)"
    using refill_links[OF m ps] refill_all[OF m] by (simp add: topology_links_def link_def z)
  moreover have "topology_ok (t0\<lparr> ct_links := ct_links t \<rparr>)" using z(3) m by (simp add: topology_ok_def)
  ultimately show ?thesis using P t0 by simp
qed

theorem parse_topology_links_roundtrip_witness:
  "\<exists>t'. parse_topology_links 3 (join_with CHR '','' (map show_link (topology_links sample_topology))) = Inr t' \<and>
     ct_links t' = ct_links sample_topology"
proof -
  have n: "ct_world_size sample_topology = 3" "topology_ok sample_topology"
    using sample_topology_built built_topology_ok by blast+
  have "lc_bandwidth_mbps l < 2 ^ 64 \<and> lc_latency_ns l < 2 ^ 64"
    if "a < 3" "b < 3" "link sample_topology a b = Some l" for a b l
  proof -
    have "a \<in> {0, 1, 2}" "b \<in> {0, 1, 2}" using that by auto
    then show ?thesis using that(3) by (auto simp: link_def mget_def sample_topology_eq Let_def)
  qed
  with parse_topology_links_roundtrip[OF n(2)] show ?thesis by (simp add: n(1)) blast
qed

end
