(* ===== verification/Planner.thy ===== *)
theory Planner
  imports Hierarchy Topology_Parse
begin

text \<open>
  The collective planner of \<^verbatim>\<open>src/rank/topology.rs\<close>: \<open>CollectiveTuning\<close> with its builders, the
  fingerprints that tie a recorded autotune profile to a configuration, the validation and lookup of
  profiles, the time estimates of the direct, ring, pairwise and hierarchical algorithms, and
  \<open>plan\<close>, which chooses among them.
\<close>

section \<open>Data\<close>

definition COLLECTIVE_AUTOTUNE_PROFILE_VERSION :: nat where "COLLECTIVE_AUTOTUNE_PROFILE_VERSION = 2"
definition COLLECTIVE_EXECUTION_REVISION :: nat where "COLLECTIVE_EXECUTION_REVISION = 6"

datatype algorithm_policy = PolicyAuto | PolicyDirect | PolicyRing | PolicyHierarchical

datatype collective_kind = KindAllReduce | KindAllGather | KindReduceScatter | KindAllToAll

datatype collective_algorithm = AlgDirect | AlgRing | AlgPairwise | AlgHierarchical

datatype collective_plan_source = SourcePolicy | SourceAutotune | SourceModel

record collective_plan =
  pl_algorithm :: collective_algorithm
  pl_source :: collective_plan_source
  pl_estimated_time_ns :: nat
  pl_direct_estimated_time_ns :: nat
  pl_peer_estimated_time_ns :: "nat option"
  pl_hierarchical_estimated_time_ns :: "nat option"
  pl_ring_channels :: nat

record collective_autotune_entry =
  ae_operation :: collective_kind
  ae_min_payload_bytes :: nat
  ae_max_payload_bytes :: nat
  ae_algorithm :: collective_algorithm
  ae_ring_channels :: nat
  ae_measured_time_ns :: nat

record collective_autotune_profile =
  ap_version :: nat
  ap_world_size :: nat
  ap_topology_fingerprint :: string
  ap_execution_fingerprint :: string
  ap_entries :: "collective_autotune_entry list"

record collective_tuning =
  tu_algorithm_policy :: algorithm_policy
  tu_ring_threshold_bytes :: nat
  tu_ring_order :: "nat list"
  tu_ring_orders :: "nat list list"
  tu_ring_channels :: nat
  tu_p2p_rails :: nat
  tu_rail_order_override :: "nat list option"
  tu_hierarchy_groups :: "nat list list option"
  tu_topology :: collective_topology
  tu_direct_bandwidth_mbps :: nat
  tu_direct_latency_ns :: nat
  tu_transport :: collective_transport
  tu_autotune_profile :: "collective_autotune_profile option"

section \<open>Rings and rails of a channel\<close>

definition ring_order_for_channel :: "collective_tuning \<Rightarrow> nat \<Rightarrow> nat list" where
  "ring_order_for_channel tu channel = tu_ring_orders tu ! (channel mod length (tu_ring_orders tu))"

definition rail_order :: "collective_tuning \<Rightarrow> nat list" where
  "rail_order tu =
     (case tu_rail_order_override tu of
        Some order \<Rightarrow> order
      | None \<Rightarrow> preferred_rail_order (tu_topology tu) (tu_p2p_rails tu))"

definition rail_for_channel :: "collective_tuning \<Rightarrow> nat \<Rightarrow> nat" where
  "rail_for_channel tu channel = (let order = rail_order tu in order ! (channel mod length order))"

section \<open>Fingerprints\<close>

definition fingerprint_u64 :: "nat \<Rightarrow> u64 \<Rightarrow> u64" where
  "fingerprint_u64 v hash = fnv_bytes (u64_le (of_nat v)) hash"

definition fingerprint_link :: "link_cost option \<Rightarrow> nat list" where
  "fingerprint_link l = (case l of Some c \<Rightarrow> [1, lc_bandwidth_mbps c, lc_latency_ns c] | None \<Rightarrow> [0])"

definition fingerprint_matrix :: "nat \<Rightarrow> (nat \<Rightarrow> nat \<Rightarrow> nat list) \<Rightarrow> nat list" where
  "fingerprint_matrix n entry = concat (map (\<lambda>(first, second). first # second # entry first second) (rank_pairs n))"

definition fingerprint_lists :: "nat list list \<Rightarrow> nat list" where
  "fingerprint_lists xss = concat (map (\<lambda>xs. length xs # xs) xss)"

text \<open>The values given to \<open>fingerprint_u64\<close>, in the order of the calls of \<open>topology_fingerprint\<close>.\<close>

definition topology_fingerprint_values :: "collective_tuning \<Rightarrow> nat list" where
  "topology_fingerprint_values tu =
     (let t = tu_topology tu; n = ct_world_size t; rails = rail_order tu in
      n # fingerprint_matrix n (\<lambda>first second. fingerprint_link (link t first second)) @
      (if ct_rail_links t \<noteq> []
       then 0x47585241494c4c4b # length (ct_rail_links t) #
            concat (map (\<lambda>(rail, m). rail # fingerprint_matrix n (\<lambda>first second. fingerprint_link (mget m first second)))
              (enumerate 0 (ct_rail_links t)))
       else []) @
      (if list_ex (list_ex (\<lambda>b. b \<noteq> None)) (ct_aggregate_links t)
       then 0x4758414747524547 # fingerprint_matrix n (\<lambda>first second.
              case aggregate_bandwidth_mbps t first second of Some b \<Rightarrow> [1, b] | None \<Rightarrow> [0])
       else []) @
      length (tu_ring_orders tu) # fingerprint_lists (tu_ring_orders tu) @
      (case tu_hierarchy_groups tu of
         Some groups \<Rightarrow> length groups # fingerprint_lists groups
       | None \<Rightarrow> [0]) @
      [tu_direct_bandwidth_mbps tu, tu_direct_latency_ns tu] @
      (if tu_p2p_rails tu \<noteq> 1 then [0x47585241494c0001, tu_p2p_rails tu] else []) @
      (if rails \<noteq> [0..<tu_p2p_rails tu] then 0x47585241494c4f52 # rails else []))"

definition topology_fingerprint :: "collective_tuning \<Rightarrow> u64" where
  "topology_fingerprint tu = fold fingerprint_u64 (topology_fingerprint_values tu) fnv_offset"

definition topology_fingerprint_hex :: "collective_tuning \<Rightarrow> string" where
  "topology_fingerprint_hex tu = hex16 (topology_fingerprint tu)"

definition transport_code :: "collective_transport \<Rightarrow> nat" where
  "transport_code transport =
     (case transport of HostStaged \<Rightarrow> 1 | TcpHostStaged \<Rightarrow> 2 | TcpPeer \<Rightarrow> 3 | PciePeer \<Rightarrow> 4 | Rdma \<Rightarrow> 5 | GxLink \<Rightarrow> 6)"

definition execution_fingerprint :: "collective_tuning \<Rightarrow> u64" where
  "execution_fingerprint tu =
     fold fingerprint_u64 [COLLECTIVE_EXECUTION_REVISION, transport_code (tu_transport tu)] fnv_offset"

definition execution_fingerprint_hex :: "collective_tuning \<Rightarrow> string" where
  "execution_fingerprint_hex tu = hex16 (execution_fingerprint tu)"

section \<open>Profiles\<close>

definition kind_debug :: "collective_kind \<Rightarrow> string" where
  "kind_debug kind =
     (case kind of KindAllReduce \<Rightarrow> ''AllReduce'' | KindAllGather \<Rightarrow> ''AllGather''
      | KindReduceScatter \<Rightarrow> ''ReduceScatter'' | KindAllToAll \<Rightarrow> ''AllToAll'')"

definition algorithm_debug :: "collective_algorithm \<Rightarrow> string" where
  "algorithm_debug a =
     (case a of AlgDirect \<Rightarrow> ''Direct'' | AlgRing \<Rightarrow> ''Ring'' | AlgPairwise \<Rightarrow> ''Pairwise'' | AlgHierarchical \<Rightarrow> ''Hierarchical'')"

definition transport_debug :: "collective_transport \<Rightarrow> string" where
  "transport_debug t =
     (case t of HostStaged \<Rightarrow> ''HostStaged'' | TcpHostStaged \<Rightarrow> ''TcpHostStaged'' | TcpPeer \<Rightarrow> ''TcpPeer''
      | PciePeer \<Rightarrow> ''PciePeer'' | Rdma \<Rightarrow> ''Rdma'' | GxLink \<Rightarrow> ''GxLink'')"

abbreviation invalid_profile :: "string \<Rightarrow> msg_arg list \<Rightarrow> topology_error" where
  "invalid_profile t args \<equiv> InvalidProfile (Msg t args)"

text \<open>\<open>strip_prefix("0x").unwrap_or(..).to_ascii_lowercase()\<close>.\<close>

definition normal_fingerprint :: "string \<Rightarrow> string" where
  "normal_fingerprint s = to_ascii_lowercase (if take 2 s = ''0x'' then drop 2 s else s)"

definition valid_algorithm :: "collective_kind \<Rightarrow> collective_algorithm \<Rightarrow> bool" where
  "valid_algorithm kind a =
     (case kind of
        KindAllToAll \<Rightarrow> a = AlgDirect \<or> a = AlgPairwise
      | _ \<Rightarrow> a = AlgDirect \<or> a = AlgRing \<or> a = AlgHierarchical)"

definition entry_range :: "collective_autotune_entry \<Rightarrow> msg_arg list" where
  "entry_range e = [AStr (kind_debug (ae_operation e)), ANat (ae_min_payload_bytes e), ANat (ae_max_payload_bytes e)]"

definition validate_autotune_entry :: "collective_tuning \<Rightarrow> collective_autotune_entry \<Rightarrow> topology_error + unit" where
  "validate_autotune_entry tu e =
     (if ae_min_payload_bytes e > ae_max_payload_bytes e
      then Inl (invalid_profile ''{:?} range {}..={} is reversed'' (entry_range e))
      else if ae_measured_time_ns e = 0
      then Inl (invalid_profile ''{:?} range {}..={} has zero measured time'' (entry_range e))
      else bind_r (map_err (\<lambda>_. invalid_profile ''{:?} range {}..={} has invalid ring channel count {}''
                     (entry_range e @ [ANat (ae_ring_channels e)])) (validate_ring_channels (ae_ring_channels e))) (\<lambda>_.
        if \<not> valid_algorithm (ae_operation e) (ae_algorithm e)
        then Inl (invalid_profile ''algorithm {:?} cannot execute {:?}''
               [AStr (algorithm_debug (ae_algorithm e)), AStr (kind_debug (ae_operation e))])
        else if ae_algorithm e = AlgHierarchical \<and> tu_hierarchy_groups tu = None
        then Inl (invalid_profile ''hierarchical measurement requires configured topology groups'' [])
        else Inr ()))"

text \<open>\<open>ranges.windows(2)\<close> of the sorted ranges of one kind.\<close>

fun check_overlap :: "collective_kind \<Rightarrow> (nat \<times> nat) list \<Rightarrow> topology_error + unit" where
  "check_overlap kind (a # b # rest) =
     (if fst b \<le> snd a
      then Inl (invalid_profile ''{kind:?} ranges {}..={} and {}..={} overlap''
             [AStr (kind_debug kind), ANat (fst a), ANat (snd a), ANat (fst b), ANat (snd b)])
      else check_overlap kind (b # rest))"
| "check_overlap kind _ = Inr ()"

definition kind_ranges :: "collective_autotune_profile \<Rightarrow> collective_kind \<Rightarrow> (nat \<times> nat) list" where
  "kind_ranges profile kind =
     sort (map (\<lambda>e. (ae_min_payload_bytes e, ae_max_payload_bytes e))
       (filter (\<lambda>e. ae_operation e = kind) (ap_entries profile)))"

definition detected_matches ::
  "collective_tuning \<Rightarrow> string \<Rightarrow> nat \<Rightarrow> string option \<Rightarrow> string option \<Rightarrow> string option \<Rightarrow> bool \<Rightarrow> topology_error + bool" where
  "detected_matches tu fingerprint world_size links rail_links aggregate_links allowed =
     (case links of
        Some encoded \<Rightarrow>
          if allowed then
            bind_r (parse_topology_links world_size encoded) (\<lambda>detected.
            bind_r (case rail_links of Some e \<Rightarrow> parse_topology_rail_links e (tu_p2p_rails tu) detected | None \<Rightarrow> Inr detected) (\<lambda>detected.
            bind_r (case aggregate_links of Some e \<Rightarrow> parse_topology_aggregate_links e detected | None \<Rightarrow> Inr detected) (\<lambda>detected.
              let pinned = tu\<lparr> tu_topology := detected, tu_autotune_profile := None \<rparr>
              in Inr (probed_topology_matches (tu_topology tu) detected \<and> rail_order tu = rail_order pinned \<and>
                      topology_fingerprint_hex pinned = fingerprint))))
          else Inr False
      | None \<Rightarrow> Inr False)"

definition validate_autotune_profile_with_detected ::
  "collective_tuning \<Rightarrow> collective_autotune_profile \<Rightarrow> string option \<Rightarrow> string option \<Rightarrow> string option \<Rightarrow> bool
     \<Rightarrow> topology_error + unit" where
  "validate_autotune_profile_with_detected tu profile links rail_links aggregate_links allowed =
     (if ap_version profile \<noteq> COLLECTIVE_AUTOTUNE_PROFILE_VERSION
      then Inl (invalid_profile ''unsupported version {}, expected {COLLECTIVE_AUTOTUNE_PROFILE_VERSION}'' [ANat (ap_version profile)])
      else let world_size = length (tu_ring_order tu) in
      if ap_world_size profile \<noteq> world_size
      then Inl (invalid_profile ''world size {} does not match configured world size {world_size}''
             [ANat (ap_world_size profile), ANat world_size])
      else let fingerprint = normal_fingerprint (ap_topology_fingerprint profile); expected = topology_fingerprint_hex tu in
      bind_r (if fingerprint \<noteq> expected
              then bind_r (detected_matches tu fingerprint world_size links rail_links aggregate_links allowed) (\<lambda>ok.
                     if ok then Inr ()
                     else Inl (invalid_profile ''topology fingerprint {fingerprint:?} does not match {expected:?}''
                            [AStr fingerprint, AStr expected]))
              else Inr ()) (\<lambda>_.
      let execution = normal_fingerprint (ap_execution_fingerprint profile); expected_execution = execution_fingerprint_hex tu in
      if execution \<noteq> expected_execution
      then Inl (invalid_profile
             ''execution fingerprint {execution_fingerprint:?} does not match {expected_execution:?} for transport {:?}''
             [AStr execution, AStr expected_execution, AStr (transport_debug (tu_transport tu))])
      else if ap_entries profile = [] then Inl (invalid_profile ''profile contains no measurements'' [])
      else bind_r (traverse_r (validate_autotune_entry tu) (ap_entries profile)) (\<lambda>_.
           bind_r (traverse_r (\<lambda>kind. check_overlap kind (kind_ranges profile kind))
             [KindAllReduce, KindAllGather, KindReduceScatter, KindAllToAll]) (\<lambda>_. Inr ()))))"

definition validate_autotune_profile :: "collective_tuning \<Rightarrow> collective_autotune_profile \<Rightarrow> topology_error + unit" where
  "validate_autotune_profile tu profile = validate_autotune_profile_with_detected tu profile None None None False"

definition autotune_entry :: "collective_tuning \<Rightarrow> collective_kind \<Rightarrow> nat \<Rightarrow> collective_autotune_entry option" where
  "autotune_entry tu kind payload_bytes =
     (let payload_bytes = min payload_bytes u64_max in
      case tu_autotune_profile tu of
        None \<Rightarrow> None
      | Some profile \<Rightarrow> List.find (\<lambda>e. ae_operation e = kind \<and> payload_bytes \<ge> ae_min_payload_bytes e \<and>
            payload_bytes \<le> ae_max_payload_bytes e) (ap_entries profile))"

section \<open>Time estimates\<close>

definition direct_estimated_time_ns :: "collective_tuning \<Rightarrow> collective_kind \<Rightarrow> nat \<Rightarrow> nat" where
  "direct_estimated_time_ns tu kind payload_bytes =
     (let ranks = length (tu_ring_order tu) in
      if ranks \<le> 1 then 0
      else
        let response = (case kind of
              KindAllReduce \<Rightarrow> payload_bytes
            | KindAllToAll \<Rightarrow> payload_bytes
            | KindAllGather \<Rightarrow> saturating_mul 128 payload_bytes ranks
            | KindReduceScatter \<Rightarrow> div_ceil payload_bytes ranks);
            aggregate_bytes = saturating_mul 128 ranks (saturating_add 128 payload_bytes response);
            transfer_ns = transfer_time_ns_u128 aggregate_bytes (tu_direct_bandwidth_mbps tu);
            latency_ns = saturating_mul 128 (saturating_mul 128 (tu_direct_latency_ns tu) 2) ranks
        in saturating_u64 (saturating_add 128 transfer_ns latency_ns))"

text \<open>\<open>iter().max()\<close> of a list of times: \<open>None\<close> when it is empty.\<close>

definition max_time :: "nat list \<Rightarrow> nat option" where
  "max_time xs = (case xs of [] \<Rightarrow> None | x # rest \<Rightarrow> Some (fold max rest x))"

definition max_time_or_zero :: "nat list \<Rightarrow> nat" where
  "max_time_or_zero xs = (case max_time xs of Some m \<Rightarrow> m | None \<Rightarrow> 0)"

definition ring_step_time_ns_on_rail :: "collective_topology \<Rightarrow> nat list \<Rightarrow> nat \<Rightarrow> nat \<Rightarrow> nat option" where
  "ring_step_time_ns_on_rail t order payload rail =
     (case traverse_o (\<lambda>(first, second). map_option (\<lambda>l. link_transfer_time_ns l payload) (link_on_rail t first second rail))
             (ring_hops order) of
        None \<Rightarrow> None
      | Some durations \<Rightarrow> max_time durations)"

definition add_bytes :: "nat \<times> nat \<Rightarrow> nat \<Rightarrow> nat matrix \<Rightarrow> nat matrix" where
  "add_bytes hop n m =
     mset_at m (fst hop) (snd hop) (saturating_add 64 (mget m (fst hop) (snd hop)) n)"

definition add_rail_time :: "nat \<Rightarrow> nat \<Rightarrow> nat list \<Rightarrow> nat list" where
  "add_rail_time slot time rail_times = rail_times[slot := saturating_add 64 (rail_times ! slot) time]"

text \<open>The slowest of several transfers over one rail, with the bytes of each pair accumulated.\<close>

definition slowest_transfer ::
  "collective_topology \<Rightarrow> nat \<Rightarrow> ((nat \<times> nat) \<times> nat) list \<Rightarrow> nat matrix \<Rightarrow> (nat matrix \<times> nat) option" where
  "slowest_transfer t rail transfers aggregate_bytes =
     fold_o (\<lambda>((source, destination), bytes) (aggregate_bytes, slowest).
         map_option (\<lambda>time. (add_bytes (source, destination) bytes aggregate_bytes, max slowest time))
           (shortest_transfer_time_ns_on_rail t source destination bytes rail))
       transfers (aggregate_bytes, 0)"

definition step_time :: "collective_topology \<Rightarrow> nat \<Rightarrow> nat list \<Rightarrow> nat matrix \<Rightarrow> nat" where
  "step_time t rails rail_times aggregate_bytes =
     (let rail_time = max_time_or_zero rail_times;
          aggregate_time = (if rails > 1 then aggregate_transfer_cap_ns t aggregate_bytes else 0)
      in max rail_time aggregate_time)"

definition zero_matrix :: "nat \<Rightarrow> nat matrix" where
  "zero_matrix n = replicate n (replicate n 0)"

definition pairwise_step ::
  "collective_topology \<Rightarrow> nat list \<Rightarrow> nat list \<Rightarrow> nat list \<Rightarrow> nat \<Rightarrow> nat \<Rightarrow> nat option" where
  "pairwise_step t order channel_bytes rails_order rails step =
     map_option (\<lambda>(rail_times, aggregate_bytes). step_time t rails rail_times aggregate_bytes)
       (fold_o (\<lambda>(channel, bytes) (rail_times, aggregate_bytes).
           let rail_slot = channel mod rails;
               transfers = map (\<lambda>position. ((order ! position, order ! ((position + step) mod length order)), bytes))
                 [0..<length order]
           in map_option (\<lambda>(aggregate_bytes, slowest). (add_rail_time rail_slot slowest rail_times, aggregate_bytes))
                (slowest_transfer t (rails_order ! rail_slot) transfers aggregate_bytes))
         (enumerate 0 channel_bytes) (replicate rails 0, zero_matrix (ct_world_size t)))"

definition pairwise_time_ns :: "collective_topology \<Rightarrow> nat list \<Rightarrow> nat \<Rightarrow> nat \<Rightarrow> nat list \<Rightarrow> nat option" where
  "pairwise_time_ns t order bytes_per_peer channel_count rails_order =
     (if length order \<le> 1 then Some 0
      else if rails_order = [] then None
      else
        let channels = max (min channel_count (max bytes_per_peer 1)) 1;
            rails = max (min (length rails_order) channels) 1;
            channel_bytes = balanced_sizes bytes_per_peer channels
        in fold_o (\<lambda>step tot. map_option (\<lambda>time. saturating_add 64 tot time)
             (pairwise_step t order channel_bytes rails_order rails step)) [1..<length order] 0)"

definition striped_ring_step_time_ns :: "collective_tuning \<Rightarrow> nat list \<Rightarrow> nat list \<Rightarrow> nat option" where
  "striped_ring_step_time_ns tu order bytes_by_position =
     (if length order \<noteq> length bytes_by_position then None
      else
        let maximum_bytes = max_time_or_zero bytes_by_position;
            channels = max (min (tu_ring_channels tu) (max maximum_bytes 1)) 1;
            rails_order = rail_order tu;
            rails = max (min (length rails_order) channels) 1;
            splits = map (\<lambda>bytes. balanced_sizes bytes channels) bytes_by_position;
            split_by_channel = map (\<lambda>channel. map (\<lambda>position. position ! channel) splits) [0..<channels]
        in map_option (\<lambda>(rail_times, aggregate_bytes). step_time (tu_topology tu) rails rail_times aggregate_bytes)
             (fold_o (\<lambda>(channel, channel_bytes) (rail_times, aggregate_bytes).
                 let rail_slot = channel mod rails
                 in map_option (\<lambda>(aggregate_bytes, slowest). (add_rail_time rail_slot slowest rail_times, aggregate_bytes))
                      (slowest_transfer (tu_topology tu) (rails_order ! rail_slot)
                         (zip (ring_hops order) channel_bytes) aggregate_bytes))
               (enumerate 0 split_by_channel) (replicate rails 0, zero_matrix (length (tu_ring_order tu)))))"

definition multi_ring_step_time_ns :: "collective_tuning \<Rightarrow> nat \<Rightarrow> nat option" where
  "multi_ring_step_time_ns tu bytes =
     (let channels = max (min (tu_ring_channels tu) (max bytes 1)) 1;
          rails_order = rail_order tu;
          rails = max (min (length rails_order) channels) 1;
          base = bytes div channels; remainder = bytes mod channels
      in map_option (\<lambda>(rail_times, aggregate_bytes). step_time (tu_topology tu) rails rail_times aggregate_bytes)
           (fold_o (\<lambda>channel (rail_times, aggregate_bytes).
               let channel_bytes = base + (if channel < remainder then 1 else 0);
                   rail_slot = channel mod rails;
                   order = ring_order_for_channel tu channel;
                   aggregate_bytes = fold (\<lambda>hop. add_bytes hop channel_bytes) (ring_hops order) aggregate_bytes
               in map_option (\<lambda>step. (add_rail_time rail_slot step rail_times, aggregate_bytes))
                    (ring_step_time_ns_on_rail (tu_topology tu) order channel_bytes (rails_order ! rail_slot)))
             [0..<channels] (replicate rails 0, zero_matrix (length (tu_ring_order tu)))))"

definition peer_estimated_time_ns :: "collective_tuning \<Rightarrow> collective_kind \<Rightarrow> nat \<Rightarrow> nat option" where
  "peer_estimated_time_ns tu kind payload_bytes =
     (let ranks = length (tu_ring_order tu) in
      if ranks \<le> 1 then Some 0
      else
        let rails_order = rail_order tu; chunk_bytes = div_ceil payload_bytes ranks in
        case kind of
          KindAllReduce \<Rightarrow> map_option (\<lambda>step. saturating_mul 64 step (2 * (ranks - 1))) (multi_ring_step_time_ns tu chunk_bytes)
        | KindAllGather \<Rightarrow> map_option (\<lambda>step. saturating_mul 64 step (ranks - 1)) (multi_ring_step_time_ns tu payload_bytes)
        | KindReduceScatter \<Rightarrow> map_option (\<lambda>step. saturating_mul 64 step (ranks - 1)) (multi_ring_step_time_ns tu chunk_bytes)
        | KindAllToAll \<Rightarrow> pairwise_time_ns (tu_topology tu) (tu_ring_order tu) chunk_bytes (tu_ring_channels tu) rails_order)"

text \<open>The sum of the transfers between a leader and its group, the slowest group deciding.\<close>

definition local_phase :: "(nat \<Rightarrow> nat \<Rightarrow> nat option) \<Rightarrow> nat list list \<Rightarrow> nat option" where
  "local_phase cost groups =
     map_option max_time_or_zero (traverse_o (\<lambda>members.
       fold_o (\<lambda>rank tot. map_option (\<lambda>c. saturating_add 64 tot c) (cost (members ! 0) rank)) (tl members) 0) groups)"

definition inter_phase ::
  "collective_tuning \<Rightarrow> nat list list \<Rightarrow> nat list \<Rightarrow> (nat \<Rightarrow> nat \<Rightarrow> nat) \<Rightarrow> nat \<Rightarrow> nat option" where
  "inter_phase tu groups leaders group_index unit_bytes =
     (let leader_count = length leaders in
      fold_o (\<lambda>step tot.
          let bytes = map (\<lambda>position. saturating_mul 64 (length (groups ! group_index step position)) unit_bytes) [0..<leader_count]
          in map_option (\<lambda>time. saturating_add 64 tot time) (striped_ring_step_time_ns tu leaders bytes))
        [0..<leader_count - 1] 0)"

definition hierarchical_estimated_time_ns :: "collective_tuning \<Rightarrow> collective_kind \<Rightarrow> nat \<Rightarrow> nat option" where
  "hierarchical_estimated_time_ns tu kind payload_bytes =
     (case tu_hierarchy_groups tu of
        None \<Rightarrow> None
      | Some groups \<Rightarrow>
          if kind = KindAllToAll then None
          else
            let t = tu_topology tu; world_size = length (tu_ring_order tu);
                leaders = map (\<lambda>members. members ! 0) groups; leader_count = length leaders;
                shard_bytes = div_ceil payload_bytes world_size;
                distribute_bytes = (case kind of
                    KindAllGather \<Rightarrow> saturating_mul 64 payload_bytes world_size
                  | KindReduceScatter \<Rightarrow> shard_bytes
                  | _ \<Rightarrow> payload_bytes)
            in (case local_phase (\<lambda>leader rank. shortest_transfer_time_ns t rank leader payload_bytes) groups of
                  None \<Rightarrow> None
                | Some local_gather \<Rightarrow>
                    (case (case kind of
                             KindReduceScatter \<Rightarrow> inter_phase tu groups leaders
                               (\<lambda>step position. (position + leader_count - 1 - step) mod leader_count) shard_bytes
                           | KindAllGather \<Rightarrow> inter_phase tu groups leaders
                               (\<lambda>step position. (position + leader_count - step) mod leader_count) payload_bytes
                           | _ \<Rightarrow> map_option (\<lambda>step. saturating_mul 64 step (2 * (leader_count - 1)))
                               (striped_ring_step_time_ns tu leaders (replicate leader_count (div_ceil payload_bytes leader_count)))) of
                       None \<Rightarrow> None
                     | Some inter_collective \<Rightarrow>
                         map_option (\<lambda>local_distribute.
                             saturating_add 64 (saturating_add 64 local_gather inter_collective) local_distribute)
                           (local_phase (\<lambda>leader rank. shortest_transfer_time_ns t leader rank distribute_bytes) groups))))"

section \<open>Plans\<close>

text \<open>The model's choice: the direct algorithm unless another estimate is strictly smaller.\<close>

definition model_choice ::
  "collective_kind \<Rightarrow> collective_algorithm \<Rightarrow> nat \<Rightarrow> nat option \<Rightarrow> nat option \<Rightarrow> collective_algorithm" where
  "model_choice kind peer_algorithm direct peer hierarchical =
     (let best = (AlgDirect, direct);
          best = (case peer of Some e \<Rightarrow> if e < snd best then (peer_algorithm, e) else best | None \<Rightarrow> best);
          best = (if kind \<noteq> KindAllToAll
                  then (case hierarchical of Some e \<Rightarrow> if e < snd best then (AlgHierarchical, e) else best | None \<Rightarrow> best)
                  else best)
      in fst best)"

definition plan :: "collective_tuning \<Rightarrow> collective_kind \<Rightarrow> nat \<Rightarrow> collective_plan" where
  "plan tu kind payload_bytes =
     (let direct = direct_estimated_time_ns tu kind payload_bytes;
          peer_algorithm = (if kind = KindAllToAll then AlgPairwise else AlgRing);
          peer = peer_estimated_time_ns tu kind payload_bytes;
          hierarchical = hierarchical_estimated_time_ns tu kind payload_bytes;
          (algorithm, source, measured, ring_channels) =
            (if length (tu_ring_order tu) \<le> 1
             then (AlgDirect, (if tu_algorithm_policy tu = PolicyAuto then SourceModel else SourcePolicy), None, tu_ring_channels tu)
             else (case tu_algorithm_policy tu of
                 PolicyDirect \<Rightarrow> (AlgDirect, SourcePolicy, None, tu_ring_channels tu)
               | PolicyRing \<Rightarrow> (peer_algorithm, SourcePolicy, None, tu_ring_channels tu)
               | PolicyHierarchical \<Rightarrow>
                   ((if kind = KindAllToAll then peer_algorithm
                     else if hierarchical \<noteq> None then AlgHierarchical else peer_algorithm), SourcePolicy, None, tu_ring_channels tu)
               | PolicyAuto \<Rightarrow>
                   (case autotune_entry tu kind payload_bytes of
                      Some e \<Rightarrow> (ae_algorithm e, SourceAutotune, Some (ae_measured_time_ns e), ae_ring_channels e)
                    | None \<Rightarrow>
                        if payload_bytes < tu_ring_threshold_bytes tu then (AlgDirect, SourceModel, None, tu_ring_channels tu)
                        else (model_choice kind peer_algorithm direct peer hierarchical, SourceModel, None, tu_ring_channels tu))));
          estimated = (case measured of
              Some m \<Rightarrow> m
            | None \<Rightarrow> (case algorithm of
                AlgDirect \<Rightarrow> direct
              | AlgRing \<Rightarrow> (case peer of Some e \<Rightarrow> e | None \<Rightarrow> u64_max)
              | AlgPairwise \<Rightarrow> (case peer of Some e \<Rightarrow> e | None \<Rightarrow> u64_max)
              | AlgHierarchical \<Rightarrow> (case hierarchical of Some e \<Rightarrow> e | None \<Rightarrow> u64_max)))
      in \<lparr> pl_algorithm = algorithm, pl_source = source, pl_estimated_time_ns = estimated,
           pl_direct_estimated_time_ns = direct, pl_peer_estimated_time_ns = peer,
           pl_hierarchical_estimated_time_ns = hierarchical, pl_ring_channels = ring_channels \<rparr>)"

section \<open>Builders\<close>

definition from_topology ::
  "algorithm_policy \<Rightarrow> nat \<Rightarrow> collective_topology \<Rightarrow> nat list option \<Rightarrow> topology_error + collective_tuning" where
  "from_topology policy ring_threshold_bytes t ring_order =
     bind_r (case ring_order of Some order \<Rightarrow> Inr order | None \<Rightarrow> best_ring_order t) (\<lambda>order.
     bind_r (validate_ring_order (ct_world_size t) order) (\<lambda>_.
       Inr \<lparr> tu_algorithm_policy = policy, tu_ring_threshold_bytes = ring_threshold_bytes, tu_ring_order = order,
             tu_ring_orders = ring_orders_with_primary t order, tu_ring_channels = 1, tu_p2p_rails = 1,
             tu_rail_order_override = None, tu_hierarchy_groups = None, tu_topology = t,
             tu_direct_bandwidth_mbps = DEFAULT_BANDWIDTH_MBPS, tu_direct_latency_ns = DEFAULT_LATENCY_NS,
             tu_transport = TcpHostStaged, tu_autotune_profile = None \<rparr>))"

definition tuning_new :: "algorithm_policy \<Rightarrow> nat \<Rightarrow> nat list \<Rightarrow> topology_error + collective_tuning" where
  "tuning_new policy ring_threshold_bytes order =
     bind_r (if length order \<le> u32_max then Inr (length order) else Inl (InvalidRing (Msg ''ring is too large'' []))) (\<lambda>world_size.
     bind_r (topology_uniform world_size) (\<lambda>t.
       from_topology policy ring_threshold_bytes t (Some order)))"

text \<open>The end of every builder: a profile that is already installed must still fit.\<close>

definition recheck_profile :: "collective_tuning \<Rightarrow> topology_error + collective_tuning" where
  "recheck_profile tu =
     (case tu_autotune_profile tu of
        None \<Rightarrow> Inr tu
      | Some profile \<Rightarrow> bind_r (validate_autotune_profile tu profile) (\<lambda>_. Inr tu))"

definition with_direct_transport :: "nat \<Rightarrow> nat \<Rightarrow> collective_tuning \<Rightarrow> topology_error + collective_tuning" where
  "with_direct_transport bandwidth_mbps latency_ns tu =
     (if bandwidth_mbps = 0 then Inl ZeroDirectBandwidth
      else recheck_profile (tu\<lparr> tu_direct_bandwidth_mbps := bandwidth_mbps, tu_direct_latency_ns := latency_ns \<rparr>))"

definition with_transport :: "collective_transport \<Rightarrow> collective_tuning \<Rightarrow> topology_error + collective_tuning" where
  "with_transport transport tu = recheck_profile (tu\<lparr> tu_transport := transport \<rparr>)"

definition with_hierarchy :: "nat list list \<Rightarrow> collective_tuning \<Rightarrow> topology_error + collective_tuning" where
  "with_hierarchy groups tu =
     bind_r (validate_hierarchy_groups (ct_world_size (tu_topology tu)) groups) (\<lambda>_.
       recheck_profile (tu\<lparr> tu_hierarchy_groups := Some groups \<rparr>))"

text \<open>The total estimate of the three reductions for one grouping.\<close>

definition hierarchy_score :: "collective_tuning \<Rightarrow> nat \<Rightarrow> nat list list \<Rightarrow> nat option" where
  "hierarchy_score tu payload_bytes groups =
     fold_o (\<lambda>kind tot. map_option (\<lambda>e. saturating_add 128 tot e)
         (hierarchical_estimated_time_ns (tu\<lparr> tu_hierarchy_groups := Some groups \<rparr>) kind payload_bytes))
       [KindAllReduce, KindAllGather, KindReduceScatter] 0"

definition better_hierarchy ::
  "collective_tuning \<Rightarrow> nat \<Rightarrow> nat list list \<Rightarrow> (nat \<times> nat list list) option \<Rightarrow> (nat \<times> nat list list) option" where
  "better_hierarchy tu payload_bytes groups best =
     (case hierarchy_score tu payload_bytes groups of
        None \<Rightarrow> best
      | Some score \<Rightarrow>
          (case best of
             None \<Rightarrow> Some (score, groups)
           | Some (best_score, best_groups) \<Rightarrow>
               if score < best_score \<or> score = best_score \<and> groups < best_groups then Some (score, groups) else best))"

definition with_inferred_hierarchy :: "nat \<Rightarrow> collective_tuning \<Rightarrow> topology_error + collective_tuning" where
  "with_inferred_hierarchy payload_bytes tu =
     (if payload_bytes = 0
      then Inl (InvalidHierarchy (Msg ''automatic grouping payload must be greater than zero'' []))
      else (case fold (better_hierarchy tu payload_bytes) (hierarchy_candidates (tu_topology tu) payload_bytes) None of
              None \<Rightarrow> Inl (InvalidHierarchy (Msg ''automatic grouping found no distinct fast-link domains'' []))
            | Some (_, groups) \<Rightarrow> recheck_profile (tu\<lparr> tu_hierarchy_groups := Some groups \<rparr>)))"

definition with_ring_channels :: "nat \<Rightarrow> collective_tuning \<Rightarrow> topology_error + collective_tuning" where
  "with_ring_channels channels tu =
     bind_r (validate_ring_channels channels) (\<lambda>_. recheck_profile (tu\<lparr> tu_ring_channels := channels \<rparr>))"

definition with_p2p_rails :: "nat \<Rightarrow> collective_tuning \<Rightarrow> topology_error + collective_tuning" where
  "with_p2p_rails rails tu =
     bind_r (validate_p2p_rails rails) (\<lambda>_.
     bind_r (case tu_rail_order_override tu of Some order \<Rightarrow> validate_rail_order rails order | None \<Rightarrow> Inr ()) (\<lambda>_.
       recheck_profile (tu\<lparr> tu_p2p_rails := rails \<rparr>)))"

definition with_rail_order :: "nat list \<Rightarrow> collective_tuning \<Rightarrow> topology_error + collective_tuning" where
  "with_rail_order order tu =
     bind_r (validate_rail_order (tu_p2p_rails tu) order) (\<lambda>_.
       recheck_profile (tu\<lparr> tu_rail_order_override := Some order \<rparr>))"

definition with_autotune_profile :: "collective_autotune_profile \<Rightarrow> collective_tuning \<Rightarrow> topology_error + collective_tuning" where
  "with_autotune_profile profile tu =
     bind_r (validate_autotune_profile tu profile) (\<lambda>_. Inr (tu\<lparr> tu_autotune_profile := Some profile \<rparr>))"

section \<open>Invariant of a tuning\<close>

text \<open>A profile is installed only after one of the two validations; a profile read from a file may have been
  accepted through the links recorded in that file.\<close>

definition profile_accepted :: "collective_tuning \<Rightarrow> collective_autotune_profile \<Rightarrow> bool" where
  "profile_accepted tu profile \<longleftrightarrow>
     (\<exists>links rail_links aggregate_links allowed.
        validate_autotune_profile_with_detected tu profile links rail_links aggregate_links allowed = Inr ())"

definition tuning_ok :: "collective_tuning \<Rightarrow> bool" where
  "tuning_ok tu \<longleftrightarrow>
     (let t = tu_topology tu; n = ct_world_size t in
      topology_ok t \<and> validate_ring_order n (tu_ring_order tu) = Inr () \<and>
      tu_ring_orders tu \<noteq> [] \<and> hd (tu_ring_orders tu) = tu_ring_order tu \<and>
      (\<forall>order \<in> set (tu_ring_orders tu). validate_ring_order n order = Inr ()) \<and>
      validate_ring_channels (tu_ring_channels tu) = Inr () \<and>
      validate_p2p_rails (tu_p2p_rails tu) = Inr () \<and>
      (\<forall>order. tu_rail_order_override tu = Some order \<longrightarrow> validate_rail_order (tu_p2p_rails tu) order = Inr ()) \<and>
      (\<forall>groups. tu_hierarchy_groups tu = Some groups \<longrightarrow> validate_hierarchy_groups n groups = Inr ()) \<and>
      0 < tu_direct_bandwidth_mbps tu \<and>
      (\<forall>profile. tu_autotune_profile tu = Some profile \<longrightarrow> profile_accepted tu profile))"

text \<open>The fields the invariant reads, apart from the profile.\<close>

definition tuning_base :: "collective_tuning \<Rightarrow> bool" where
  "tuning_base tu \<longleftrightarrow> tuning_ok (tu\<lparr> tu_autotune_profile := None \<rparr>)"

lemma recheck_profile_ok:
  assumes "tuning_base tu" "recheck_profile tu = Inr tu'"
  shows "tu' = tu \<and> tuning_ok tu"
  using assms
  by (auto simp: recheck_profile_def tuning_base_def tuning_ok_def Let_def bind_r_eq_Inr profile_accepted_def
      validate_autotune_profile_def split: option.splits)

lemma tuning_ok_base: "tuning_ok tu \<Longrightarrow> tuning_base tu"
  by (simp add: tuning_base_def tuning_ok_def Let_def)

text \<open>What every builder leaves of the tuning.\<close>

lemma ring_orders_ok:
  assumes "topology_ok t" "validate_ring_order (ct_world_size t) order = Inr ()"
  shows "ring_orders_with_primary t order \<noteq> [] \<and> hd (ring_orders_with_primary t order) = order \<and>
    (\<forall>o' \<in> set (ring_orders_with_primary t order). validate_ring_order (ct_world_size t) o' = Inr ())"
proof (cases "1 < ct_world_size t")
  case True
  have "validate_ring_order (ct_world_size t) o' = Inr ()" if "closed_ring t o'" for o'
    using that True unfolding validate_ring_order_iff closed_ring_def by simp
  then show ?thesis using ring_orders_with_primary_spec[OF assms(1) True, of order] assms(2) by metis
next
  case False
  then have n: "ct_world_size t = 1" using assms(2) unfolding validate_ring_order_iff by simp
  have "validate_ring_order 1 [0] = Inr ()" unfolding validate_ring_order_iff by auto
  then show ?thesis
    using assms(2) by (auto simp: ring_orders_with_primary_def best_ring_orders_def n MAX_RING_CHANNELS_def Let_def)
qed

lemma from_topology_ok:
  assumes "topology_ok t" "from_topology policy threshold t ring = Inr tu"
  shows "tuning_ok tu \<and> tu_topology tu = t"
proof -
  from assms(2) obtain order where o: "validate_ring_order (ct_world_size t) order = Inr ()"
    and tu: "tu = \<lparr> tu_algorithm_policy = policy, tu_ring_threshold_bytes = threshold, tu_ring_order = order,
             tu_ring_orders = ring_orders_with_primary t order, tu_ring_channels = 1, tu_p2p_rails = 1,
             tu_rail_order_override = None, tu_hierarchy_groups = None, tu_topology = t,
             tu_direct_bandwidth_mbps = DEFAULT_BANDWIDTH_MBPS, tu_direct_latency_ns = DEFAULT_LATENCY_NS,
             tu_transport = TcpHostStaged, tu_autotune_profile = None \<rparr>"
    by (auto simp: from_topology_def bind_r_eq_Inr)
  show ?thesis using ring_orders_ok[OF assms(1) o] assms(1) o
    by (simp add: tu tuning_ok_def Let_def validate_ring_channels_def validate_p2p_rails_def MAX_RING_CHANNELS_def
        MAX_P2P_RAILS_def DEFAULT_BANDWIDTH_MBPS_def)
qed

lemma from_topology_fields:
  assumes "from_topology policy threshold t (Some order) = Inr tu"
  shows "tu_algorithm_policy tu = policy" "tu_ring_threshold_bytes tu = threshold" "tu_ring_order tu = order"
    "tu_hierarchy_groups tu = None" "tu_autotune_profile tu = None"
  using assms by (auto simp: from_topology_def bind_r_eq_Inr)

lemma better_hierarchy_from:
  "fold (better_hierarchy tu payload) gs best = Some (score, groups) \<Longrightarrow>
     groups \<in> set gs \<or> (\<exists>s. best = Some (s, groups))"
proof (induction gs arbitrary: best)
  case (Cons g gs)
  then have "groups \<in> set gs \<or> (\<exists>s. better_hierarchy tu payload g best = Some (s, groups))" by simp
  then show ?case by (auto simp: better_hierarchy_def split: option.splits if_splits)
qed simp

section \<open>Sequences of builders\<close>

datatype tuning_operation =
    WithDirectTransport nat nat
  | WithTransport collective_transport
  | WithHierarchy "nat list list"
  | WithInferredHierarchy nat
  | WithRingChannels nat
  | WithP2pRails nat
  | WithRailOrder "nat list"
  | WithAutotuneProfile collective_autotune_profile

fun apply_tuning :: "tuning_operation \<Rightarrow> collective_tuning \<Rightarrow> topology_error + collective_tuning" where
  "apply_tuning (WithDirectTransport b l) tu = with_direct_transport b l tu"
| "apply_tuning (WithTransport transport) tu = with_transport transport tu"
| "apply_tuning (WithHierarchy groups) tu = with_hierarchy groups tu"
| "apply_tuning (WithInferredHierarchy payload) tu = with_inferred_hierarchy payload tu"
| "apply_tuning (WithRingChannels channels) tu = with_ring_channels channels tu"
| "apply_tuning (WithP2pRails rails) tu = with_p2p_rails rails tu"
| "apply_tuning (WithRailOrder order) tu = with_rail_order order tu"
| "apply_tuning (WithAutotuneProfile profile) tu = with_autotune_profile profile tu"

lemma base_updates:
  assumes "tuning_ok tu"
  shows "0 < b \<Longrightarrow> tuning_base (tu\<lparr> tu_direct_bandwidth_mbps := b, tu_direct_latency_ns := l \<rparr>)"
    and "tuning_base (tu\<lparr> tu_transport := transport \<rparr>)"
    and "validate_hierarchy_groups (ct_world_size (tu_topology tu)) groups = Inr () \<Longrightarrow>
      tuning_base (tu\<lparr> tu_hierarchy_groups := Some groups \<rparr>)"
    and "validate_ring_channels channels = Inr () \<Longrightarrow> tuning_base (tu\<lparr> tu_ring_channels := channels \<rparr>)"
    and "validate_p2p_rails rails = Inr () \<Longrightarrow>
      (case tu_rail_order_override tu of Some order \<Rightarrow> validate_rail_order rails order | None \<Rightarrow> Inr ()) = Inr () \<Longrightarrow>
      tuning_base (tu\<lparr> tu_p2p_rails := rails \<rparr>)"
    and "validate_rail_order (tu_p2p_rails tu) order = Inr () \<Longrightarrow> tuning_base (tu\<lparr> tu_rail_order_override := Some order \<rparr>)"
  using assms by (simp_all add: tuning_base_def tuning_ok_def Let_def split: option.splits)

lemma rechecked:
  assumes "recheck_profile tu1 = Inr tu'" "tuning_base tu1" "tu_topology tu1 = t"
  shows "tuning_ok tu' \<and> tu_topology tu' = t"
  using recheck_profile_ok[OF assms(2,1)] assms(3) by simp

lemma inferred_groups_ok:
  assumes "topology_ok (tu_topology tu)"
    "fold (better_hierarchy tu payload) (hierarchy_candidates (tu_topology tu) payload) None = Some (score, groups)"
  shows "validate_hierarchy_groups (ct_world_size (tu_topology tu)) groups = Inr ()"
  using better_hierarchy_from[OF assms(2)] hierarchy_candidates_ok[OF assms(1)] by (auto simp: candidate_ok_def)

lemma profile_update:
  "rail_order (tu\<lparr> tu_autotune_profile := p \<rparr>) = rail_order tu"
  "topology_fingerprint_hex (tu\<lparr> tu_autotune_profile := p \<rparr>) = topology_fingerprint_hex tu"
  "execution_fingerprint_hex (tu\<lparr> tu_autotune_profile := p \<rparr>) = execution_fingerprint_hex tu"
  "validate_autotune_entry (tu\<lparr> tu_autotune_profile := p \<rparr>) = validate_autotune_entry tu"
  by (simp_all add: rail_order_def topology_fingerprint_hex_def topology_fingerprint_def topology_fingerprint_values_def
      execution_fingerprint_hex_def execution_fingerprint_def validate_autotune_entry_def fun_eq_iff cong: option.case_cong)

lemma profile_accepted_update:
  "profile_accepted (tu\<lparr> tu_autotune_profile := p \<rparr>) profile \<longleftrightarrow> profile_accepted tu profile"
proof -
  have "detected_matches (tu\<lparr> tu_autotune_profile := p \<rparr>) fp n links rails aggregates allowed =
      detected_matches tu fp n links rails aggregates allowed" for fp n links rails aggregates allowed
    by (cases links; cases rails; cases aggregates; cases allowed) (simp_all add: detected_matches_def profile_update)
  moreover have "tu_ring_order (tu\<lparr> tu_autotune_profile := p \<rparr>) = tu_ring_order tu"
    "tu_transport (tu\<lparr> tu_autotune_profile := p \<rparr>) = tu_transport tu" by simp_all
  ultimately show ?thesis
    unfolding profile_accepted_def validate_autotune_profile_with_detected_def profile_update by presburger
qed

lemma installed_profile_ok:
  "tuning_ok tu \<Longrightarrow> profile_accepted tu profile \<Longrightarrow> tuning_ok (tu\<lparr> tu_autotune_profile := Some profile \<rparr>)"
  by (simp add: tuning_ok_def Let_def profile_accepted_update)

lemma apply_tuning_ok:
  assumes ok: "tuning_ok tu" and app: "apply_tuning op tu = Inr tu'"
  shows "tuning_ok tu' \<and> tu_topology tu' = tu_topology tu"
proof (cases op)
  case (WithAutotuneProfile profile)
  then have "profile_accepted tu profile" "tu' = tu\<lparr> tu_autotune_profile := Some profile \<rparr>"
    using app by (auto simp: with_autotune_profile_def bind_r_eq_Inr validate_autotune_profile_def profile_accepted_def)
  then show ?thesis using installed_profile_ok[OF ok] by simp
next
  case (WithInferredHierarchy payload)
  with app obtain score groups where
    g: "fold (better_hierarchy tu payload) (hierarchy_candidates (tu_topology tu) payload) None = Some (score, groups)"
    and r: "recheck_profile (tu\<lparr> tu_hierarchy_groups := Some groups \<rparr>) = Inr tu'"
    by (auto simp: with_inferred_hierarchy_def split: if_splits option.splits)
  have "topology_ok (tu_topology tu)" using ok by (simp add: tuning_ok_def Let_def)
  from rechecked[OF r base_updates(3)[OF ok inferred_groups_ok[OF this g]]] show ?thesis by simp
next
  case (WithDirectTransport b l)
  with app have r: "recheck_profile (tu\<lparr> tu_direct_bandwidth_mbps := b, tu_direct_latency_ns := l \<rparr>) = Inr tu'" "0 < b"
    by (simp_all add: with_direct_transport_def split: if_splits)
  show ?thesis using rechecked[OF r(1) base_updates(1)[OF ok r(2)]] by simp
next
  case (WithTransport transport)
  then show ?thesis using rechecked[OF _ base_updates(2)[OF ok]] app by (simp add: with_transport_def)
next
  case (WithHierarchy groups)
  then show ?thesis using rechecked[OF _ base_updates(3)[OF ok]] app by (auto simp: with_hierarchy_def bind_r_eq_Inr)
next
  case (WithRingChannels channels)
  then show ?thesis using rechecked[OF _ base_updates(4)[OF ok]] app by (auto simp: with_ring_channels_def bind_r_eq_Inr)
next
  case (WithP2pRails rails)
  then show ?thesis using rechecked[OF _ base_updates(5)[OF ok]] app by (auto simp: with_p2p_rails_def bind_r_eq_Inr)
next
  case (WithRailOrder order)
  then show ?thesis using rechecked[OF _ base_updates(6)[OF ok]] app by (auto simp: with_rail_order_def bind_r_eq_Inr)
qed

section \<open>Channels\<close>

lemma rail_order_ok:
  assumes "tuning_ok tu"
  shows "validate_rail_order (tu_p2p_rails tu) (rail_order tu) = Inr ()"
proof (cases "tu_rail_order_override tu")
  case None
  then show ?thesis unfolding validate_rail_order_iff using preferred_rail_order_spec by (simp add: rail_order_def)
qed (use assms in \<open>simp add: rail_order_def tuning_ok_def Let_def\<close>)

lemma channel_rails_ok:
  assumes "tuning_ok tu"
  shows "rail_for_channel tu channel < tu_p2p_rails tu"
proof -
  have s: "set (rail_order tu) = {..<tu_p2p_rails tu}" "0 < tu_p2p_rails tu"
    using rail_order_ok[OF assms] assms unfolding validate_rail_order_iff
    by (simp, simp add: tuning_ok_def Let_def validate_p2p_rails_def split: if_splits)
  then have "rail_order tu \<noteq> []" by (metis empty_set lessThan_empty_iff less_irrefl)
  then have "rail_order tu ! (channel mod length (rail_order tu)) \<in> set (rail_order tu)" by simp
  then show ?thesis unfolding s(1) by (simp add: rail_for_channel_def Let_def)
qed

lemma channel_rings_ok:
  assumes "tuning_ok tu"
  shows "validate_ring_order (ct_world_size (tu_topology tu)) (ring_order_for_channel tu channel) = Inr ()"
proof -
  have "tu_ring_orders tu \<noteq> []" and v: "\<forall>order \<in> set (tu_ring_orders tu). validate_ring_order (ct_world_size (tu_topology tu)) order = Inr ()"
    using assms by (simp_all add: tuning_ok_def Let_def)
  then have "ring_order_for_channel tu channel \<in> set (tu_ring_orders tu)" by (simp add: ring_order_for_channel_def)
  with v show ?thesis by blast
qed

section \<open>Ranges of a profile\<close>

definition entry_covers :: "collective_kind \<Rightarrow> nat \<Rightarrow> collective_autotune_entry \<Rightarrow> bool" where
  "entry_covers kind payload e \<longleftrightarrow>
     ae_operation e = kind \<and> ae_min_payload_bytes e \<le> payload \<and> payload \<le> ae_max_payload_bytes e"

lemma accepted_entries:
  assumes "profile_accepted tu profile" "e \<in> set (ap_entries profile)"
  shows "validate_autotune_entry tu e = Inr ()"
  using assms traverse_r_okD by (fastforce simp: profile_accepted_def validate_autotune_profile_with_detected_def bind_r_eq_Inr
      Let_def split: if_splits)

lemma accepted_ranges:
  assumes "profile_accepted tu profile"
  shows "check_overlap kind (kind_ranges profile kind) = Inr ()"
proof -
  have "\<forall>kind \<in> set [KindAllReduce, KindAllGather, KindReduceScatter, KindAllToAll].
      check_overlap kind (kind_ranges profile kind) = Inr ()"
    using assms by (auto simp: profile_accepted_def validate_autotune_profile_with_detected_def bind_r_eq_Inr Let_def split: if_splits)
  then show ?thesis by (cases kind) simp_all
qed

lemma no_overlap_covered_once:
  "check_overlap kind rs = Inr () \<Longrightarrow> \<forall>r \<in> set rs. fst r \<le> snd r \<Longrightarrow>
     length (filter (\<lambda>r. fst r \<le> p \<and> p \<le> snd r) rs) \<le> 1 \<and>
     (\<forall>r \<in> set rs. fst (hd rs) \<le> fst r)" for p :: nat
proof (induction kind rs rule: check_overlap.induct)
  case (1 kind a b rest)
  then have lt: "snd a < fst b" and IH: "length (filter (\<lambda>r. fst r \<le> p \<and> p \<le> snd r) (b # rest)) \<le> 1"
    "\<forall>r \<in> set (b # rest). fst b \<le> fst r" by (auto split: if_splits)
  have "filter (\<lambda>r. fst r \<le> p \<and> p \<le> snd r) (b # rest) = []" if "p \<le> snd a"
    using IH(2) that lt by (force simp: filter_empty_conv)
  moreover have "\<forall>r \<in> set (a # b # rest). fst a \<le> fst r" using IH(2) lt 1(3) by fastforce
  ultimately show ?case using IH(1) by (cases "fst a \<le> p \<and> p \<le> snd a") simp_all
qed simp_all

lemma validate_autotune_entry_ok:
  assumes "validate_autotune_entry tu e = Inr ()"
  shows "ae_min_payload_bytes e \<le> ae_max_payload_bytes e" "validate_ring_channels (ae_ring_channels e) = Inr ()"
    "valid_algorithm (ae_operation e) (ae_algorithm e)"
    "ae_algorithm e = AlgHierarchical \<Longrightarrow> tu_hierarchy_groups tu \<noteq> None"
  using assms by (auto simp: validate_autotune_entry_def bind_r_eq_Inr map_err_def split: if_splits sum.splits)

lemma covered_once:
  assumes "profile_accepted tu profile"
  shows "length (filter (entry_covers kind p) (ap_entries profile)) \<le> 1"
proof -
  let ?in = "\<lambda>r. fst r \<le> p \<and> p \<le> snd r"
  have "\<forall>r \<in> set (kind_ranges profile kind). fst r \<le> snd r"
    using validate_autotune_entry_ok(1)[OF accepted_entries[OF assms]] by (auto simp: kind_ranges_def)
  from no_overlap_covered_once[OF accepted_ranges[OF assms] this]
  have "length (filter ?in (kind_ranges profile kind)) \<le> 1" by blast
  then show ?thesis
    by (simp add: kind_ranges_def filter_sort filter_map o_def entry_covers_def [abs_def] conj_commute conj_left_commute)
qed

lemma find_filter: "List.find P xs = (case filter P xs of [] \<Rightarrow> None | x # _ \<Rightarrow> Some x)"
  by (induction xs) simp_all

lemma autotune_entry_find:
  "tu_autotune_profile tu = Some profile \<Longrightarrow>
     autotune_entry tu kind payload = List.find (entry_covers kind (min payload u64_max)) (ap_entries profile)"
  by (simp add: autotune_entry_def entry_covers_def [abs_def] Let_def)

lemma autotune_entry_covers:
  assumes "tuning_ok tu" "autotune_entry tu kind payload = Some e"
  shows "\<exists>profile. tu_autotune_profile tu = Some profile \<and> e \<in> set (ap_entries profile) \<and>
    entry_covers kind (min payload u64_max) e \<and> validate_autotune_entry tu e = Inr ()"
proof -
  obtain profile where p: "tu_autotune_profile tu = Some profile"
    using assms(2) by (auto simp: autotune_entry_def Let_def split: option.splits)
  then have "profile_accepted tu profile" using assms(1) by (simp add: tuning_ok_def Let_def)
  moreover have "e \<in> set (ap_entries profile)" "entry_covers kind (min payload u64_max) e"
    using assms(2) unfolding autotune_entry_find[OF p] by (auto simp: find_Some_iff)
  ultimately show ?thesis using accepted_entries p by blast
qed

section \<open>A sample tuning\<close>

lemma hex16_normal: "normal_fingerprint (hex16 w) = hex16 w"
proof -
  have d: "(of_char (digit_char n) :: nat) \<in> {48..57} \<union> {97..102}" if "n < 16" for n
    using that by (simp add: digit_char_def)
  have c: "\<forall>c \<in> set (hex16 w). (of_char c :: nat) \<in> {48..57} \<union> {97..102}" by (simp add: hex16_def d del: Un_iff)
  have "take 2 (hex16 w) \<noteq> ''0x''"
  proof
    assume "take 2 (hex16 w) = ''0x''"
    then have "CHR ''x'' \<in> set (hex16 w)" using set_take_subset[of 2 "hex16 w"] by simp
    with c show False by fastforce
  qed
  moreover have "to_ascii_lowercase (hex16 w) = hex16 w"
    using c by (force simp: to_ascii_lowercase_def Let_def intro!: map_idI)
  ultimately show ?thesis by (simp add: normal_fingerprint_def)
qed

definition sample_tuning :: collective_tuning where
  "sample_tuning = projr (from_topology PolicyAuto 4096 sample_ring_topology (Some [2, 1, 0]))"

definition sample_entry :: collective_autotune_entry where
  "sample_entry = \<lparr> ae_operation = KindAllReduce, ae_min_payload_bytes = 16, ae_max_payload_bytes = 64, ae_algorithm = AlgRing,
     ae_ring_channels = 2, ae_measured_time_ns = 700 \<rparr>"

definition sample_profile :: collective_autotune_profile where
  "sample_profile = \<lparr> ap_version = 2, ap_world_size = 3, ap_topology_fingerprint = topology_fingerprint_hex sample_tuning,
     ap_execution_fingerprint = execution_fingerprint_hex sample_tuning, ap_entries = [sample_entry] \<rparr>"

definition sample_profiled :: collective_tuning where
  "sample_profiled = sample_tuning\<lparr> tu_autotune_profile := Some sample_profile \<rparr>"

lemma sample_tuning_from: "from_topology PolicyAuto 4096 sample_ring_topology (Some [2, 1, 0]) = Inr sample_tuning"
proof -
  have "validate_ring_order 3 [2, 1, 0] = Inr ()" unfolding validate_ring_order_iff by auto
  then show ?thesis by (simp add: sample_tuning_def from_topology_def sample_ring_topology_ok(3))
qed

lemma sample_tuning_ok: "tuning_ok sample_tuning" "tu_topology sample_tuning = sample_ring_topology"
  using from_topology_ok[OF sample_ring_topology_ok(2) sample_tuning_from] by blast+

lemma sample_tuning_fields:
  "tu_algorithm_policy sample_tuning = PolicyAuto" "tu_ring_threshold_bytes sample_tuning = 4096"
  "tu_ring_order sample_tuning = [2, 1, 0]" "tu_hierarchy_groups sample_tuning = None" "tu_autotune_profile sample_tuning = None"
  using from_topology_fields[OF sample_tuning_from] by simp_all

lemma sample_profile_ok: "with_autotune_profile sample_profile sample_tuning = Inr sample_profiled"
proof -
  have "topology_fingerprint_hex sample_tuning = normal_fingerprint (topology_fingerprint_hex sample_tuning)"
    "execution_fingerprint_hex sample_tuning = normal_fingerprint (execution_fingerprint_hex sample_tuning)"
    by (simp_all add: topology_fingerprint_hex_def execution_fingerprint_hex_def hex16_normal)
  then show ?thesis
    by (simp add: with_autotune_profile_def validate_autotune_profile_def validate_autotune_profile_with_detected_def
        sample_profile_def sample_profiled_def COLLECTIVE_AUTOTUNE_PROFILE_VERSION_def sample_tuning_fields Let_def
        validate_autotune_entry_def sample_entry_def valid_algorithm_def validate_ring_channels_def MAX_RING_CHANNELS_def
        kind_ranges_def)
qed

section \<open>Properties\<close>

text \<open>C24. The invariant of a tuning: whatever sequence of builders succeeds after \<open>from_topology\<close>, the tuning is
  well formed. Its primary ring heads its rings, every channel gets a ring that visits each rank
  once and a rail that exists, channel and rail counts and groups pass their validators, and an
  installed profile still matches the configuration; the topology is the one that was given.\<close>

theorem tuning_builders_invariant:
  assumes "topology_ok t" "from_topology policy threshold t ring = Inr tu0" "fold_r apply_tuning ops tu0 = Inr tu"
  shows "tuning_ok tu \<and> tu_topology tu = t \<and>
    (\<forall>channel. distinct (ring_order_for_channel tu channel) \<and> set (ring_order_for_channel tu channel) = {..<ct_world_size t} \<and>
       rail_for_channel tu channel < tu_p2p_rails tu)"
proof -
  have ok: "tuning_ok tu \<and> tu_topology tu = t"
    by (rule fold_r_invariant[where P = "\<lambda>tu. tuning_ok tu \<and> tu_topology tu = t", OF assms(3) from_topology_ok[OF assms(1,2)]])
      (use apply_tuning_ok in metis)
  then show ?thesis using channel_rings_ok[of tu] channel_rails_ok[of tu] unfolding validate_ring_order_iff by blast
qed

theorem tuning_builders_invariant_witness: "tuning_ok sample_profiled \<and> rail_for_channel sample_profiled 5 < tu_p2p_rails sample_profiled"
  using tuning_builders_invariant[OF sample_ring_topology_ok(2) sample_tuning_from, of "[WithAutotuneProfile sample_profile]" sample_profiled]
    sample_profile_ok by simp

text \<open>Measured ranges are unambiguous: in a well-formed tuning at most one entry of the profile covers an
  operation and a payload, and the lookup finds it exactly when it exists.\<close>

theorem autotune_entry_unique:
  assumes "tuning_ok tu" "tu_autotune_profile tu = Some profile"
  shows "autotune_entry tu kind payload = Some e \<longleftrightarrow> filter (entry_covers kind (min payload u64_max)) (ap_entries profile) = [e]"
    (is "?find = Some e \<longleftrightarrow> ?f = [e]")
proof -
  have "profile_accepted tu profile" using assms by (simp add: tuning_ok_def Let_def)
  from covered_once[OF this, of kind "min payload u64_max"] have "?f = [] \<or> (\<exists>x. ?f = [x])"
    by (cases ?f) auto
  moreover have "?find = (case ?f of [] \<Rightarrow> None | x # _ \<Rightarrow> Some x)"
    unfolding autotune_entry_find[OF assms(2)] by (rule find_filter)
  ultimately show ?thesis by auto
qed

theorem autotune_entry_unique_witness:
  "autotune_entry sample_profiled KindAllReduce 20 = Some sample_entry \<and> autotune_entry sample_profiled KindAllReduce 65 \<noteq> Some sample_entry"
proof -
  have "tuning_ok sample_profiled"
    using apply_tuning_ok[OF sample_tuning_ok(1), of "WithAutotuneProfile sample_profile"] sample_profile_ok by simp
  from autotune_entry_unique[OF this, of sample_profile KindAllReduce] show ?thesis
    by (simp add: sample_profiled_def sample_profile_def entry_covers_def sample_entry_def)
qed

text \<open>C25. Every plan can be executed: for a well-formed tuning the planned algorithm implements the operation, the
  hierarchical algorithm is planned only with configured groups, the number of channels is legal, a
  single rank always runs the direct algorithm, and a measured plan quotes the measured time of an
  entry that covers the payload.\<close>

theorem plan_executable:
  assumes "tuning_ok tu"
  shows "valid_algorithm kind (pl_algorithm (plan tu kind payload)) \<and>
    (pl_algorithm (plan tu kind payload) = AlgHierarchical \<longrightarrow> tu_hierarchy_groups tu \<noteq> None) \<and>
    validate_ring_channels (pl_ring_channels (plan tu kind payload)) = Inr () \<and>
    (length (tu_ring_order tu) \<le> 1 \<longrightarrow> pl_algorithm (plan tu kind payload) = AlgDirect) \<and>
    (pl_source (plan tu kind payload) = SourceAutotune \<longrightarrow>
       (\<exists>profile e. tu_autotune_profile tu = Some profile \<and> e \<in> set (ap_entries profile) \<and>
          entry_covers kind (min payload u64_max) e \<and> pl_algorithm (plan tu kind payload) = ae_algorithm e \<and>
          pl_estimated_time_ns (plan tu kind payload) = ae_measured_time_ns e))"
proof -
  have ch: "validate_ring_channels (tu_ring_channels tu) = Inr ()" using assms by (simp add: tuning_ok_def Let_def)
  have h: "tu_hierarchy_groups tu \<noteq> None \<and> kind \<noteq> KindAllToAll" if "hierarchical_estimated_time_ns tu kind payload \<noteq> None"
    using that by (auto simp: hierarchical_estimated_time_ns_def split: option.splits)
  show ?thesis
  proof (cases "1 < length (tu_ring_order tu) \<and> tu_algorithm_policy tu = PolicyAuto \<and> autotune_entry tu kind payload \<noteq> None")
    case True
    then obtain e where e: "autotune_entry tu kind payload = Some e" by blast
    from autotune_entry_covers[OF assms e] validate_autotune_entry_ok[of tu e] show ?thesis
      using True e by (auto simp: plan_def Let_def entry_covers_def)
  next
    case False
    then show ?thesis
      using ch h by (cases "tu_algorithm_policy tu"; cases kind)
        (auto simp: plan_def model_choice_def valid_algorithm_def Let_def split: option.splits if_splits)
  qed
qed

theorem plan_executable_witness:
  "pl_algorithm (plan sample_profiled KindAllReduce 20) = AlgRing \<and> valid_algorithm KindAllReduce (pl_algorithm (plan sample_profiled KindAllReduce 20))"
proof -
  have "tuning_ok sample_profiled"
    using apply_tuning_ok[OF sample_tuning_ok(1), of "WithAutotuneProfile sample_profile"] sample_profile_ok by simp
  from plan_executable[OF this, of KindAllReduce 20] show ?thesis
    by (simp add: plan_def Let_def autotune_entry_def sample_profiled_def sample_profile_def sample_entry_def sample_tuning_fields)
qed

text \<open>C26. The model chooses the fastest: under the automatic policy, with several ranks, no measurement for the
  payload and at least the threshold, the plan's time is the least of the available estimates, the
  direct algorithm is kept on a tie, and the ring or pairwise algorithm is preferred to the
  hierarchical one on a tie.\<close>

theorem plan_chooses_fastest:
  assumes "tu_algorithm_policy tu = PolicyAuto" "1 < length (tu_ring_order tu)" "autotune_entry tu kind payload = None"
    and "tu_ring_threshold_bytes tu \<le> payload"
  defines "direct \<equiv> direct_estimated_time_ns tu kind payload" and "peer \<equiv> peer_estimated_time_ns tu kind payload"
    and "hierarchical \<equiv> hierarchical_estimated_time_ns tu kind payload"
  shows "pl_source (plan tu kind payload) = SourceModel \<and>
    pl_estimated_time_ns (plan tu kind payload) = Min ({direct} \<union> set_option peer \<union> set_option hierarchical) \<and>
    (pl_algorithm (plan tu kind payload) = AlgDirect \<longleftrightarrow> (\<forall>e \<in> set_option peer \<union> set_option hierarchical. direct \<le> e)) \<and>
    (pl_algorithm (plan tu kind payload) = AlgHierarchical \<longleftrightarrow>
       (\<exists>e. hierarchical = Some e \<and> e < direct \<and> (\<forall>e' \<in> set_option peer. e < e')))"
proof -
  have h: "hierarchical = None" if "kind = KindAllToAll"
    using that by (simp add: hierarchical_def hierarchical_estimated_time_ns_def split: option.splits)
  have p: "plan tu kind payload = (let a = model_choice kind (if kind = KindAllToAll then AlgPairwise else AlgRing) direct peer hierarchical
      in \<lparr> pl_algorithm = a, pl_source = SourceModel, pl_estimated_time_ns =
           (case a of AlgDirect \<Rightarrow> direct | AlgHierarchical \<Rightarrow> (case hierarchical of Some e \<Rightarrow> e | None \<Rightarrow> u64_max)
            | _ \<Rightarrow> (case peer of Some e \<Rightarrow> e | None \<Rightarrow> u64_max)),
           pl_direct_estimated_time_ns = direct, pl_peer_estimated_time_ns = peer,
           pl_hierarchical_estimated_time_ns = hierarchical, pl_ring_channels = tu_ring_channels tu \<rparr>)"
    using assms(1-4) by (simp add: plan_def direct_def peer_def hierarchical_def Let_def split: collective_algorithm.splits)
  show ?thesis
    unfolding p using h by (cases kind; cases peer; cases hierarchical) (auto simp: model_choice_def Let_def min_def)
qed

theorem plan_chooses_fastest_witness:
  "pl_source (plan sample_tuning KindAllReduce 8192) = SourceModel \<and>
   pl_estimated_time_ns (plan sample_tuning KindAllReduce 8192) \<le> direct_estimated_time_ns sample_tuning KindAllReduce 8192"
  using plan_chooses_fastest[of sample_tuning KindAllReduce 8192]
  by (simp add: sample_tuning_fields autotune_entry_def)

end
