(* ===== verification/Tuning_Environment.thy ===== *)
theory Tuning_Environment
  imports Planner
begin

text \<open>
  How a tuning is read from the process environment and from a recorded profile file:
  \<open>from_environment_impl\<close>, its two entry points and \<open>with_autotune_profile_path\<close> of
  \<^verbatim>\<open>src/rank/topology.rs\<close>. The environment is a function from names to values. The file system and
  the JSON library are parameters.
\<close>

section \<open>Profile files\<close>

definition DEFAULT_HIERARCHY_INFERENCE_BYTES :: nat where "DEFAULT_HIERARCHY_INFERENCE_BYTES = 16 * 1024 * 1024"

text \<open>What the code looks at of a JSON value.\<close>

datatype json_value = JsonString string | JsonNull | JsonOther

text \<open>The external calls: \<open>fs::read_to_string\<close>, \<open>serde_json::from_str\<close> to a document and its field lookup, and
  \<open>serde_json::from_str\<close> to a profile. Failures carry the text of the error.\<close>

record 'doc profile_files =
  pf_read_to_string :: "string \<Rightarrow> string + string"
  pf_document :: "string \<Rightarrow> string + 'doc"
  pf_get :: "'doc \<Rightarrow> string \<Rightarrow> json_value option"
  pf_profile :: "string \<Rightarrow> string + collective_autotune_profile"

definition optional_string :: "string \<Rightarrow> json_value option \<Rightarrow> topology_error + string option" where
  "optional_string name v =
     (case v of
        Some (JsonString s) \<Rightarrow> Inr (Some s)
      | Some JsonNull \<Rightarrow> Inr None
      | None \<Rightarrow> Inr None
      | Some JsonOther \<Rightarrow> Inl (invalid_profile (name @ '' must be a string or null'') []))"

definition with_autotune_profile_path ::
  "'doc profile_files \<Rightarrow> environment \<Rightarrow> string \<Rightarrow> collective_tuning \<Rightarrow> topology_error + collective_tuning" where
  "with_autotune_profile_path files env path tu =
     bind_r (map_err (ProfileRead path) (pf_read_to_string files path)) (\<lambda>encoded.
     bind_r (map_err (\<lambda>error. invalid_profile ''{} is not valid JSON: {error}'' [AStr path, AStr error]) (pf_document files encoded)) (\<lambda>document.
     bind_r (optional_string ''detected_topology_links'' (pf_get files document ''detected_topology_links'')) (\<lambda>links.
     bind_r (optional_string ''detected_topology_rail_links'' (pf_get files document ''detected_topology_rail_links'')) (\<lambda>rail_links.
     bind_r (optional_string ''detected_topology_aggregate_links''
               (pf_get files document ''detected_topology_aggregate_links'')) (\<lambda>aggregate_links.
     bind_r (map_err (\<lambda>error. invalid_profile ''{} is not valid JSON: {error}'' [AStr path, AStr error]) (pf_profile files encoded)) (\<lambda>profile.
     bind_r (topology_probe_requested env) (\<lambda>probe.
     bind_r (validate_autotune_profile_with_detected tu profile links rail_links aggregate_links probe) (\<lambda>_.
       Inr (tu\<lparr> tu_autotune_profile := Some profile \<rparr>)))))))))"

section \<open>The environment\<close>

definition parse_algorithm_policy_environment :: "environment \<Rightarrow> topology_error + algorithm_policy" where
  "parse_algorithm_policy_environment env =
     (case env ''GX1_COLLECTIVE_ALGORITHM'' of
        EnvValue v \<Rightarrow>
          (let word = to_ascii_lowercase (trim v) in
           if word = ''auto'' then Inr PolicyAuto
           else if word = ''direct'' then Inr PolicyDirect
           else if word = ''ring'' then Inr PolicyRing
           else if word = ''hierarchical'' then Inr PolicyHierarchical
           else Inl (InvalidEnvironment ''GX1_COLLECTIVE_ALGORITHM'' v))
      | EnvNotPresent \<Rightarrow> Inr PolicyAuto
      | EnvNotUnicode v \<Rightarrow> Inl (InvalidEnvironment ''GX1_COLLECTIVE_ALGORITHM'' v))"

text \<open>A variable that is applied only when it is present.\<close>

definition optional_environment ::
  "environment \<Rightarrow> string \<Rightarrow> (string \<Rightarrow> topology_error + 'a) \<Rightarrow> (topology_error + 'a) \<Rightarrow> topology_error + 'a" where
  "optional_environment env name present absent =
     (case env name of
        EnvValue v \<Rightarrow> present v
      | EnvNotPresent \<Rightarrow> absent
      | EnvNotUnicode v \<Rightarrow> Inl (InvalidEnvironment name v))"

definition environment_links :: "environment \<Rightarrow> nat \<Rightarrow> collective_topology option \<Rightarrow> topology_error + collective_topology" where
  "environment_links env world_size probed_topology =
     optional_environment env ''GX1_TOPOLOGY_LINKS''
       (\<lambda>v. if eq_ignore_ascii_case (trim v) ''probe''
            then ok_or probed_topology (InvalidEnvironment ''GX1_TOPOLOGY_LINKS'' v)
            else parse_topology_links world_size v)
       (case probed_topology of Some t \<Rightarrow> Inr t | None \<Rightarrow> topology_uniform world_size)"

definition environment_topology :: "environment \<Rightarrow> nat \<Rightarrow> nat \<Rightarrow> collective_topology option \<Rightarrow> topology_error + collective_topology" where
  "environment_topology env world_size p2p_rails probed_topology =
     bind_r (environment_links env world_size probed_topology) (\<lambda>t.
     bind_r (optional_environment env ''GX1_TOPOLOGY_RAIL_LINKS'' (\<lambda>v. parse_topology_rail_links v p2p_rails t) (Inr t)) (\<lambda>t.
       optional_environment env ''GX1_TOPOLOGY_AGGREGATE_LINKS'' (\<lambda>v. parse_topology_aggregate_links v t) (Inr t)))"

definition environment_rail_order :: "environment \<Rightarrow> nat \<Rightarrow> topology_error + nat list option" where
  "environment_rail_order env p2p_rails =
     optional_environment env ''GX1_RAIL_ORDER''
       (\<lambda>v. if eq_ignore_ascii_case (trim v) ''auto'' then Inr None
            else bind_r (parse_rail_order p2p_rails v) (\<lambda>order. Inr (Some order)))
       (Inr None)"

definition environment_groups :: "environment \<Rightarrow> nat \<Rightarrow> topology_error + nat list list option \<times> nat option" where
  "environment_groups env world_size =
     optional_environment env ''GX1_TOPOLOGY_GROUPS''
       (\<lambda>v. if eq_ignore_ascii_case (trim v) ''auto''
            then bind_r (parse_usize_environment env ''GX1_TOPOLOGY_GROUP_PAYLOAD_BYTES'' DEFAULT_HIERARCHY_INFERENCE_BYTES) (\<lambda>payload_bytes.
                   if payload_bytes = 0 then Inl (InvalidEnvironment ''GX1_TOPOLOGY_GROUP_PAYLOAD_BYTES'' ''0'')
                   else Inr (None, Some payload_bytes))
            else bind_r (parse_hierarchy_groups world_size v) (\<lambda>groups. Inr (Some groups, None)))
       (Inr (None, None))"

definition from_environment_impl ::
  "'doc profile_files \<Rightarrow> environment \<Rightarrow> nat \<Rightarrow> collective_topology option \<Rightarrow> topology_error + collective_tuning" where
  "from_environment_impl files env world_size probed_topology =
     bind_r (parse_algorithm_policy_environment env) (\<lambda>policy.
     bind_r (parse_usize_environment env ''GX1_RING_THRESHOLD_BYTES'' DEFAULT_RING_THRESHOLD_BYTES) (\<lambda>threshold.
     bind_r (parse_usize_environment env ''GX1_RING_CHANNELS'' 1) (\<lambda>ring_channels.
     bind_r (validate_ring_channels ring_channels) (\<lambda>_.
     bind_r (parse_usize_environment env ''GX1_P2P_RAILS'' 1) (\<lambda>p2p_rails.
     bind_r (validate_p2p_rails p2p_rails) (\<lambda>_.
     bind_r (parse_u64_environment env ''GX1_DIRECT_BANDWIDTH_MBPS'' DEFAULT_BANDWIDTH_MBPS) (\<lambda>bandwidth.
     if bandwidth = 0 then Inl (InvalidEnvironment ''GX1_DIRECT_BANDWIDTH_MBPS'' ''0'') else
     bind_r (parse_u64_environment env ''GX1_DIRECT_LATENCY_NS'' DEFAULT_LATENCY_NS) (\<lambda>latency.
     bind_r (parse_collective_transport_environment env) (\<lambda>transport.
     bind_r (environment_topology env world_size p2p_rails probed_topology) (\<lambda>t.
     bind_r (environment_rail_order env p2p_rails) (\<lambda>rail_order_override.
     bind_r (optional_environment env ''GX1_RING_ORDER'' (parse_ring_order world_size) (best_ring_order t)) (\<lambda>order.
     bind_r (environment_groups env world_size) (\<lambda>(groups, inferred).
     bind_r (let tuning = \<lparr> tu_algorithm_policy = policy, tu_ring_threshold_bytes = threshold, tu_ring_order = order,
                   tu_ring_orders = ring_orders_with_primary t order, tu_ring_channels = ring_channels, tu_p2p_rails = p2p_rails,
                   tu_rail_order_override = rail_order_override, tu_hierarchy_groups = groups, tu_topology = t,
                   tu_direct_bandwidth_mbps = bandwidth, tu_direct_latency_ns = latency,
                   tu_transport = transport, tu_autotune_profile = None \<rparr>
             in case inferred of Some payload_bytes \<Rightarrow> with_inferred_hierarchy payload_bytes tuning | None \<Rightarrow> Inr tuning) (\<lambda>tuning.
     if policy = PolicyHierarchical \<and> tu_hierarchy_groups tuning = None
     then Inl (InvalidHierarchy (Msg ''GX1_COLLECTIVE_ALGORITHM=hierarchical requires explicit or inferred topology groups'' []))
     else optional_environment env ''GX1_COLLECTIVE_AUTOTUNE_PROFILE''
            (\<lambda>path. with_autotune_profile_path files env path tuning) (Inr tuning)))))))))))))))"

definition from_environment :: "'doc profile_files \<Rightarrow> environment \<Rightarrow> nat \<Rightarrow> topology_error + collective_tuning" where
  "from_environment files env world_size = from_environment_impl files env world_size None"

definition from_environment_with_topology ::
  "'doc profile_files \<Rightarrow> environment \<Rightarrow> collective_topology \<Rightarrow> topology_error + collective_tuning" where
  "from_environment_with_topology files env t = from_environment_impl files env (ct_world_size t) (Some t)"

section \<open>What is read is well formed\<close>

lemma optional_environment_Inr:
  "optional_environment env name present absent = Inr x \<longleftrightarrow>
     (\<exists>v. env name = EnvValue v \<and> present v = Inr x) \<or> env name = EnvNotPresent \<and> absent = Inr x"
  by (cases "env name") (simp_all add: optional_environment_def)

lemma parsed_link_added:
  "parse_topology_link v l t = Inr t' \<Longrightarrow> \<exists>link. add_link link t = Inr t'"
  "parse_topology_rail_link v rails l t = Inr t' \<Longrightarrow> \<exists>link. add_rail_link link t = Inr t'"
  "parse_topology_aggregate_link v l t = Inr t' \<Longrightarrow> \<exists>link. add_aggregate_link link t = Inr t'"
    by (auto simp: parse_topology_link_def Let_def bind_r_eq_Inr split: prod.splits)
      (auto simp: parse_topology_rail_link_def parse_topology_aggregate_link_def Let_def bind_r_eq_Inr split: prod.splits if_splits)

lemma parsed_links_ok:
  assumes "parse_topology_links n v = Inr t"
  shows "topology_ok t \<and> ct_world_size t = n"
proof -
  from assms obtain t0 where t0: "topology_empty n = Inr t0"
    and f: "fold_r (parse_topology_link v) (filter (\<lambda>l. trim l \<noteq> []) (split_on CHR '','' v)) t0 = Inr t"
    by (auto simp: parse_topology_links_def bind_r_eq_Inr)
  have step: "topology_ok s' \<and> ct_world_size s' = n"
    if "topology_ok s \<and> ct_world_size s = n" "parse_topology_link v l s = Inr s'" for l s s'
    using that(1) parsed_link_added(1)[OF that(2)] add_link_ok by metis
  show ?thesis
    by (rule fold_r_invariant[where P = "\<lambda>t. topology_ok t \<and> ct_world_size t = n", OF f topology_empty_ok[OF t0]]) (rule step)
qed

lemma parsed_rails_ok:
  assumes "topology_ok t" "parse_topology_rail_links v rails t = Inr t'"
  shows "topology_ok t' \<and> ct_world_size t' = ct_world_size t"
proof -
  have step: "topology_ok s' \<and> ct_world_size s' = ct_world_size t"
    if "topology_ok s \<and> ct_world_size s = ct_world_size t" "parse_topology_rail_link v rails l s = Inr s'" for l s s'
    using that(1) parsed_link_added(2)[OF that(2)] add_rail_link_ok by metis
  show ?thesis
    by (rule fold_r_invariant[where P = "\<lambda>s. topology_ok s \<and> ct_world_size s = ct_world_size t",
          OF assms(2)[unfolded parse_topology_rail_links_def]]) (simp add: assms(1), rule step)
qed

lemma parsed_aggregates_ok:
  assumes "topology_ok t" "parse_topology_aggregate_links v t = Inr t'"
  shows "topology_ok t' \<and> ct_world_size t' = ct_world_size t"
proof -
  have step: "topology_ok s' \<and> ct_world_size s' = ct_world_size t"
    if "topology_ok s \<and> ct_world_size s = ct_world_size t" "parse_topology_aggregate_link v l s = Inr s'" for l s s'
    using that(1) parsed_link_added(3)[OF that(2)] add_aggregate_link_ok by metis
  show ?thesis
    by (rule fold_r_invariant[where P = "\<lambda>s. topology_ok s \<and> ct_world_size s = ct_world_size t",
          OF assms(2)[unfolded parse_topology_aggregate_links_def]]) (simp add: assms(1), rule step)
qed

lemma environment_topology_ok:
  assumes "environment_topology env n rails probed = Inr t"
    and "\<And>p. probed = Some p \<Longrightarrow> topology_ok p \<and> ct_world_size p = n"
  shows "topology_ok t \<and> ct_world_size t = n"
proof -
  from assms(1) obtain t1 t2 where l: "environment_links env n probed = Inr t1"
    and r: "optional_environment env ''GX1_TOPOLOGY_RAIL_LINKS'' (\<lambda>v. parse_topology_rail_links v rails t1) (Inr t1) = Inr t2"
    and a: "optional_environment env ''GX1_TOPOLOGY_AGGREGATE_LINKS'' (\<lambda>v. parse_topology_aggregate_links v t2) (Inr t2) = Inr t"
    by (auto simp: environment_topology_def bind_r_eq_Inr)
  have t1: "topology_ok t1 \<and> ct_world_size t1 = n"
    using l assms(2) parsed_links_ok topology_uniform_ok
    by (auto simp: environment_links_def optional_environment_Inr ok_or_def split: if_splits option.splits)
  then have t2: "topology_ok t2 \<and> ct_world_size t2 = n"
    using r parsed_rails_ok[of t1] unfolding optional_environment_Inr by auto
  then show ?thesis using a parsed_aggregates_ok[of t2] unfolding optional_environment_Inr by auto
qed

lemma best_ring_order_ok:
  assumes "topology_ok t" "best_ring_order t = Inr order"
  shows "validate_ring_order (ct_world_size t) order = Inr ()"
proof (cases "1 < ct_world_size t")
  case True
  obtain orders where o: "best_ring_orders t 1 = Inr orders" "order = hd orders"
    using assms(2) by (auto simp: best_ring_order_def bind_r_eq_Inr)
  with best_ring_orders_sound[OF assms(1) True zero_less_one o(1)] have "closed_ring t order" by simp
  then show ?thesis using True unfolding closed_ring_def validate_ring_order_iff by simp
next
  case False
  then have n: "ct_world_size t = 1" using assms(1) by (simp add: topology_ok_def)
  then have "order = [0]" using assms(2) by (simp add: best_ring_order_def best_ring_orders_def)
  then show ?thesis unfolding n validate_ring_order_iff by auto
qed

lemma environment_orders_ok:
  "parse_ring_order n v = Inr order \<Longrightarrow> validate_ring_order n order = Inr ()"
  "environment_rail_order env rails = Inr (Some ro) \<Longrightarrow> validate_rail_order rails ro = Inr ()"
  "environment_groups env n = Inr (Some groups, inferred) \<Longrightarrow> validate_hierarchy_groups n groups = Inr ()"
  by (auto simp: parse_ring_order_def parse_rail_order_def parse_hierarchy_groups_def environment_rail_order_def
      environment_groups_def optional_environment_Inr bind_r_eq_Inr split: if_splits)

lemma with_autotune_profile_path_ok:
  assumes "tuning_ok tu" "with_autotune_profile_path files env path tu = Inr tu'"
  shows "tuning_ok tu' \<and> tu_topology tu' = tu_topology tu \<and> tu_algorithm_policy tu' = tu_algorithm_policy tu \<and>
    tu_hierarchy_groups tu' = tu_hierarchy_groups tu"
proof -
  from assms(2) obtain profile l r a p where "validate_autotune_profile_with_detected tu profile l r a p = Inr ()"
    and "tu' = tu\<lparr> tu_autotune_profile := Some profile \<rparr>"
    by (auto simp: with_autotune_profile_path_def bind_r_eq_Inr)
  moreover from this(1) have "profile_accepted tu profile" unfolding profile_accepted_def by blast
  ultimately show ?thesis using installed_profile_ok[OF assms(1)] by simp
qed

lemma with_inferred_hierarchy_policy:
  "with_inferred_hierarchy payload tu = Inr tu' \<Longrightarrow> tu_algorithm_policy tu' = tu_algorithm_policy tu"
  by (auto simp: with_inferred_hierarchy_def recheck_profile_def bind_r_eq_Inr split: if_splits option.splits)

lemma environment_tuning_ok:
  assumes "topology_ok t" "validate_ring_order (ct_world_size t) order = Inr ()" "validate_ring_channels channels = Inr ()"
    "validate_p2p_rails rails = Inr ()" "environment_rail_order env rails = Inr ro"
    "environment_groups env (ct_world_size t) = Inr (groups, inferred)" "0 < bandwidth"
  shows "tuning_ok \<lparr> tu_algorithm_policy = policy, tu_ring_threshold_bytes = threshold, tu_ring_order = order,
     tu_ring_orders = ring_orders_with_primary t order, tu_ring_channels = channels, tu_p2p_rails = rails,
     tu_rail_order_override = ro, tu_hierarchy_groups = groups, tu_topology = t, tu_direct_bandwidth_mbps = bandwidth,
     tu_direct_latency_ns = latency, tu_transport = transport, tu_autotune_profile = None \<rparr>"
  using assms ring_orders_ok[OF assms(1,2)] environment_orders_ok(2)[of env rails] environment_orders_ok(3)[of env "ct_world_size t"]
  by (simp add: tuning_ok_def Let_def)

lemma from_environment_impl_ok:
  assumes "from_environment_impl files env n probed = Inr tu"
    and "\<And>p. probed = Some p \<Longrightarrow> topology_ok p \<and> ct_world_size p = n"
  shows "tuning_ok tu \<and> ct_world_size (tu_topology tu) = n \<and>
    (tu_algorithm_policy tu = PolicyHierarchical \<longrightarrow> tu_hierarchy_groups tu \<noteq> None)"
proof -
  from assms(1) obtain policy threshold channels rails bandwidth latency transport t ro order groups inferred tuning base where
    c: "validate_ring_channels channels = Inr ()" "validate_p2p_rails rails = Inr ()" "0 < bandwidth"
    and t: "environment_topology env n rails probed = Inr t" and ro: "environment_rail_order env rails = Inr ro"
    and order: "optional_environment env ''GX1_RING_ORDER'' (parse_ring_order n) (best_ring_order t) = Inr order"
    and g: "environment_groups env n = Inr (groups, inferred)"
    and base: "base = \<lparr> tu_algorithm_policy = policy, tu_ring_threshold_bytes = threshold, tu_ring_order = order,
       tu_ring_orders = ring_orders_with_primary t order, tu_ring_channels = channels, tu_p2p_rails = rails,
       tu_rail_order_override = ro, tu_hierarchy_groups = groups, tu_topology = t, tu_direct_bandwidth_mbps = bandwidth,
       tu_direct_latency_ns = latency, tu_transport = transport, tu_autotune_profile = None \<rparr>"
    and inf: "(case inferred of Some payload \<Rightarrow> with_inferred_hierarchy payload base | None \<Rightarrow> Inr base) = Inr tuning"
    and h: "\<not> (policy = PolicyHierarchical \<and> tu_hierarchy_groups tuning = None)"
    and fin: "optional_environment env ''GX1_COLLECTIVE_AUTOTUNE_PROFILE''
       (\<lambda>path. with_autotune_profile_path files env path tuning) (Inr tuning) = Inr tu"
    by (auto simp: from_environment_impl_def bind_r_eq_Inr Let_def split: if_splits)
  have t_ok: "topology_ok t" "ct_world_size t = n" using environment_topology_ok[OF t assms(2)] by blast+
  have "validate_ring_order n order = Inr ()"
    using order best_ring_order_ok[OF t_ok(1)] environment_orders_ok(1) t_ok(2) unfolding optional_environment_Inr by metis
  then have base_ok: "tuning_ok base" using environment_tuning_ok[OF t_ok(1) _ c(1,2) ro _ c(3)] g t_ok(2) by (simp add: base)
  have tuning: "tuning_ok tuning \<and> tu_topology tuning = t \<and> tu_algorithm_policy tuning = policy"
  proof (cases inferred)
    case (Some payload)
    then show ?thesis using inf apply_tuning_ok[OF base_ok, of "WithInferredHierarchy payload"] with_inferred_hierarchy_policy
      by (fastforce simp: base)
  qed (use inf base_ok in \<open>auto simp: base\<close>)
  from fin consider path where "with_autotune_profile_path files env path tuning = Inr tu" | "tu = tuning"
    unfolding optional_environment_Inr by blast
  then have "tuning_ok tu \<and> tu_topology tu = t \<and> tu_algorithm_policy tu = policy \<and> tu_hierarchy_groups tu = tu_hierarchy_groups tuning"
    by cases (use with_autotune_profile_path_ok tuning in metis)+
  then show ?thesis using h t_ok(2) by simp
qed

section \<open>A sample environment\<close>

definition sample_files :: "unit profile_files" where
  "sample_files = \<lparr> pf_read_to_string = \<lambda>_. Inl ''no such file'', pf_document = \<lambda>_. Inl ''empty document'',
     pf_get = \<lambda>_ _. None, pf_profile = \<lambda>_. Inl ''empty document'' \<rparr>"

definition sample_environment :: environment where
  "sample_environment name =
     (if name = ''GX1_RING_ORDER'' then EnvValue (show_order [2, 1, 0])
      else if name = ''GX1_RING_CHANNELS'' then EnvValue ''2'' else EnvNotPresent)"

lemma sample_environment_read:
  "\<exists>tu. from_environment_with_topology sample_files sample_environment sample_ring_topology = Inr tu \<and> tu_ring_channels tu = 2"
proof -
  have "validate_ring_order 3 [2, 1, 0] = Inr ()" unfolding validate_ring_order_iff by auto
  then have o: "parse_ring_order 3 (show_order [2, 1, 0]) = Inr [2, 1, 0]" by (rule ring_order_roundtrip) simp
  have "parse_unsigned 64 ''2'' = Some 2"
    by (simp add: parse_unsigned_def push_digit_def checked_mul_def checked_add_def Let_def)
  then have n: "parse_usize_environment sample_environment name fallback = Inr (if name = ''GX1_RING_CHANNELS'' then 2 else fallback)"
    if "name \<noteq> ''GX1_RING_ORDER''" for name fallback
    using that by (simp add: parse_usize_environment_def sample_environment_def ok_or_def)
  show ?thesis
    using o by (simp add: from_environment_with_topology_def from_environment_impl_def n parse_u64_environment_def
        parse_algorithm_policy_environment_def parse_collective_transport_environment_def environment_topology_def
        environment_links_def environment_rail_order_def environment_groups_def optional_environment_def
        sample_environment_def sample_ring_topology_ok(3) validate_ring_channels_def MAX_RING_CHANNELS_def
        validate_p2p_rails_def MAX_P2P_RAILS_def DEFAULT_BANDWIDTH_MBPS_def Let_def)
qed

section \<open>Properties\<close>

text \<open>C27. A configuration read from the environment is well formed: whatever the variables, the recorded profile
  file and the probed topology, \<open>from_environment\<close> either fails or gives a tuning for exactly the given
  number of ranks that satisfies the tuning invariant, and the hierarchical policy never comes
  without groups.\<close>

theorem from_environment_wellformed:
  assumes "topology_ok probed"
  shows "(case from_environment files env n of Inl _ \<Rightarrow> True
      | Inr tu \<Rightarrow> tuning_ok tu \<and> ct_world_size (tu_topology tu) = n \<and>
          (tu_algorithm_policy tu = PolicyHierarchical \<longrightarrow> tu_hierarchy_groups tu \<noteq> None)) \<and>
    (case from_environment_with_topology files env probed of Inl _ \<Rightarrow> True
      | Inr tu \<Rightarrow> tuning_ok tu \<and> ct_world_size (tu_topology tu) = ct_world_size probed \<and>
          (tu_algorithm_policy tu = PolicyHierarchical \<longrightarrow> tu_hierarchy_groups tu \<noteq> None))"
proof -
  have "from_environment files env n = Inr tu \<Longrightarrow> tuning_ok tu \<and> ct_world_size (tu_topology tu) = n \<and>
      (tu_algorithm_policy tu = PolicyHierarchical \<longrightarrow> tu_hierarchy_groups tu \<noteq> None)" for tu
    unfolding from_environment_def by (erule from_environment_impl_ok) simp
  moreover have "from_environment_with_topology files env probed = Inr tu \<Longrightarrow>
      tuning_ok tu \<and> ct_world_size (tu_topology tu) = ct_world_size probed \<and>
      (tu_algorithm_policy tu = PolicyHierarchical \<longrightarrow> tu_hierarchy_groups tu \<noteq> None)" for tu
    unfolding from_environment_with_topology_def by (erule from_environment_impl_ok) (simp add: assms)
  ultimately show ?thesis by (simp split: sum.split)
qed

theorem from_environment_wellformed_witness:
  "\<exists>tu. from_environment_with_topology sample_files sample_environment sample_ring_topology = Inr tu \<and> tuning_ok tu \<and>
     ct_world_size (tu_topology tu) = 3"
  using from_environment_wellformed[OF sample_ring_topology_ok(2), where files = sample_files and env = sample_environment and n = 3] sample_environment_read
    sample_ring_topology_ok(3) by auto

end
