(* ===== verification/Collective_Config.thy ===== *)
theory Collective_Config
  imports Rank_Prelude
begin

text \<open>
  Data shared by the local server and the global orchestrator: the configuration and strategies of
  \<^verbatim>\<open>src/config.rs\<close>, the errors of \<^verbatim>\<open>src/api.rs\<close> and the messages of \<^verbatim>\<open>src/global/shared.rs\<close>.
  Addresses and element types belong to other crates and are only compared: both are texts here.
\<close>

section \<open>Identifiers\<close>

type_synonym peer_id = nat
type_synonym node_id = nat
type_synonym session_id = nat
type_synonym request_id = nat
type_synonym address = string
type_synonym dtype = string

section \<open>Strategies and configuration\<close>

datatype reduce_operation = ReduceSum | ReduceMean

datatype all_reduce_strategy = ArCentralized | ArTree nat | ArRing

datatype reduce_strategy = ReCentralized | ReTree nat

datatype broadcast_strategy = BcCentralized | BcTree nat

record collective_config =
  cc_num_devices :: nat
  cc_local_all_reduce_strategy :: all_reduce_strategy
  cc_local_reduce_strategy :: reduce_strategy
  cc_local_broadcast_strategy :: broadcast_strategy
  cc_num_nodes :: "nat option"
  cc_global_address :: "address option"
  cc_node_address :: "address option"
  cc_data_service_port :: "nat option"
  cc_global_all_reduce_strategy :: "all_reduce_strategy option"
  cc_global_reduce_strategy :: "reduce_strategy option"
  cc_global_broadcast_strategy :: "broadcast_strategy option"

record register_params =
  gp_global_address :: address
  gp_node_address :: address
  gp_data_service_port :: nat
  gp_num_nodes :: nat

definition config_new :: collective_config where
  "config_new =
     \<lparr> cc_num_devices = 1, cc_local_all_reduce_strategy = ArTree 2, cc_local_reduce_strategy = ReTree 2,
       cc_local_broadcast_strategy = BcTree 2, cc_num_nodes = None, cc_global_address = None, cc_node_address = None,
       cc_data_service_port = None, cc_global_all_reduce_strategy = Some ArRing,
       cc_global_reduce_strategy = Some (ReTree 2), cc_global_broadcast_strategy = Some (BcTree 2) \<rparr>"

definition is_valid :: "collective_config \<Rightarrow> bool" where
  "is_valid c =
     (case (cc_num_nodes c, cc_global_address c, cc_node_address c, cc_data_service_port c) of
        (None, None, None, None) \<Rightarrow> True
      | (Some _, Some _, Some _, Some _) \<Rightarrow> True
      | _ \<Rightarrow> False)"

definition global_register_params :: "collective_config \<Rightarrow> register_params option" where
  "global_register_params c =
     (case (cc_num_nodes c, cc_global_address c, cc_node_address c, cc_data_service_port c) of
        (None, None, None, None) \<Rightarrow> None
      | (Some num_nodes, Some global_addr, Some node_addr, Some data_service_port) \<Rightarrow>
          Some \<lparr> gp_global_address = global_addr, gp_node_address = node_addr,
                 gp_data_service_port = data_service_port, gp_num_nodes = num_nodes \<rparr>
      | _ \<Rightarrow> None)"

lemma valid_config_params:
  "is_valid c \<Longrightarrow> (global_register_params c = None \<longleftrightarrow> cc_num_nodes c = None)"
  by (auto simp: is_valid_def global_register_params_def split: option.splits)

section \<open>Errors and messages\<close>

datatype global_collective_error =
    OperationTimeout
  | CommunicatorAborted
  | AllReduceBeforeRegister
  | CollectiveBeforeRegister
  | CollectiveParamsMismatch
  | UnknownRoot peer_id
  | GBroadcastNoTensor
  | GBroadcastMultipleTensors
  | InvalidTreeArity
  | DuplicatePeer peer_id
  | RingReduceImpossible
  | NotRegisteredOnFinish
  | PendingRegisterOnFinish
  | GRegisterParamsMismatch
  | DoubleRegister
  | AllReduceParamsMismatch
  | FirstMsgNotInit
  | InvalidMessage
  | PeerSentIncoherentTensor
  | PeerLost node_id
  | Server string
  | WrongOrchestratorResponse
  | OrchestratorUnreachable

datatype collective_error =
    InvalidConfig
  | MultipleUnregister
  | MultipleRegister
  | RegisterParamsMismatch
  | AllReduceShapeMismatch
  | AllReduceOperationMismatch
  | ReduceShapeMismatch
  | ReduceOperationMismatch
  | ReduceRootMismatch
  | BroadcastRootMismatch
  | BroadcastNoTensor
  | BroadcastMultipleTensors
  | LocalServerMissing
  | RegisterNotFirstOperation
  | Global global_collective_error
  | Other string

datatype collective_spec =
    SpecAllReduce reduce_operation all_reduce_strategy "nat list" dtype
  | SpecReduce peer_id reduce_operation reduce_strategy "nat list" dtype
  | SpecBroadcast broadcast_strategy "(nat list \<times> dtype) option"

datatype remote_request =
    RequestRegister address nat "peer_id list"
  | RequestBegin collective_spec
  | RequestFinish

datatype remote_response =
    ResponseRegister node_id "(node_id \<times> address) list" nat
  | ResponseBegin node_id nat
  | ResponseFinishAck
  | ResponseError global_collective_error

record collective_message_response =
  cr_request_id :: request_id
  cr_content :: remote_response

datatype collective_message = MessageInit session_id | MessageRequest request_id remote_request

end
