(* ===== verification/Rooted_Tree.thy ===== *)
theory Rooted_Tree
  imports Collective_Config
begin

text \<open>
  The trees of the global collectives: \<open>neighbors\<close> of \<^verbatim>\<open>src/global/node/rooted.rs\<close>, \<open>get_tree_topology\<close> of
  \<^verbatim>\<open>src/global/node/tree.rs\<close> and \<open>get_central_node\<close> of \<^verbatim>\<open>src/global/node/centralized.rs\<close>. The keys of
  the map of nodes are a list without repetition, in any order.
\<close>

section \<open>Definitions\<close>

definition tree_ids :: "node_id \<Rightarrow> node_id list \<Rightarrow> node_id list" where
  "tree_ids root nodes = root # sort (filter (\<lambda>n. n \<noteq> root) nodes)"

definition neighbors ::
  "node_id \<Rightarrow> node_id \<Rightarrow> node_id list \<Rightarrow> nat option \<Rightarrow> global_collective_error + node_id option \<times> node_id list" where
  "neighbors node root nodes arity =
     (if arity = Some 0 then Inl InvalidTreeArity
      else if root \<notin> set nodes then Inl CollectiveParamsMismatch
      else
        let ids = tree_ids root nodes in
        bind_r (ok_or (position (\<lambda>n. n = node) ids) CollectiveBeforeRegister) (\<lambda>i.
          let k = max (case arity of Some n \<Rightarrow> n | None \<Rightarrow> length ids) 1;
              parent = (if i \<noteq> 0 then Some (ids ! ((i - 1) div k)) else None);
              first = min (saturating_add 64 (saturating_mul 64 i k) 1) (length ids);
              last = min (saturating_add 64 first k) (length ids)
          in Inr (parent, take (last - first) (drop first ids))))"

definition get_central_node :: "node_id list \<Rightarrow> node_id" where
  "get_central_node nodes = hd (sort nodes)"

record tree_topology =
  tt_parents :: "node_id \<rightharpoonup> node_id"
  tt_children :: "node_id \<rightharpoonup> node_id list"

definition add_tree_node :: "node_id list \<Rightarrow> nat \<Rightarrow> nat \<times> node_id \<Rightarrow> tree_topology \<Rightarrow> tree_topology" where
  "add_tree_node nodes k = (\<lambda>(i, parent_id) t.
     let n = length nodes; first = i * k + 1 in
     if first < n then
       let last = min (first + k) n; ch = take (last - first) (drop first nodes)
       in \<lparr> tt_parents = fold (\<lambda>child_id parents. parents(child_id \<mapsto> parent_id)) ch (tt_parents t),
            tt_children = (tt_children t)(parent_id \<mapsto> ch) \<rparr>
     else t\<lparr> tt_children := (tt_children t)(parent_id \<mapsto> []) \<rparr>)"

text \<open>\<open>None\<close> is the failed assertion on the arity.\<close>

definition get_tree_topology :: "node_id list \<Rightarrow> nat \<Rightarrow> tree_topology option" where
  "get_tree_topology nodes arity =
     (if arity < 1 then None
      else let nodes = sort nodes
           in Some (fold (add_tree_node nodes arity) (enumerate 0 nodes) \<lparr> tt_parents = Map.empty, tt_children = Map.empty \<rparr>))"

section \<open>Shape of a complete tree\<close>

lemma tree_ids_props:
  assumes "distinct nodes" "root \<in> set nodes"
  shows "distinct (tree_ids root nodes)" "set (tree_ids root nodes) = set nodes" "length (tree_ids root nodes) = length nodes"
proof -
  show d: "distinct (tree_ids root nodes)" using assms by (auto simp: tree_ids_def)
  show s: "set (tree_ids root nodes) = set nodes" using assms by (auto simp: tree_ids_def)
  show "length (tree_ids root nodes) = length nodes"
    using d s assms(1) by (metis distinct_card)
qed

definition tree_width :: "nat option \<Rightarrow> nat \<Rightarrow> nat" where
  "tree_width arity n = max (case arity of Some k \<Rightarrow> k | None \<Rightarrow> n) 1"

definition children_at :: "'a list \<Rightarrow> nat \<Rightarrow> nat \<Rightarrow> 'a list" where
  "children_at ids k i = take (min (i * k + 1 + k) (length ids) - min (i * k + 1) (length ids)) (drop (min (i * k + 1) (length ids)) ids)"

lemma child_index: "0 < k \<Longrightarrow> i * k + 1 \<le> j \<and> j < i * k + 1 + k \<longleftrightarrow> j \<noteq> 0 \<and> (j - 1) div k = i" for i j k :: nat
proof (cases j)
  case (Suc m)
  assume k: "0 < k"
  have "m div k = i \<longleftrightarrow> i \<le> m div k \<and> m div k < Suc i" by auto
  also have "\<dots> \<longleftrightarrow> i * k \<le> m \<and> m < Suc i * k" using k by (simp only: less_eq_div_iff_mult_less_eq div_less_iff_less_mult)
  finally show ?thesis using Suc by auto
qed simp

lemma slice_nth: "a \<le> b \<Longrightarrow> b \<le> length xs \<Longrightarrow> take (b - a) (drop a xs) = map (\<lambda>j. xs ! j) [a..<b]"
  by (rule nth_equalityI) auto

lemma in_children_at:
  assumes "0 < k"
  shows "x \<in> set (children_at ids k i) \<longleftrightarrow> (\<exists>j < length ids. j \<noteq> 0 \<and> (j - 1) div k = i \<and> ids ! j = x)"
proof -
  let ?a = "min (i * k + 1) (length ids)" and ?b = "min (i * k + 1 + k) (length ids)"
  have "children_at ids k i = map (\<lambda>j. ids ! j) [?a..<?b]" unfolding children_at_def by (rule slice_nth) auto
  then have "set (children_at ids k i) = (\<lambda>j. ids ! j) ` {?a..<?b}" by simp
  also have "{?a..<?b} = {j. j < length ids \<and> i * k + 1 \<le> j \<and> j < i * k + 1 + k}" by auto
  finally show ?thesis unfolding child_index[OF assms, of i] by auto
qed

lemma distinct_children_at: "distinct ids \<Longrightarrow> distinct (children_at ids k i)"
  by (simp add: children_at_def)

lemma neighbors_eq:
  assumes "distinct nodes" "root \<in> set nodes" "arity \<noteq> Some 0" "length nodes < 2 ^ 64"
    and i: "i < length nodes" "tree_ids root nodes ! i = node"
  shows "neighbors node root nodes arity =
    (let k = tree_width arity (length nodes); ids = tree_ids root nodes
     in Inr ((if i \<noteq> 0 then Some (ids ! ((i - 1) div k)) else None), children_at ids k i))"
proof -
  note ids = tree_ids_props[OF assms(1,2)]
  define ids' where "ids' = tree_ids root nodes"
  have len: "length ids' = length nodes" using ids(3) by (simp add: ids'_def)
  have "position (\<lambda>n. n = node) ids' = Some i"
  proof (cases "position (\<lambda>n. n = node) ids'")
    case None
    then show ?thesis using i len unfolding position_None ids'_def[symmetric] by (metis nth_mem)
  next
    case (Some j)
    from position_Some[OF this] show ?thesis
      using Some i ids(1) len unfolding ids'_def[symmetric] by (metis nth_eq_iff_index_eq)
  qed
  moreover have "min (saturating_add 64 (saturating_mul 64 i k) 1) (length nodes) = min (i * k + 1) (length nodes)"
    "min (saturating_add 64 (min (i * k + 1) (length nodes)) k) (length nodes) = min (i * k + 1 + k) (length nodes)" for k
    using assms(4) by (auto simp: saturating_add_def saturating_mul_def min_def)
  ultimately show ?thesis
    using assms(2,3) len unfolding neighbors_def ids'_def[symmetric]
    by (simp add: Let_def ok_or_def tree_width_def children_at_def cong: option.case_cong)
qed

section \<open>The tree of the all-reduce\<close>

definition tree_built :: "node_id list \<Rightarrow> nat \<Rightarrow> nat \<Rightarrow> tree_topology \<Rightarrow> bool" where
  "tree_built ns k m t \<longleftrightarrow>
     (\<forall>i < m. tt_children t (ns ! i) = Some (children_at ns k i)) \<and>
     (\<forall>x p. tt_parents t x = Some p \<longleftrightarrow>
        (\<exists>j < length ns. j \<noteq> 0 \<and> (j - 1) div k < m \<and> ns ! j = x \<and> ns ! ((j - 1) div k) = p))"

lemma fold_parents:
  "fold (\<lambda>c parents. parents(c \<mapsto> p)) cs m x = (if x \<in> set cs then Some p else m x)"
  by (induction cs arbitrary: m) auto

lemma add_tree_node_fields:
  "tt_children (add_tree_node ns k (i, p) t) = (tt_children t)(p \<mapsto> children_at ns k i)"
  "tt_parents (add_tree_node ns k (i, p) t) x = (if x \<in> set (children_at ns k i) then Some p else tt_parents t x)"
  by (simp_all add: add_tree_node_def children_at_def Let_def fold_parents min_def)

lemma tree_built_fold:
  assumes "distinct ns" "0 < k" "m \<le> length ns"
  shows "tree_built ns k m (fold (add_tree_node ns k) (map (\<lambda>i. (i, ns ! i)) [0..<m]) \<lparr> tt_parents = Map.empty, tt_children = Map.empty \<rparr>)"
  using assms(3)
proof (induction m)
  case (Suc m)
  define t where "t = fold (add_tree_node ns k) (map (\<lambda>i. (i, ns ! i)) [0..<m]) \<lparr> tt_parents = Map.empty, tt_children = Map.empty \<rparr>"
  have IH: "tree_built ns k m t" and m: "m < length ns" using Suc by (simp_all add: t_def)
  let ?t = "add_tree_node ns k (m, ns ! m) t"
  have "tt_children ?t (ns ! i) = Some (children_at ns k i)" if "i < Suc m" for i
    using that IH m assms(1) by (cases "i = m") (auto simp: add_tree_node_fields tree_built_def nth_eq_iff_index_eq)
  moreover have "tt_parents ?t x = Some p \<longleftrightarrow>
      (\<exists>j < length ns. j \<noteq> 0 \<and> (j - 1) div k < Suc m \<and> ns ! j = x \<and> ns ! ((j - 1) div k) = p)" for x p
  proof (cases "x \<in> set (children_at ns k m)")
    case True
    then obtain j where j: "j < length ns" "j \<noteq> 0" "(j - 1) div k = m" "ns ! j = x"
      unfolding in_children_at[OF assms(2)] by blast
    have "j' = j" if "j' < length ns" "ns ! j' = x" for j' using that j assms(1) by (metis nth_eq_iff_index_eq)
    then have "(\<exists>j' < length ns. j' \<noteq> 0 \<and> (j' - 1) div k < Suc m \<and> ns ! j' = x \<and> ns ! ((j' - 1) div k) = p) \<longleftrightarrow> ns ! m = p"
      using j by (metis less_Suc_eq)
    with True show ?thesis by (simp add: add_tree_node_fields)
  next
    case False
    then have "(j - 1) div k < Suc m \<longleftrightarrow> (j - 1) div k < m" if "j < length ns" "j \<noteq> 0" "ns ! j = x" for j
      using that in_children_at[OF assms(2), of x ns m] less_Suc_eq by blast
    moreover have "tt_parents ?t x = tt_parents t x" using False by (simp add: add_tree_node_fields)
    moreover have "tt_parents t x = Some p \<longleftrightarrow>
        (\<exists>j < length ns. j \<noteq> 0 \<and> (j - 1) div k < m \<and> ns ! j = x \<and> ns ! ((j - 1) div k) = p)"
      using IH unfolding tree_built_def by blast
    ultimately show ?thesis by metis
  qed
  ultimately show ?case by (simp add: tree_built_def t_def)
qed (simp add: tree_built_def)

lemma get_tree_topology_built:
  assumes "distinct nodes" "0 < k" "get_tree_topology nodes k = Some t"
  shows "tree_built (sort nodes) k (length nodes) t"
proof -
  have "enumerate 0 (sort nodes) = map (\<lambda>i. (i, sort nodes ! i)) [0..<length nodes]"
    by (rule nth_equalityI) (simp_all add: nth_enumerate_eq)
  then show ?thesis using assms(2,3) tree_built_fold[of "sort nodes" k "length nodes"] assms(1)
    by (simp add: get_tree_topology_def Let_def split: if_splits)
qed

lemma sorted_tree_ids:
  assumes "distinct nodes" "nodes \<noteq> []"
  shows "tree_ids (get_central_node nodes) nodes = sort nodes"
proof -
  obtain x xs where x: "sort nodes = x # xs" using assms(2) by (cases "sort nodes") (auto dest: arg_cong[of _ _ length])
  have "distinct (x # xs)" using assms(1) x distinct_sort by metis
  then have "filter (\<lambda>n. n \<noteq> x) (x # xs) = xs" by (auto simp: filter_id_conv)
  then have "sort (filter (\<lambda>n. n \<noteq> x) nodes) = xs" unfolding filter_sort[symmetric] x .
  then show ?thesis by (simp add: tree_ids_def get_central_node_def x)
qed

section \<open>Properties\<close>

definition tree_parent :: "node_id \<Rightarrow> node_id list \<Rightarrow> nat option \<Rightarrow> (node_id \<times> node_id) set" where
  "tree_parent root nodes arity = {(node, parent). \<exists>children. neighbors node root nodes arity = Inr (Some parent, children)}"

lemma reaches_root:
  assumes "distinct nodes" "root \<in> set nodes" "arity \<noteq> Some 0" "length nodes < 2 ^ 64" "i < length nodes"
  shows "(tree_ids root nodes ! i, root) \<in> (tree_parent root nodes arity)\<^sup>*"
  using assms(5)
proof (induction i rule: less_induct)
  case (less i)
  show ?case
  proof (cases "i = 0")
    case True
    then show ?thesis by (simp add: tree_ids_def)
  next
    case False
    let ?p = "(i - 1) div tree_width arity (length nodes)"
    have p: "?p < i" using False by (metis div_le_dividend diff_less le_less_trans less_one neq0_conv)
    have "(tree_ids root nodes ! i, tree_ids root nodes ! ?p) \<in> tree_parent root nodes arity"
      using neighbors_eq[OF assms(1-4) less.prems refl] False by (simp add: tree_parent_def Let_def)
    moreover have "(tree_ids root nodes ! ?p, root) \<in> (tree_parent root nodes arity)\<^sup>*" using less p by simp
    ultimately show ?thesis by (rule converse_rtrancl_into_rtrancl)
  qed
qed

lemma tree_topology_is_rooted:
  assumes "distinct nodes" "nodes \<noteq> []" "0 < k" "length nodes < 2 ^ 64" "get_tree_topology nodes k = Some t" "node \<in> set nodes"
  shows "\<exists>cs. neighbors node (get_central_node nodes) nodes (Some k) = Inr (tt_parents t node, cs) \<and> tt_children t node = Some cs"
proof -
  note ids = sorted_tree_ids[OF assms(1,2)]
  have root: "get_central_node nodes \<in> set nodes"
    using assms(2) by (metis get_central_node_def hd_in_set list.size(3) length_sort length_0_conv set_sort)
  obtain i where i: "i < length nodes" "sort nodes ! i = node" using assms(6) by (metis in_set_conv_nth length_sort set_sort)
  have w: "tree_width (Some k) (length nodes) = k" using assms(3) by (simp add: tree_width_def)
  have b: "tree_built (sort nodes) k (length nodes) t" by (rule get_tree_topology_built[OF assms(1,3,5)])
  have p: "tt_parents t node = Some p \<longleftrightarrow> i \<noteq> 0 \<and> sort nodes ! ((i - 1) div k) = p" for p
  proof -
    have "j = i" if "j < length nodes" "sort nodes ! j = node" for j
      using that i assms(1) by (metis distinct_sort length_sort nth_eq_iff_index_eq)
    moreover have "(j - 1) div k < length nodes" if "j < length nodes" for j
      using that by (meson div_le_dividend diff_le_self le_less_trans le_trans)
    ultimately show ?thesis using b i unfolding tree_built_def length_sort by metis
  qed
  have "neighbors node (get_central_node nodes) nodes (Some k) =
      Inr ((if i \<noteq> 0 then Some (sort nodes ! ((i - 1) div k)) else None), children_at (sort nodes) k i)"
    using neighbors_eq[OF assms(1) root _ assms(4) i(1), of "Some k" node] ids i(2) w assms(3) by (simp add: Let_def)
  moreover have "tt_parents t node = (if i \<noteq> 0 then Some (sort nodes ! ((i - 1) div k)) else None)"
    using p by (cases "tt_parents t node") auto
  moreover have "tt_children t node = Some (children_at (sort nodes) k i)" using b i by (auto simp: tree_built_def)
  ultimately show ?thesis by simp
qed

text \<open>C31. The rooted collectives run on a tree: for every root, every arity but zero and any number of nodes, each
  node gets its neighbours, only the root has no parent, the children of a node are exactly the
  nodes that call it their parent, none is listed twice, and following parents leads every node to
  the root.\<close>

theorem rooted_tree_spans:
  assumes "distinct nodes" "root \<in> set nodes" "arity \<noteq> Some 0" "length nodes < 2 ^ 64"
  shows "(\<forall>a \<in> set nodes. \<exists>p cs. neighbors a root nodes arity = Inr (p, cs) \<and> (p = None \<longleftrightarrow> a = root) \<and> distinct cs \<and>
       (\<forall>b. b \<in> set cs \<longleftrightarrow> b \<in> set nodes \<and> (b, a) \<in> tree_parent root nodes arity) \<and>
       (a, root) \<in> (tree_parent root nodes arity)\<^sup>*)"
proof
  fix a assume "a \<in> set nodes"
  note ids = tree_ids_props[OF assms(1,2)]
  let ?ids = "tree_ids root nodes" and ?k = "tree_width arity (length nodes)"
  have k: "0 < ?k" by (simp add: tree_width_def)
  obtain i where i: "i < length nodes" "?ids ! i = a" using \<open>a \<in> set nodes\<close> ids(2,3) by (metis in_set_conv_nth)
  have n: "neighbors (?ids ! j) root nodes arity =
      Inr ((if j \<noteq> 0 then Some (?ids ! ((j - 1) div ?k)) else None), children_at ?ids ?k j)" if "j < length nodes" for j
    using neighbors_eq[OF assms that refl] by (simp add: Let_def)
  have root: "i = 0 \<longleftrightarrow> a = root"
  proof -
    have "?ids ! 0 = root" "0 < length nodes" using assms(2) by (auto simp: tree_ids_def)
    then show ?thesis using i ids(1,3) by (metis nth_eq_iff_index_eq)
  qed
  have "b \<in> set (children_at ?ids ?k i) \<longleftrightarrow> b \<in> set nodes \<and> (b, a) \<in> tree_parent root nodes arity" for b
  proof
    assume "b \<in> set (children_at ?ids ?k i)"
    then obtain j where j: "j < length nodes" "j \<noteq> 0" "(j - 1) div ?k = i" "?ids ! j = b" using in_children_at[OF k] ids(3) by metis
    then show "b \<in> set nodes \<and> (b, a) \<in> tree_parent root nodes arity"
      using n[OF j(1)] i ids(2,3) nth_mem[of j ?ids] by (simp add: tree_parent_def)
  next
    assume b: "b \<in> set nodes \<and> (b, a) \<in> tree_parent root nodes arity"
    then obtain j where j: "j < length nodes" "?ids ! j = b" using ids(2,3) by (metis in_set_conv_nth)
    with b n[OF j(1)] have ne: "j \<noteq> 0" and "?ids ! ((j - 1) div ?k) = a" by (auto simp: tree_parent_def split: if_splits)
    moreover have "(j - 1) div ?k < length nodes" using j(1) ne by (meson div_le_dividend diff_le_self le_less_trans le_trans)
    ultimately have "(j - 1) div ?k = i" using i ids(1,3) by (metis nth_eq_iff_index_eq)
    then show "b \<in> set (children_at ?ids ?k i)" using in_children_at[OF k] j ne ids(3) by metis
  qed
  then show "\<exists>p cs. neighbors a root nodes arity = Inr (p, cs) \<and> (p = None \<longleftrightarrow> a = root) \<and> distinct cs \<and>
       (\<forall>b. b \<in> set cs \<longleftrightarrow> b \<in> set nodes \<and> (b, a) \<in> tree_parent root nodes arity) \<and>
       (a, root) \<in> (tree_parent root nodes arity)\<^sup>*"
    using n[OF i(1)] root distinct_children_at[OF ids(1)] reaches_root[OF assms i(1)] unfolding i(2) by auto
qed

theorem rooted_tree_spans_witness:
  "(3, 2) \<in> (tree_parent 2 [3, 1, 2] (Some 1))\<^sup>* \<and> neighbors 2 2 [3, 1, 2] (Some 1) = Inr (None, [1])"
proof
  have "distinct [3, 1, 2 :: nat]" "2 \<in> set [3, 1, 2 :: nat]" "Some 1 \<noteq> Some (0 :: nat)" "length [3, 1, 2 :: nat] < 2 ^ 64" by simp_all
  note h = this
  from rooted_tree_spans[OF h] have all: "\<forall>a \<in> set [3, 1, 2]. (a, 2) \<in> (tree_parent 2 [3, 1, 2] (Some 1))\<^sup>*" by blast
  show "(3, 2) \<in> (tree_parent 2 [3, 1, 2] (Some 1))\<^sup>*" by (rule bspec[OF all]) simp
  show "neighbors 2 2 [3, 1, 2] (Some 1) = Inr (None, [1])"
    using neighbors_eq[OF h, of 0 2] by (simp add: tree_ids_def tree_width_def children_at_def Let_def)
qed

end
