(* ===== verification/Orchestrator.thy ===== *)
theory Orchestrator
  imports Collective_Config "HOL-Library.AList"
begin

text \<open>
  The global orchestrator: \<open>GlobalCollectiveState\<close> of \<^verbatim>\<open>src/global/orchestrator/state.rs\<close> with the dispatch of
  one request socket from \<^verbatim>\<open>src/global/orchestrator/base.rs\<close>. Hash maps are association lists with
  distinct keys; nothing below depends on their order. Time limits and the WebSocket server are
  outside; a request runs under the state's lock and is one step.
\<close>

section \<open>State\<close>

definition RESPONSE_QUEUE_CAPACITY :: nat where "RESPONSE_QUEUE_CAPACITY = 64"

text \<open>A session's bounded response channel. \<open>se_closed\<close>: the receiving half was dropped.\<close>

record session =
  se_queue :: "collective_message_response list"
  se_receiver_taken :: bool
  se_closed :: bool

record global_collective_state =
  gs_registered_nodes :: "(session_id \<times> node_id) list"
  gs_node_addresses :: "(node_id \<times> address) list"
  gs_node_peers :: "(node_id \<times> peer_id list) list"
  gs_cur_num_nodes :: "nat option"
  gs_num_global_peers :: nat
  gs_register_requests :: "(session_id \<times> request_id \<times> node_id) list"
  gs_sessions :: "(session_id \<times> session) list"
  gs_pending_collectives :: "(session_id \<times> request_id \<times> collective_spec) list"
  gs_next_transfer_id :: nat
  gs_next_node_id :: nat
  gs_failed :: "global_collective_error option"

definition session_new :: session where
  "session_new = \<lparr> se_queue = [], se_receiver_taken = False, se_closed = False \<rparr>"

definition orchestrator_new :: global_collective_state where
  "orchestrator_new =
     \<lparr> gs_registered_nodes = [], gs_node_addresses = [], gs_node_peers = [], gs_cur_num_nodes = None,
       gs_num_global_peers = 0, gs_register_requests = [], gs_sessions = [], gs_pending_collectives = [],
       gs_next_transfer_id = 2, gs_next_node_id = 0, gs_failed = None \<rparr>"

text \<open>\<open>try_send\<close>: a full or closed queue drops the response with a warning.\<close>

definition session_respond :: "collective_message_response \<Rightarrow> session \<Rightarrow> session" where
  "session_respond response s =
     (if se_closed s \<or> length (se_queue s) \<ge> RESPONSE_QUEUE_CAPACITY then s
      else s\<lparr> se_queue := se_queue s @ [response] \<rparr>)"

definition deliver :: "session_id \<Rightarrow> collective_message_response \<Rightarrow> (session_id \<times> session) list \<Rightarrow> (session_id \<times> session) list" where
  "deliver sid response sessions =
     (case map_of sessions sid of
        Some s \<Rightarrow> AList.update sid (session_respond response s) sessions
      | None \<Rightarrow> sessions)"

definition respond :: "session_id \<Rightarrow> request_id \<Rightarrow> remote_response \<Rightarrow> global_collective_state \<Rightarrow> global_collective_state" where
  "respond sid rid content st =
     st\<lparr> gs_sessions := deliver sid \<lparr> cr_request_id = rid, cr_content = content \<rparr> (gs_sessions st) \<rparr>"

text \<open>The loops that answer every taken request with one content.\<close>

definition respond_all ::
  "(session_id \<times> request_id \<times> 'a) list \<Rightarrow> remote_response \<Rightarrow> global_collective_state \<Rightarrow> global_collective_state" where
  "respond_all requests content = fold (\<lambda>(sid, rid, _). respond sid rid content) requests"

definition init_session :: "session_id \<Rightarrow> global_collective_state \<Rightarrow> global_collective_state" where
  "init_session sid st =
     (if sid \<in> set (map fst (gs_sessions st)) then st
      else st\<lparr> gs_sessions := AList.update sid session_new (gs_sessions st) \<rparr>)"

definition get_session_responder ::
  "session_id \<Rightarrow> global_collective_state \<Rightarrow> global_collective_state \<times> (global_collective_error + unit)" where
  "get_session_responder sid st =
     (let st = init_session sid st in
      case map_of (gs_sessions st) sid of
        None \<Rightarrow> (st, Inl InvalidMessage)
      | Some s \<Rightarrow>
          (st\<lparr> gs_sessions := AList.update sid (s\<lparr> se_receiver_taken := True \<rparr>) (gs_sessions st) \<rparr>,
           if se_receiver_taken s then Inl InvalidMessage else Inr ()))"

section \<open>Requests\<close>

text \<open>\<open>u32\<close> sums: the total of the peers wraps.\<close>

definition count_peers :: "(node_id \<times> peer_id list) list \<Rightarrow> nat" where
  "count_peers peers = sum_list (map (\<lambda>(_, ps). length ps) peers) mod 2 ^ 32"

definition forget_node :: "node_id \<Rightarrow> global_collective_state \<Rightarrow> global_collective_state" where
  "forget_node node st =
     (let peers = AList.delete node (gs_node_peers st) in
      st\<lparr> gs_node_addresses := AList.delete node (gs_node_addresses st), gs_node_peers := peers,
          gs_num_global_peers := count_peers peers \<rparr>)"

definition reset_if_empty :: "global_collective_state \<Rightarrow> global_collective_state" where
  "reset_if_empty st =
     (if gs_registered_nodes st = []
      then st\<lparr> gs_cur_num_nodes := None, gs_next_node_id := 0, gs_failed := None \<rparr> else st)"

definition fail_pending :: "global_collective_error \<Rightarrow> global_collective_state \<Rightarrow> global_collective_state" where
  "fail_pending e st = respond_all (gs_pending_collectives st) (ResponseError e) (st\<lparr> gs_pending_collectives := [] \<rparr>)"

definition fail_registers :: "global_collective_error \<Rightarrow> global_collective_state \<Rightarrow> global_collective_state" where
  "fail_registers e st = respond_all (gs_register_requests st) (ResponseError e) (st\<lparr> gs_register_requests := [] \<rparr>)"

definition disconnect :: "session_id \<Rightarrow> global_collective_state \<Rightarrow> global_collective_state" where
  "disconnect sid st =
     (let st = (case map_of (gs_registered_nodes st) sid of
          None \<Rightarrow> st
        | Some node \<Rightarrow>
            let st = st\<lparr> gs_registered_nodes := AList.delete sid (gs_registered_nodes st) \<rparr>;
                st = forget_node node st;
                st = st\<lparr> gs_failed := Some (PeerLost node) \<rparr>
            in fail_registers (PeerLost node) (fail_pending (PeerLost node) st));
          st = st\<lparr> gs_sessions := AList.delete sid (gs_sessions st) \<rparr>
      in reset_if_empty st)"

definition finish :: "session_id \<Rightarrow> request_id \<Rightarrow> global_collective_state \<Rightarrow> global_collective_state \<times> global_collective_error option" where
  "finish sid rid st =
     (case map_of (gs_registered_nodes st) sid of
        None \<Rightarrow> (st, Some NotRegisteredOnFinish)
      | Some node \<Rightarrow>
          let st = st\<lparr> gs_registered_nodes := AList.delete sid (gs_registered_nodes st) \<rparr>;
              st = forget_node node (st\<lparr> gs_failed := Some (PeerLost node) \<rparr>);
              st = reset_if_empty (fail_pending (PeerLost node) st);
              st = fail_registers (PeerLost node) st
          in (respond sid rid ResponseFinishAck st, None))"

text \<open>The loop over the new peers: the first one that repeats or that another node has.\<close>

fun check_peers :: "(node_id \<times> peer_id list) list \<Rightarrow> peer_id list \<Rightarrow> peer_id list \<Rightarrow> global_collective_error option" where
  "check_peers known seen [] = None"
| "check_peers known seen (p # ps) =
     (if p \<in> set seen \<or> list_ex (\<lambda>(_, qs). p \<in> set qs) known then Some (DuplicatePeer p)
      else check_peers known (p # seen) ps)"

text \<open>The last part of a registration: the node gets its number, and when all nodes are there every waiting
  registration is answered. \<open>None\<close> is the panic on exhausted identifiers.\<close>

definition admit_node ::
  "session_id \<Rightarrow> request_id \<Rightarrow> address \<Rightarrow> nat \<Rightarrow> peer_id list \<Rightarrow> global_collective_state
     \<Rightarrow> (global_collective_state \<times> global_collective_error option) option" where
  "admit_node sid rid addr num_nodes peers st =
     (let st = st\<lparr> gs_num_global_peers := (gs_num_global_peers st + length peers) mod 2 ^ 32 \<rparr>;
          node = gs_next_node_id st
      in case checked_add 32 node 1 of
           None \<Rightarrow> None
         | Some next_node \<Rightarrow>
             let st = st\<lparr> gs_next_node_id := next_node, gs_registered_nodes := AList.update sid node (gs_registered_nodes st) \<rparr>
             in if addr \<in> set (map snd (gs_node_addresses st)) then Some (st, Some DoubleRegister)
                else
                  let st = st\<lparr> gs_node_addresses := AList.update node addr (gs_node_addresses st),
                               gs_node_peers := AList.update node peers (gs_node_peers st),
                               gs_register_requests := gs_register_requests st @ [(sid, rid, node)] \<rparr>
                  in if length (gs_registered_nodes st) = num_nodes
                     then let callbacks = gs_register_requests st; st = st\<lparr> gs_register_requests := [] \<rparr>
                          in Some (fold (\<lambda>(s, r, n). respond s r (ResponseRegister n (gs_node_addresses st) (gs_num_global_peers st)))
                                     callbacks st, None)
                     else Some (st, None))"

definition register ::
  "session_id \<Rightarrow> request_id \<Rightarrow> address \<Rightarrow> nat \<Rightarrow> peer_id list \<Rightarrow> global_collective_state
     \<Rightarrow> (global_collective_state \<times> global_collective_error option) option" where
  "register sid rid addr num_nodes peers st =
     (if num_nodes = 0 \<or> peers = [] then Some (st, Some GRegisterParamsMismatch)
      else if sid \<in> set (map fst (gs_registered_nodes st)) \<or> addr \<in> set (map snd (gs_node_addresses st))
      then Some (st, Some DoubleRegister)
      else if gs_registered_nodes st \<noteq> [] \<and> gs_register_requests st = [] then Some (st, Some GRegisterParamsMismatch)
      else case check_peers (gs_node_peers st) [] peers of
             Some e \<Rightarrow> Some (st, Some e)
           | None \<Rightarrow>
               (case gs_cur_num_nodes st of
                  Some cur \<Rightarrow> if cur \<noteq> num_nodes then Some (st, Some GRegisterParamsMismatch)
                               else admit_node sid rid addr num_nodes peers st
                | None \<Rightarrow> admit_node sid rid addr num_nodes peers (st\<lparr> gs_cur_num_nodes := Some num_nodes \<rparr>)))"

section \<open>Agreement on a collective\<close>

definition min_node :: "node_id list \<Rightarrow> node_id option" where
  "min_node nodes = (case nodes of [] \<Rightarrow> None | n # ns \<Rightarrow> Some (fold min ns n))"

text \<open>One iteration over the participants of a broadcast.\<close>

definition broadcast_source ::
  "broadcast_strategy \<Rightarrow> node_id \<times> collective_spec \<Rightarrow> node_id option \<Rightarrow> global_collective_error + node_id option" where
  "broadcast_source strategy = (\<lambda>(node, spec) source.
     case spec of
       SpecBroadcast other metadata \<Rightarrow>
         if strategy \<noteq> other then Inl CollectiveParamsMismatch
         else if metadata = None then Inr source
         else if source \<noteq> None then Inl GBroadcastMultipleTensors
         else Inr (Some node)
     | _ \<Rightarrow> Inl CollectiveParamsMismatch)"

definition agree_collective ::
  "(node_id \<times> collective_spec) list \<Rightarrow> (node_id \<times> peer_id list) list \<Rightarrow> global_collective_error + node_id" where
  "agree_collective specs peers =
     (case specs of
        [] \<Rightarrow> Inl CollectiveParamsMismatch
      | (_, first) # _ \<Rightarrow>
          (case first of
             SpecAllReduce _ strategy _ _ \<Rightarrow>
               if list_ex (\<lambda>(_, spec). spec \<noteq> first) specs then Inl CollectiveParamsMismatch
               else if strategy = ArTree 0 then Inl InvalidTreeArity
               else ok_or (min_node (map fst peers)) CollectiveBeforeRegister
           | SpecReduce root _ strategy _ _ \<Rightarrow>
               if list_ex (\<lambda>(_, spec). spec \<noteq> first) specs then Inl CollectiveParamsMismatch
               else if strategy = ReTree 0 then Inl InvalidTreeArity
               else ok_or (map_option fst (List.find (\<lambda>(_, ps). root \<in> set ps) peers)) (UnknownRoot root)
           | SpecBroadcast strategy _ \<Rightarrow>
               if strategy = BcTree 0 then Inl InvalidTreeArity
               else bind_r (fold_r (broadcast_source strategy) specs None) (\<lambda>source. ok_or source GBroadcastNoTensor)))"

text \<open>\<open>None\<close> is a panic: a waiting session without a node, or exhausted transfer identifiers.\<close>

definition begin_collective ::
  "session_id \<Rightarrow> request_id \<Rightarrow> collective_spec \<Rightarrow> global_collective_state
     \<Rightarrow> (global_collective_state \<times> global_collective_error option) option" where
  "begin_collective sid rid spec st =
     (if sid \<notin> set (map fst (gs_registered_nodes st)) \<or> gs_register_requests st \<noteq> [] \<or>
         length (gs_registered_nodes st) \<noteq> (case gs_cur_num_nodes st of Some n \<Rightarrow> n | None \<Rightarrow> 0)
      then Some (st, Some CollectiveBeforeRegister)
      else if sid \<in> set (map fst (gs_pending_collectives st)) then Some (st, Some CollectiveParamsMismatch)
      else
        let requests = gs_pending_collectives st @ [(sid, rid, spec)] in
        if length requests \<noteq> length (gs_registered_nodes st) then Some (st\<lparr> gs_pending_collectives := requests \<rparr>, None)
        else let st = st\<lparr> gs_pending_collectives := [] \<rparr> in
          case traverse_o (\<lambda>(s, _, spec). map_option (\<lambda>n. (n, spec)) (map_of (gs_registered_nodes st) s)) requests of
            None \<Rightarrow> None
          | Some specs \<Rightarrow>
              (case agree_collective specs (gs_node_peers st) of
                 Inl e \<Rightarrow> Some (respond_all requests (ResponseError e) st, None)
               | Inr root_node \<Rightarrow>
                   (case checked_add 64 (gs_next_transfer_id st) 1 of
                      None \<Rightarrow> None
                    | Some next_id \<Rightarrow>
                        Some (respond_all requests (ResponseBegin root_node (gs_next_transfer_id st))
                                (st\<lparr> gs_next_transfer_id := next_id \<rparr>), None))))"

definition process_request ::
  "session_id \<Rightarrow> request_id \<Rightarrow> remote_request \<Rightarrow> global_collective_state \<Rightarrow> global_collective_state option" where
  "process_request sid rid request st =
     (if gs_failed st \<noteq> None \<and> request \<noteq> RequestFinish
      then Some (respond sid rid (ResponseError (the (gs_failed st))) st)
      else case (case request of
                   RequestRegister addr num_nodes peers \<Rightarrow> register sid rid addr num_nodes peers st
                 | RequestBegin spec \<Rightarrow> begin_collective sid rid spec st
                 | RequestFinish \<Rightarrow> Some (finish sid rid st)) of
             None \<Rightarrow> None
           | Some (st, None) \<Rightarrow> Some st
           | Some (st, Some err) \<Rightarrow> Some (respond sid rid (ResponseError err) st))"

text \<open>One message of \<open>handle_socket_request\<close>; the socket remembers its session. \<open>message = None\<close> is a packet that does
  not decode. The error closes the socket.\<close>

definition request_message ::
  "session_id option \<Rightarrow> collective_message option \<Rightarrow> global_collective_state
     \<Rightarrow> (global_collective_error + session_id option \<times> global_collective_state) option" where
  "request_message session message st =
     (case message of
        None \<Rightarrow> Some (Inl InvalidMessage)
      | Some (MessageInit sid) \<Rightarrow>
          Some (if session \<noteq> None then Inl InvalidMessage else Inr (Some sid, init_session sid st))
      | Some (MessageRequest rid request) \<Rightarrow>
          (case session of
             None \<Rightarrow> Some (Inl FirstMsgNotInit)
           | Some sid \<Rightarrow> map_option (\<lambda>st. Inr (session, st)) (process_request sid rid request st)))"

section \<open>Steps\<close>

text \<open>The response task of a session takes the oldest response, or ends and drops the receiver.\<close>

definition take_response :: "session_id \<Rightarrow> global_collective_state \<Rightarrow> global_collective_state" where
  "take_response sid st =
     (case map_of (gs_sessions st) sid of
        None \<Rightarrow> st
      | Some s \<Rightarrow> st\<lparr> gs_sessions := AList.update sid (s\<lparr> se_queue := tl (se_queue s) \<rparr>) (gs_sessions st) \<rparr>)"

definition drop_receiver :: "session_id \<Rightarrow> global_collective_state \<Rightarrow> global_collective_state" where
  "drop_receiver sid st =
     (case map_of (gs_sessions st) sid of
        None \<Rightarrow> st
      | Some s \<Rightarrow> st\<lparr> gs_sessions := AList.update sid (s\<lparr> se_queue := [], se_closed := True \<rparr>) (gs_sessions st) \<rparr>)"

inductive orch_step :: "global_collective_state \<Rightarrow> global_collective_state \<Rightarrow> bool" where
  step_init: "orch_step st (init_session sid st)"
| step_responder: "orch_step st (fst (get_session_responder sid st))"
| step_request: "process_request sid rid request st = Some st' \<Longrightarrow> orch_step st st'"
| step_disconnect: "orch_step st (disconnect sid st)"
| step_take: "orch_step st (take_response sid st)"
| step_drop: "orch_step st (drop_receiver sid st)"

inductive orch_reachable :: "global_collective_state \<Rightarrow> bool" where
  reach_new: "orch_reachable orchestrator_new"
| reach_step: "orch_reachable st \<Longrightarrow> orch_step st st' \<Longrightarrow> orch_reachable st'"

section \<open>Invariant\<close>

text \<open>Membership: sessions, nodes, addresses and peers belong together.\<close>

definition members_ok :: "global_collective_state \<Rightarrow> bool" where
  "members_ok st \<longleftrightarrow>
     (let reg = gs_registered_nodes st; addresses = gs_node_addresses st; peers = gs_node_peers st in
      distinct (map fst reg) \<and> distinct (map snd reg) \<and>
      distinct (map fst addresses) \<and> set (map fst addresses) = set (map snd reg) \<and> distinct (map snd addresses) \<and>
      distinct (map fst peers) \<and> set (map fst peers) = set (map snd reg) \<and>
      distinct (concat (map snd peers)) \<and> [] \<notin> set (map snd peers) \<and>
      gs_num_global_peers st = count_peers peers \<and> (\<forall>n \<in> set (map snd reg). n < gs_next_node_id st))"

text \<open>Phases: empty, poisoned by a lost node, complete, or still registering.\<close>

definition phase_ok :: "global_collective_state \<Rightarrow> bool" where
  "phase_ok st \<longleftrightarrow>
     (if gs_registered_nodes st = []
      then gs_cur_num_nodes st = None \<and> gs_failed st = None \<and> gs_register_requests st = [] \<and> gs_pending_collectives st = []
      else if gs_failed st \<noteq> None then gs_register_requests st = [] \<and> gs_pending_collectives st = []
      else \<exists>n. gs_cur_num_nodes st = Some n \<and>
        (gs_register_requests st = [] \<and> length (gs_registered_nodes st) = n \<and> length (gs_pending_collectives st) < n \<or>
         gs_register_requests st \<noteq> [] \<and> length (gs_registered_nodes st) < n \<and> gs_pending_collectives st = []))"

definition requests_ok :: "global_collective_state \<Rightarrow> bool" where
  "requests_ok st \<longleftrightarrow>
     distinct (map fst (gs_pending_collectives st)) \<and>
     set (map fst (gs_pending_collectives st)) \<subseteq> set (map fst (gs_registered_nodes st)) \<and>
     (gs_register_requests st \<noteq> [] \<longrightarrow>
        map (\<lambda>(s, _, n). (s, n)) (gs_register_requests st) = gs_registered_nodes st) \<and>
     2 \<le> gs_next_transfer_id st"

definition orch_ok :: "global_collective_state \<Rightarrow> bool" where
  "orch_ok st \<longleftrightarrow> members_ok st \<and> phase_ok st \<and> requests_ok st"

lemmas orch_ok_defs = orch_ok_def members_ok_def phase_ok_def requests_ok_def Let_def

lemma orch_ok_sessions [simp]: "orch_ok (st\<lparr> gs_sessions := x \<rparr>) \<longleftrightarrow> orch_ok st"
  by (simp add: orch_ok_defs)

lemma respond_sessions: "respond sid rid c st = st\<lparr> gs_sessions := deliver sid \<lparr> cr_request_id = rid, cr_content = c \<rparr> (gs_sessions st) \<rparr>"
  by (simp add: respond_def)

lemma respond_update: "(respond sid rid c st)\<lparr> gs_sessions := x \<rparr> = st\<lparr> gs_sessions := x \<rparr>"
  by (simp add: respond_def)

lemma fold_respond_sessions: "\<exists>x. fold (\<lambda>q. respond (a q) (b q) (c q)) requests st = st\<lparr> gs_sessions := x \<rparr>"
proof (induction requests arbitrary: st)
  case Nil
  show ?case by (rule exI[of _ "gs_sessions st"]) simp
next
  case (Cons q qs)
  obtain x where "fold (\<lambda>q. respond (a q) (b q) (c q)) qs (respond (a q) (b q) (c q) st) = (respond (a q) (b q) (c q) st)\<lparr> gs_sessions := x \<rparr>"
    using Cons by blast
  then show ?case by (intro exI[of _ x]) (simp add: respond_update)
qed

lemma respond_all_sessions: "\<exists>x. respond_all requests content st = st\<lparr> gs_sessions := x \<rparr>"
  using fold_respond_sessions[of fst "\<lambda>q. fst (snd q)" "\<lambda>_. content" requests st] by (simp add: respond_all_def case_prod_unfold)

lemma respond_ok [simp]: "orch_ok (respond sid rid c st) \<longleftrightarrow> orch_ok st" "orch_ok (respond_all requests c' st) \<longleftrightarrow> orch_ok st"
  using respond_all_sessions[of requests c' st] by (auto simp: respond_def)

lemma new_ok: "orch_ok orchestrator_new"
  by (simp add: orch_ok_defs orchestrator_new_def count_peers_def)

lemma session_steps_ok:
  "orch_ok st \<Longrightarrow> orch_ok (init_session sid st)" "orch_ok st \<Longrightarrow> orch_ok (fst (get_session_responder sid st))"
  "orch_ok st \<Longrightarrow> orch_ok (take_response sid st)" "orch_ok st \<Longrightarrow> orch_ok (drop_receiver sid st)"
  by (simp_all add: init_session_def get_session_responder_def take_response_def drop_receiver_def Let_def split: option.splits)

subsection \<open>Losing a node\<close>

lemma delete_pairs:
  assumes "distinct (map fst al)" "distinct (map snd al)" "map_of al k = Some v"
  shows "distinct (map fst (AList.delete k al))" "distinct (map snd (AList.delete k al))"
    "set (map snd (AList.delete k al)) = set (map snd al) - {v}" "set (map fst (AList.delete k al)) = set (map fst al) - {k}"
    "length (AList.delete k al) = length al - 1"
proof -
  have kv: "(k, v) \<in> set al" using assms(3) by (rule map_of_SomeD)
  show "distinct (map fst (AList.delete k al))" using assms(1) by (rule distinct_delete)
  show "distinct (map snd (AList.delete k al))" using assms(2) unfolding AList.delete_eq by (rule distinct_map_filter)
  have "y = v" if "(k, y) \<in> set al" for y using that assms(1,3) by simp
  moreover have "x = k" if "(x, v) \<in> set al" for x using that kv assms(2) by (metis distinct_map inj_onD snd_conv prod.inject)
  ultimately have "(\<exists>x. (x, y) \<in> set al \<and> k \<noteq> x) \<longleftrightarrow> (\<exists>x. (x, y) \<in> set al) \<and> y \<noteq> v" for y by blast
  then show "set (map snd (AList.delete k al)) = set (map snd al) - {v}" unfolding AList.delete_eq set_eq_iff by (simp add: image_iff Bex_def)
  show keys: "set (map fst (AList.delete k al)) = set (map fst al) - {k}" unfolding AList.delete_eq by force
  have "k \<in> set (map fst al)" using kv by force
  then have "card (set (map fst (AList.delete k al))) = card (set (map fst al)) - 1" unfolding keys by (rule card_Diff_singleton)
  then show "length (AList.delete k al) = length al - 1"
    using assms(1) distinct_delete[OF assms(1), of k] by (simp only: distinct_card length_map)
qed

lemma concat_delete_distinct:
  "distinct (concat (map snd al)) \<Longrightarrow> distinct (concat (map snd (AList.delete k al)))"
  by (induction al) (auto simp: AList.delete_eq)

lemma members_ok_fields:
  "members_ok (st\<lparr> gs_registered_nodes := reg, gs_node_addresses := addresses, gs_node_peers := peers,
     gs_num_global_peers := count_peers peers \<rparr>) \<longleftrightarrow>
     distinct (map fst reg) \<and> distinct (map snd reg) \<and>
     distinct (map fst addresses) \<and> set (map fst addresses) = set (map snd reg) \<and> distinct (map snd addresses) \<and>
     distinct (map fst peers) \<and> set (map fst peers) = set (map snd reg) \<and>
     distinct (concat (map snd peers)) \<and> [] \<notin> set (map snd peers) \<and>
     (\<forall>n \<in> set (map snd reg). n < gs_next_node_id st)"
  unfolding members_ok_def Let_def by simp

lemma lose_members:
  assumes "members_ok st" "map_of (gs_registered_nodes st) sid = Some node"
  shows "members_ok (forget_node node (st\<lparr> gs_registered_nodes := AList.delete sid (gs_registered_nodes st) \<rparr>))"
proof -
  note m = assms(1)[unfolded members_ok_def Let_def]
  have d: "distinct (map fst (gs_registered_nodes st))" "distinct (map snd (gs_registered_nodes st))"
    "distinct (map fst (gs_node_addresses st))" "distinct (map fst (gs_node_peers st))" "distinct (concat (map snd (gs_node_peers st)))"
    and s: "set (map fst (gs_node_addresses st)) = set (map snd (gs_registered_nodes st))"
    "set (map fst (gs_node_peers st)) = set (map snd (gs_registered_nodes st))"
    and b: "\<forall>n \<in> set (map snd (gs_registered_nodes st)). n < gs_next_node_id st"
    using m by blast+
  have keys: "set (map fst (AList.delete node al)) = set (map fst al) - {node}" for al :: "(node_id \<times> 'b) list"
    unfolding AList.delete_eq by force
  have vals: "set (map snd (AList.delete node al)) \<subseteq> set (map snd al)" for al :: "(node_id \<times> 'b) list"
    unfolding AList.delete_eq by force
  have v: "distinct (map snd (AList.delete node (gs_node_addresses st)))"
    using m unfolding AList.delete_eq by (blast intro: distinct_map_filter)
  have e: "[] \<notin> set (map snd (AList.delete node (gs_node_peers st)))" using m vals[of "gs_node_peers st"] by blast
  have f: "forget_node node (st\<lparr> gs_registered_nodes := AList.delete sid (gs_registered_nodes st) \<rparr>) =
      st\<lparr> gs_registered_nodes := AList.delete sid (gs_registered_nodes st), gs_node_addresses := AList.delete node (gs_node_addresses st),
        gs_node_peers := AList.delete node (gs_node_peers st), gs_num_global_peers := count_peers (AList.delete node (gs_node_peers st)) \<rparr>"
    by (simp add: forget_node_def Let_def)
  note r = delete_pairs(1-3)[OF d(1,2) assms(2)]
  show ?thesis unfolding f members_ok_fields keys s r(3)
    using r(1,2) distinct_delete[OF d(3)] distinct_delete[OF d(4)] concat_delete_distinct[OF d(5)] v e b by blast
qed

text \<open>What remains of the state, apart from the sessions, when a node leaves.\<close>

definition lose_node :: "session_id \<Rightarrow> node_id \<Rightarrow> global_collective_state \<Rightarrow> global_collective_state" where
  "lose_node sid node st =
     reset_if_empty ((forget_node node (st\<lparr> gs_registered_nodes := AList.delete sid (gs_registered_nodes st) \<rparr>))
       \<lparr> gs_failed := Some (PeerLost node), gs_pending_collectives := [], gs_register_requests := [] \<rparr>)"

lemma lose_node_ok:
  assumes "orch_ok st" "map_of (gs_registered_nodes st) sid = Some node"
  shows "orch_ok (lose_node sid node st)"
proof -
  define t where "t = forget_node node (st\<lparr> gs_registered_nodes := AList.delete sid (gs_registered_nodes st) \<rparr>)"
  have "members_ok t" unfolding t_def by (rule lose_members) (use assms in \<open>auto simp: orch_ok_def\<close>)
  moreover have "2 \<le> gs_next_transfer_id t" using assms(1) by (simp add: t_def forget_node_def Let_def orch_ok_def requests_ok_def)
  ultimately show ?thesis unfolding lose_node_def t_def[symmetric] by (simp add: orch_ok_defs reset_if_empty_def)
qed

lemma lose_node_sessions:
  assumes "map_of (gs_registered_nodes st) sid = Some node"
  shows "\<exists>x. disconnect sid st = (lose_node sid node st)\<lparr> gs_sessions := x \<rparr>"
    and "\<exists>x. finish sid rid st = ((lose_node sid node st)\<lparr> gs_sessions := x \<rparr>, None)"
proof -
  define t where "t = (forget_node node (st\<lparr> gs_registered_nodes := AList.delete sid (gs_registered_nodes st) \<rparr>))\<lparr> gs_failed := Some (PeerLost node) \<rparr>"
  obtain x where x: "fail_pending (PeerLost node) t = t\<lparr> gs_pending_collectives := [], gs_sessions := x \<rparr>"
    using respond_all_sessions[of "gs_pending_collectives t" "ResponseError (PeerLost node)" "t\<lparr> gs_pending_collectives := [] \<rparr>"]
    by (auto simp: fail_pending_def)
  have y: "\<exists>y. fail_registers (PeerLost node) u = u\<lparr> gs_register_requests := [], gs_sessions := y \<rparr>" for u
    using respond_all_sessions[of "gs_register_requests u" "ResponseError (PeerLost node)" "u\<lparr> gs_register_requests := [] \<rparr>"]
    by (auto simp: fail_registers_def)
  obtain z where z: "fail_registers (PeerLost node) (fail_pending (PeerLost node) t) =
      t\<lparr> gs_pending_collectives := [], gs_register_requests := [], gs_sessions := z \<rparr>"
    using y[of "t\<lparr> gs_pending_collectives := [], gs_sessions := x \<rparr>"] unfolding x by auto
  show "\<exists>x. disconnect sid st = (lose_node sid node st)\<lparr> gs_sessions := x \<rparr>"
    using assms z by (intro exI[of _ "AList.delete sid z"])
      (simp add: disconnect_def Let_def t_def lose_node_def reset_if_empty_def)
  define u where "u = reset_if_empty (t\<lparr> gs_pending_collectives := [], gs_sessions := x \<rparr>)"
  obtain w where w: "fail_registers (PeerLost node) u = u\<lparr> gs_register_requests := [], gs_sessions := w \<rparr>" using y by blast
  have "forget_node node (st\<lparr> gs_registered_nodes := AList.delete sid (gs_registered_nodes st), gs_failed := Some (PeerLost node) \<rparr>) = t"
    by (simp add: t_def forget_node_def Let_def)
  then have "finish sid rid st = (respond sid rid ResponseFinishAck (u\<lparr> gs_register_requests := [], gs_sessions := w \<rparr>), None)"
    using assms by (simp add: finish_def Let_def x u_def[symmetric] w)
  moreover have "u\<lparr> gs_register_requests := [], gs_sessions := v \<rparr> = (lose_node sid node st)\<lparr> gs_sessions := v \<rparr>" for v
    by (simp add: u_def lose_node_def reset_if_empty_def t_def)
  ultimately show "\<exists>x. finish sid rid st = ((lose_node sid node st)\<lparr> gs_sessions := x \<rparr>, None)"
    by (auto simp: respond_def)
qed

lemma disconnect_ok: "orch_ok st \<Longrightarrow> orch_ok (disconnect sid st)"
proof (cases "map_of (gs_registered_nodes st) sid")
  case None
  moreover assume "orch_ok st"
  ultimately show ?thesis by (auto simp: disconnect_def reset_if_empty_def orch_ok_defs)
next
  case (Some node)
  moreover assume "orch_ok st"
  ultimately show ?thesis using lose_node_ok lose_node_sessions(1) by (metis orch_ok_sessions)
qed

lemma finish_ok: "orch_ok st \<Longrightarrow> orch_ok (fst (finish sid rid st))"
proof (cases "map_of (gs_registered_nodes st) sid")
  case (Some node)
  moreover assume "orch_ok st"
  ultimately show ?thesis using lose_node_ok lose_node_sessions(2) by (metis fst_conv orch_ok_sessions)
qed (simp add: finish_def)

subsection \<open>Admitting a node\<close>

lemma update_fresh: "k \<notin> set (map fst al) \<Longrightarrow> AList.update k v al = al @ [(k, v)]"
  by (induction al) auto

lemma check_peers_None:
  "check_peers known seen ps = None \<Longrightarrow>
     distinct ps \<and> set ps \<inter> set seen = {} \<and> set ps \<inter> set (concat (map snd known)) = {}"
proof (induction ps arbitrary: seen)
  case (Cons p ps)
  then have "p \<notin> set seen" "p \<notin> set (concat (map snd known))" "check_peers known (p # seen) ps = None"
    by (auto simp: list_ex_iff split: if_splits)
  with Cons.IH[of "p # seen"] show ?case by auto
qed simp

lemma count_peers_snoc: "count_peers (peers @ [(n, ps)]) = (count_peers peers + length ps) mod 2 ^ 32"
  by (simp add: count_peers_def mod_simps)

definition admitted :: "session_id \<Rightarrow> request_id \<Rightarrow> address \<Rightarrow> nat \<Rightarrow> peer_id list \<Rightarrow> global_collective_state \<Rightarrow> global_collective_state" where
  "admitted sid rid addr num_nodes peers st =
     (let node = gs_next_node_id st; reg = gs_registered_nodes st @ [(sid, node)] in
      st\<lparr> gs_num_global_peers := (gs_num_global_peers st + length peers) mod 2 ^ 32, gs_next_node_id := Suc node,
          gs_registered_nodes := reg, gs_node_addresses := gs_node_addresses st @ [(node, addr)],
          gs_node_peers := gs_node_peers st @ [(node, peers)],
          gs_register_requests := (if length reg = num_nodes then [] else gs_register_requests st @ [(sid, rid, node)]) \<rparr>)"

lemma admitted_members:
  assumes "members_ok st" "sid \<notin> set (map fst (gs_registered_nodes st))" "addr \<notin> set (map snd (gs_node_addresses st))"
    and "check_peers (gs_node_peers st) [] peers = None" "peers \<noteq> []"
  shows "members_ok (admitted sid rid addr num_nodes peers st)"
proof -
  note m = assms(1)[unfolded members_ok_def Let_def]
  let ?n = "gs_next_node_id st"
  have fresh: "?n \<notin> set (map snd (gs_registered_nodes st))" using m by blast
  have "distinct peers" "set peers \<inter> set (concat (map snd (gs_node_peers st))) = {}" using check_peers_None[OF assms(4)] by blast+
  then have "distinct (concat (map snd (gs_node_peers st @ [(?n, peers)])))" using m by auto
  moreover have "\<forall>n \<in> set (map snd (gs_registered_nodes st @ [(sid, ?n)])). n < Suc ?n" using m by (auto simp: less_Suc_eq)
  ultimately show ?thesis
    using m fresh assms(2,3,5) unfolding members_ok_def Let_def admitted_def
    by (simp add: count_peers_snoc del: set_map)
qed

lemma admit_node_result:
  assumes "members_ok st" "sid \<notin> set (map fst (gs_registered_nodes st))" "addr \<notin> set (map snd (gs_node_addresses st))"
    and "gs_cur_num_nodes st = Some num_nodes" "admit_node sid rid addr num_nodes peers st = Some (st', e)"
  shows "\<exists>x. st' = (admitted sid rid addr num_nodes peers st)\<lparr> gs_sessions := x \<rparr> \<and> e = None"
proof -
  note m = assms(1)[unfolded members_ok_def Let_def]
  let ?n = "gs_next_node_id st"
  have "?n \<notin> set (map fst (gs_node_addresses st))" "?n \<notin> set (map fst (gs_node_peers st))" using m by auto
  note u = update_fresh[OF this(1)] update_fresh[OF this(2)] update_fresh[OF assms(2)]
  have n: "checked_add 32 ?n 1 = Some (Suc ?n)" using assms(5) by (auto simp: admit_node_def Let_def checked_add_def split: if_splits)
  define t where "t = (admitted sid rid addr num_nodes peers st)\<lparr> gs_register_requests := gs_register_requests st @ [(sid, rid, ?n)] \<rparr>"
  define f where "f = (\<lambda>(s, r, n). respond s r (ResponseRegister n (gs_node_addresses t) (gs_num_global_peers t)))"
  have adm: "admit_node sid rid addr num_nodes peers st =
      Some (if Suc (length (gs_registered_nodes st)) = num_nodes
            then fold f (gs_register_requests t) (t\<lparr> gs_register_requests := [] \<rparr>) else t, None)"
    using assms(3,4) n by (simp add: admit_node_def Let_def u t_def f_def admitted_def)
  obtain x where "fold f (gs_register_requests t) (t\<lparr> gs_register_requests := [] \<rparr>) = t\<lparr> gs_register_requests := [], gs_sessions := x \<rparr>"
    using fold_respond_sessions[of fst "\<lambda>q. fst (snd q)" "\<lambda>q. ResponseRegister (snd (snd q)) (gs_node_addresses t) (gs_num_global_peers t)"]
    by (fastforce simp: f_def case_prod_unfold)
  moreover have "t = (admitted sid rid addr num_nodes peers st)\<lparr> gs_sessions := gs_sessions st \<rparr>"
    if "Suc (length (gs_registered_nodes st)) \<noteq> num_nodes" using that by (simp add: t_def admitted_def Let_def)
  moreover have "t\<lparr> gs_register_requests := [], gs_sessions := x \<rparr> = (admitted sid rid addr num_nodes peers st)\<lparr> gs_sessions := x \<rparr>"
    if "Suc (length (gs_registered_nodes st)) = num_nodes" for x using that by (simp add: t_def admitted_def Let_def)
  ultimately show ?thesis using adm assms(5) by (auto split: if_splits)
qed

lemma admitted_ok:
  assumes ok: "members_ok st" "requests_ok st" "gs_failed st = None" "gs_pending_collectives st = []" "gs_cur_num_nodes st = Some num_nodes"
    and "sid \<notin> set (map fst (gs_registered_nodes st))" "addr \<notin> set (map snd (gs_node_addresses st))"
    and "check_peers (gs_node_peers st) [] peers = None" "peers \<noteq> []"
    and cur: "gs_registered_nodes st = [] \<longleftrightarrow> gs_register_requests st = []" "length (gs_registered_nodes st) < num_nodes"
  shows "orch_ok (admitted sid rid addr num_nodes peers st)"
proof -
  have "phase_ok (admitted sid rid addr num_nodes peers st)"
    using ok(3-5) cur(2) by (auto simp: phase_ok_def admitted_def Let_def)
  moreover have "requests_ok (admitted sid rid addr num_nodes peers st)"
    using ok(2,4) cur(1) by (auto simp: requests_ok_def admitted_def Let_def)
  ultimately show ?thesis using admitted_members[OF ok(1) assms(6-9)] by (simp add: orch_ok_def)
qed

lemma register_ok:
  assumes ok: "orch_ok st" "gs_failed st = None" and reg: "register sid rid addr num_nodes peers st = Some (st', e)"
  shows "orch_ok st'"
proof (cases "st' = st")
  case False
  define u where "u = st\<lparr> gs_cur_num_nodes := Some num_nodes \<rparr>"
  have same: "st\<lparr> gs_cur_num_nodes := Some num_nodes \<rparr> = st" if "gs_cur_num_nodes st = Some num_nodes"
    using that by (cases st) simp
  from reg False have g: "num_nodes \<noteq> 0" "peers \<noteq> []" "sid \<notin> set (map fst (gs_registered_nodes st))"
    "addr \<notin> set (map snd (gs_node_addresses st))" "gs_registered_nodes st = [] \<or> gs_register_requests st \<noteq> []"
    "check_peers (gs_node_peers st) [] peers = None"
    and c: "gs_cur_num_nodes st = None \<or> gs_cur_num_nodes st = Some num_nodes" and a: "admit_node sid rid addr num_nodes peers u = Some (st', e)"
    by (auto simp: register_def u_def same split: if_splits option.splits)
  have f: "members_ok u" "requests_ok u" "gs_failed u = None" "gs_cur_num_nodes u = Some num_nodes"
    "gs_registered_nodes u = gs_registered_nodes st" "gs_node_addresses u = gs_node_addresses st" "gs_node_peers u = gs_node_peers st"
    using ok by (simp_all add: u_def orch_ok_defs)
  have p: "gs_pending_collectives u = []" "gs_registered_nodes u = [] \<longleftrightarrow> gs_register_requests u = []" "length (gs_registered_nodes u) < num_nodes"
    using ok g(1,5) c by (auto simp: u_def orch_ok_def phase_ok_def split: if_splits)
  from admit_node_result[OF f(1) _ _ f(4) a] g(3,4) f(5,6)
  obtain x where "st' = (admitted sid rid addr num_nodes peers u)\<lparr> gs_sessions := x \<rparr>" by auto
  then show ?thesis using admitted_ok[OF f(1-3) p(1) f(4) _ _ _ g(2) p(2,3)] g(3,4,6) f(5-7) by simp
qed (use ok in simp)

subsection \<open>Collectives\<close>

lemma begin_ready:
  assumes "orch_ok st" "gs_failed st = None" "begin_collective sid rid spec st \<noteq> Some (st, Some CollectiveBeforeRegister)"
    "begin_collective sid rid spec st \<noteq> Some (st, Some CollectiveParamsMismatch)"
  shows "sid \<in> set (map fst (gs_registered_nodes st))" "gs_register_requests st = []" "sid \<notin> set (map fst (gs_pending_collectives st))"
    "gs_cur_num_nodes st = Some (length (gs_registered_nodes st))" "length (gs_pending_collectives st) < length (gs_registered_nodes st)"
proof -
  show r: "sid \<in> set (map fst (gs_registered_nodes st))" "gs_register_requests st = []" "sid \<notin> set (map fst (gs_pending_collectives st))"
    using assms(3,4) by (auto simp: begin_collective_def split: if_splits)
  have "gs_registered_nodes st \<noteq> []" using r(1) by auto
  then show "gs_cur_num_nodes st = Some (length (gs_registered_nodes st))" "length (gs_pending_collectives st) < length (gs_registered_nodes st)"
    using assms(1,2) r(2) by (auto simp: orch_ok_def phase_ok_def)
qed

lemma pending_updates:
  assumes "orch_ok st" "gs_failed st = None" "gs_register_requests st = []" "gs_registered_nodes st \<noteq> []"
  shows "orch_ok (st\<lparr> gs_pending_collectives := [] \<rparr>)"
    and "orch_ok (st\<lparr> gs_pending_collectives := [], gs_next_transfer_id := Suc (gs_next_transfer_id st) \<rparr>)"
    and "sid \<in> set (map fst (gs_registered_nodes st)) \<Longrightarrow> sid \<notin> set (map fst (gs_pending_collectives st)) \<Longrightarrow>
      Suc (length (gs_pending_collectives st)) < length (gs_registered_nodes st) \<Longrightarrow>
      orch_ok (st\<lparr> gs_pending_collectives := gs_pending_collectives st @ [(sid, rid, spec)] \<rparr>)"
  using assms by (auto simp: orch_ok_defs)

lemma begin_ok:
  assumes ok: "orch_ok st" "gs_failed st = None" and b: "begin_collective sid rid spec st = Some (st', e)"
  shows "orch_ok st'"
proof (cases "st' = st")
  case False
  have ne: "begin_collective sid rid spec st \<noteq> Some (st, Some CollectiveBeforeRegister)"
    "begin_collective sid rid spec st \<noteq> Some (st, Some CollectiveParamsMismatch)" using b False by auto
  note r = begin_ready[OF ok ne]
  have "gs_registered_nodes st \<noteq> []" using r(1) by auto
  note p = pending_updates[OF ok r(2) this]
  show ?thesis
  proof (cases "Suc (length (gs_pending_collectives st)) = length (gs_registered_nodes st)")
    case False
    then have "st' = st\<lparr> gs_pending_collectives := gs_pending_collectives st @ [(sid, rid, spec)] \<rparr>"
      using b r(1-4) by (simp add: begin_collective_def)
    then show ?thesis using p(3)[OF r(1,3)] r(5) False by simp
  next
    case True
    then show ?thesis using b r(1-4) p(1,2)
      by (auto simp: begin_collective_def checked_add_def Let_def split: option.splits sum.splits if_splits)
  qed
qed (use ok in simp)

lemma process_request_ok:
  assumes ok: "orch_ok st" and p: "process_request sid rid request st = Some st'"
  shows "orch_ok st'"
proof (cases "gs_failed st \<noteq> None \<and> request \<noteq> RequestFinish")
  case True
  then show ?thesis using p ok by (auto simp: process_request_def)
next
  case False
  then obtain u e where u: "(case request of
                   RequestRegister addr num_nodes peers \<Rightarrow> register sid rid addr num_nodes peers st
                 | RequestBegin spec \<Rightarrow> begin_collective sid rid spec st
                 | RequestFinish \<Rightarrow> Some (finish sid rid st)) = Some (u, e)" and st': "orch_ok st' \<longleftrightarrow> orch_ok u"
    using p by (auto simp: process_request_def split: option.splits)
  have "orch_ok u"
  proof (cases request)
    case RequestFinish
    then show ?thesis using u finish_ok[OF ok, of sid rid] by simp
  qed (use u False register_ok[OF ok] begin_ok[OF ok] in auto)
  then show ?thesis using st' by simp
qed

lemma reachable_ok: "orch_reachable st \<Longrightarrow> orch_ok st"
proof (induction rule: orch_reachable.induct)
  case (reach_step st st')
  from reach_step(2,3) show ?case
    by (cases rule: orch_step.cases) (use session_steps_ok disconnect_ok process_request_ok in auto)
qed (rule new_ok)

section \<open>Delivery and agreement\<close>

lemma map_of_deliver:
  "map_of (deliver sid resp sessions) x =
     (if x = sid then map_option (session_respond resp) (map_of sessions x) else map_of sessions x)"
  by (auto simp: deliver_def update_conv' split: option.splits)

lemma map_of_respond_all:
  assumes "distinct (map fst requests)"
  shows "map_of (gs_sessions (respond_all requests content st)) x =
    (case map_of requests x of
       None \<Rightarrow> map_of (gs_sessions st) x
     | Some (rid, _) \<Rightarrow> map_option (session_respond \<lparr> cr_request_id = rid, cr_content = content \<rparr>) (map_of (gs_sessions st) x))"
  using assms
proof (induction requests arbitrary: st)
  case (Cons q qs)
  obtain s r y where q: "q = (s, r, y)" by (cases q)
  have "respond_all (q # qs) content st = respond_all qs content (respond s r content st)" by (simp add: respond_all_def q)
  moreover have "map_of qs s = None" using Cons.prems by (simp add: q map_of_eq_None_iff)
  ultimately show ?case using Cons by (auto simp: q respond_def map_of_deliver cong: option.case_cong)
qed (simp add: respond_all_def)

lemma min_node_eq: "nodes \<noteq> [] \<Longrightarrow> min_node nodes = Some (Min (set nodes))"
  by (cases nodes) (simp_all add: min_node_def Min.set_eq_fold del: list.set)

lemma broadcast_source_simps:
  "broadcast_source strategy (node, SpecBroadcast strategy None) source = Inr source"
  "broadcast_source strategy (node, SpecBroadcast strategy (Some m)) None = Inr (Some node)"
  "broadcast_source strategy (node, SpecBroadcast strategy (Some m)) (Some n) = Inl GBroadcastMultipleTensors"
  "\<nexists>metadata. spec = SpecBroadcast strategy metadata \<Longrightarrow> broadcast_source strategy (node, spec) source = Inl CollectiveParamsMismatch"
  by (auto simp: broadcast_source_def split: collective_spec.splits)

definition gives_tensor :: "collective_spec \<Rightarrow> bool" where
  "gives_tensor spec = (case spec of SpecBroadcast _ (Some _) \<Rightarrow> True | _ \<Rightarrow> False)"

lemma broadcast_sources:
  "fold_r (broadcast_source strategy) specs source = Inr (Some root) \<longleftrightarrow>
     (\<forall>q \<in> set specs. \<exists>metadata. snd q = SpecBroadcast strategy metadata) \<and>
     (case source of None \<Rightarrow> [] | Some n \<Rightarrow> [n]) @ map fst (filter (\<lambda>q. gives_tensor (snd q)) specs) = [root]"
proof (induction specs arbitrary: source)
  case (Cons q specs)
  obtain node spec where q: "q = (node, spec)" by (cases q)
  consider "spec = SpecBroadcast strategy None" | m where "spec = SpecBroadcast strategy (Some m)"
    | "\<nexists>metadata. spec = SpecBroadcast strategy metadata" by (metis option.exhaust)
  then show ?case
  proof cases
    case 2
    then show ?thesis using Cons.IH by (cases source) (simp_all add: q broadcast_source_simps gives_tensor_def)
  qed (use Cons.IH in \<open>simp_all add: q broadcast_source_simps gives_tensor_def\<close>)
qed (auto split: option.splits)

lemma registered_specs:
  assumes "orch_ok st" "set (map fst requests) \<subseteq> set (map fst (gs_registered_nodes st))"
  shows "traverse_o (\<lambda>(s, _, spec). map_option (\<lambda>n. (n, spec)) (map_of (gs_registered_nodes st) s)) requests \<noteq> None"
proof
  assume "traverse_o (\<lambda>(s, _, spec). map_option (\<lambda>n. (n, spec)) (map_of (gs_registered_nodes st) s)) requests = None"
  then obtain q where "q \<in> set requests" "map_of (gs_registered_nodes st) (fst q) = None"
    unfolding traverse_o_None by (auto simp: case_prod_unfold)
  then show False using assms(2) by (auto simp: map_of_eq_None_iff)
qed

lemma process_request_total:
  assumes "orch_ok st" "gs_next_node_id st < 2 ^ 32 - 1" "gs_next_transfer_id st < 2 ^ 64 - 1"
  shows "process_request sid rid request st \<noteq> None"
proof -
  have a: "admit_node sid rid addr n peers u \<noteq> None" if "gs_next_node_id u = gs_next_node_id st" for addr n peers u
    using that assms(2) by (auto simp: admit_node_def checked_add_def Let_def)
  have r: "register sid rid addr n peers st \<noteq> None" for addr n peers
    using a by (auto simp: register_def split: option.splits)
  have b: "begin_collective sid rid spec st \<noteq> None" for spec
  proof (cases "sid \<in> set (map fst (gs_registered_nodes st))")
    case True
    moreover have "set (map fst (gs_pending_collectives st)) \<subseteq> set (map fst (gs_registered_nodes st))"
      using assms(1) by (simp add: orch_ok_def requests_ok_def)
    ultimately have "set (map fst (gs_pending_collectives st @ [(sid, rid, spec)])) \<subseteq> set (map fst (gs_registered_nodes st))" by simp
    from registered_specs[OF assms(1) this] show ?thesis
      using assms(3) by (auto simp: begin_collective_def checked_add_def Let_def split: option.splits sum.splits)
  qed (simp add: begin_collective_def)
  have "(case request of
                   RequestRegister addr num_nodes peers \<Rightarrow> register sid rid addr num_nodes peers st
                 | RequestBegin spec \<Rightarrow> begin_collective sid rid spec st
                 | RequestFinish \<Rightarrow> Some (finish sid rid st)) \<noteq> None" (is "?r \<noteq> None") using r b by (cases request) simp_all
  then obtain u e where "?r = Some (u, e)" by (metis not_None_eq surj_pair)
  then show ?thesis by (cases e) (auto simp: process_request_def)
qed

lemma traverse_o_the: "traverse_o f xs = Some ys \<Longrightarrow> ys = map (\<lambda>x. the (f x)) xs"
  unfolding traverse_o_iff by (induction rule: list_all2_induct) auto

section \<open>A sample group\<close>

definition sample_requests :: "(session_id \<times> request_id \<times> remote_request) list" where
  "sample_requests = [(1, 10, RequestRegister ''a'' 2 [0]), (2, 20, RequestRegister ''b'' 2 [1])]"

definition sample_group :: global_collective_state where
  "sample_group = the (fold_o (\<lambda>(s, r, q). process_request s r q) sample_requests (init_session 2 (init_session 1 orchestrator_new)))"

definition sample_spec :: collective_spec where
  "sample_spec = SpecReduce 1 ReduceSum (ReTree 2) [4] ''F32''"

definition sample_waiting :: global_collective_state where
  "sample_waiting = the (process_request 1 11 (RequestBegin sample_spec) sample_group)"

lemmas orch_eval = process_request_def register_def admit_node_def begin_collective_def checked_add_def respond_def deliver_def
  session_respond_def init_session_def session_new_def orchestrator_new_def count_peers_def RESPONSE_QUEUE_CAPACITY_def Let_def

lemma sample_group_eq:
  "sample_group = \<lparr> gs_registered_nodes = [(1, 0), (2, 1)], gs_node_addresses = [(0, ''a''), (1, ''b'')],
     gs_node_peers = [(0, [0]), (1, [1])], gs_cur_num_nodes = Some 2, gs_num_global_peers = 2, gs_register_requests = [],
     gs_sessions =
       [(1, session_new\<lparr> se_queue := [\<lparr> cr_request_id = 10, cr_content = ResponseRegister 0 [(0, ''a''), (1, ''b'')] 2 \<rparr>] \<rparr>),
        (2, session_new\<lparr> se_queue := [\<lparr> cr_request_id = 20, cr_content = ResponseRegister 1 [(0, ''a''), (1, ''b'')] 2 \<rparr>] \<rparr>)],
     gs_pending_collectives = [], gs_next_transfer_id = 2, gs_next_node_id = 2, gs_failed = None \<rparr>"
  and sample_group_built: "fold_o (\<lambda>(s, r, q). process_request s r q) sample_requests (init_session 2 (init_session 1 orchestrator_new)) = Some sample_group"
  by (simp_all add: sample_group_def sample_requests_def orch_eval)

lemma reachable_requests:
  "orch_reachable st \<Longrightarrow> fold_o (\<lambda>(s, r, q). process_request s r q) qs st = Some st' \<Longrightarrow> orch_reachable st'"
proof (induction qs arbitrary: st)
  case (Cons q qs)
  obtain s r x where q: "q = (s, r, x)" by (cases q)
  with Cons.prems(2) obtain u where "process_request s r x st = Some u" "fold_o (\<lambda>(s, r, q). process_request s r q) qs u = Some st'"
    by (auto split: option.splits)
  then show ?case using Cons.IH reach_step[OF Cons.prems(1) step_request] by blast
qed simp

lemma sample_group_reachable: "orch_reachable sample_group"
  by (rule reachable_requests[OF _ sample_group_built]) (intro reach_step[OF _ step_init] reach_new)

lemma sample_waiting_eq:
  "process_request 1 11 (RequestBegin sample_spec) sample_group = Some sample_waiting"
  "sample_waiting = sample_group\<lparr> gs_pending_collectives := [(1, 11, sample_spec)] \<rparr>"
  by (simp_all add: sample_waiting_def orch_eval sample_group_eq)

section \<open>Properties\<close>

text \<open>C28. The orchestrator's state is consistent and it never panics: in every state reachable by requests,
  connections, disconnections and responses, sessions, nodes, addresses and peers correspond one to
  one, the group is empty, poisoned, complete or still registering with the pending requests that
  fit, the number of devices counts the registered peers, and no request panics while node and
  transfer identifiers last.\<close>

theorem orchestrator_invariant:
  assumes "orch_reachable st"
  shows "orch_ok st \<and>
    (gs_next_node_id st < 2 ^ 32 - 1 \<longrightarrow> gs_next_transfer_id st < 2 ^ 64 - 1 \<longrightarrow> process_request sid rid request st \<noteq> None)"
  using reachable_ok[OF assms] process_request_total by blast

theorem orchestrator_invariant_witness: "orch_ok sample_group \<and> process_request 2 21 RequestFinish sample_group \<noteq> None"
  using orchestrator_invariant[OF sample_group_reachable, of 2 21 RequestFinish] by (simp add: sample_group_eq)

text \<open>C30. Agreement on a collective: the participants agree exactly when all reductions have equal parameters, or
  all broadcasts have one strategy and exactly one node gives a tensor, and the arity is not zero;
  the root is then the least node, the node of the root peer, or the node that gives the tensor.\<close>

theorem agree_collective_spec:
  "agree_collective specs peers = Inr root \<longleftrightarrow>
     (\<exists>first rest. specs = first # rest \<and>
       (case snd first of
          SpecAllReduce _ strategy _ _ \<Rightarrow>
            (\<forall>q \<in> set specs. snd q = snd first) \<and> strategy \<noteq> ArTree 0 \<and> peers \<noteq> [] \<and> root = Min (fst ` set peers)
        | SpecReduce peer _ strategy _ _ \<Rightarrow>
            (\<forall>q \<in> set specs. snd q = snd first) \<and> strategy \<noteq> ReTree 0 \<and>
            (\<exists>ps. List.find (\<lambda>q. peer \<in> set (snd q)) peers = Some (root, ps))
        | SpecBroadcast strategy _ \<Rightarrow>
            strategy \<noteq> BcTree 0 \<and> (\<forall>q \<in> set specs. \<exists>metadata. snd q = SpecBroadcast strategy metadata) \<and>
            map fst (filter (\<lambda>q. gives_tensor (snd q)) specs) = [root]))"
proof (cases specs)
  case (Cons first rest)
  obtain node spec where f: "first = (node, spec)" by (cases first)
  have all: "list_ex (\<lambda>(_, s). s \<noteq> spec) specs \<longleftrightarrow> \<not> (\<forall>q \<in> set specs. snd q = spec)" by (auto simp: list_ex_iff case_prod_unfold)
  show ?thesis
  proof (cases spec)
    case (SpecAllReduce op strategy shape dtype)
    have "agree_collective specs peers = (if \<not> (\<forall>q \<in> set specs. snd q = spec) then Inl CollectiveParamsMismatch
        else if strategy = ArTree 0 then Inl InvalidTreeArity else ok_or (min_node (map fst peers)) CollectiveBeforeRegister)"
      unfolding all[symmetric] by (simp add: agree_collective_def Cons f SpecAllReduce)
    moreover have "min_node (map fst peers) = (if peers = [] then None else Some (Min (fst ` set peers)))"
      using min_node_eq[of "map fst peers"] by (simp add: min_node_def)
    ultimately show ?thesis by (auto simp: Cons f SpecAllReduce ok_or_def)
  next
    case (SpecReduce peer op strategy shape dtype)
    have "agree_collective specs peers = (if \<not> (\<forall>q \<in> set specs. snd q = spec) then Inl CollectiveParamsMismatch
        else if strategy = ReTree 0 then Inl InvalidTreeArity
        else ok_or (map_option fst (List.find (\<lambda>q. peer \<in> set (snd q)) peers)) (UnknownRoot peer))"
      unfolding all[symmetric] by (simp add: agree_collective_def Cons f SpecReduce case_prod_unfold)
    then show ?thesis by (auto simp: Cons f SpecReduce ok_or_def split: option.splits)
  next
    case (SpecBroadcast strategy metadata)
    have "agree_collective specs peers = Inr root \<longleftrightarrow> strategy \<noteq> BcTree 0 \<and> fold_r (broadcast_source strategy) specs None = Inr (Some root)"
      by (auto simp: agree_collective_def Cons f SpecBroadcast bind_r_eq_Inr ok_or_def split: option.splits)
    then show ?thesis unfolding broadcast_sources by (simp add: Cons f SpecBroadcast)
  qed
qed (simp add: agree_collective_def)

theorem agree_collective_spec_witness:
  "agree_collective [(0, sample_spec), (1, sample_spec)] [(0, [0]), (1, [1])] = Inr 1"
  using agree_collective_spec[of "[(0, sample_spec), (1, sample_spec)]" "[(0, [0]), (1, [1])]" 1] by (simp add: sample_spec_def)



end
