(* ===== verification/Local_Collectives.thy ===== *)
theory Local_Collectives
  imports Collective_Config "HOL-Library.AList" "HOL-Library.Multiset"
begin

text \<open>
  The collectives between the devices of one node: \<^verbatim>\<open>src/local/reduce\<close>, \<^verbatim>\<open>src/local/broadcast\<close> and the
  centralized and tree algorithms of \<^verbatim>\<open>src/local/all_reduce\<close>. Tensors and devices belong to the
  backend, which is a parameter. A map from peers to tensors is the list of its entries in the
  order the hash map yields them. \<open>None\<close> is a panic or a recursion that does not end.
\<close>

section \<open>The backend\<close>

text \<open>The calls of \<open>Backend\<close> that the collectives use. \<open>be_div_scalar t n\<close> divides by \<open>n as f32\<close>.\<close>

record ('t, 'd) backend =
  be_device :: "'t \<Rightarrow> 'd"
  be_to_device :: "'t \<Rightarrow> 'd \<Rightarrow> 't"
  be_add :: "'t \<Rightarrow> 't \<Rightarrow> 't"
  be_div_scalar :: "'t \<Rightarrow> nat \<Rightarrow> 't"
  be_shape :: "'t \<Rightarrow> nat list"
  be_slice :: "'t \<Rightarrow> (nat \<times> nat) list \<Rightarrow> 't"
  be_slice_assign :: "'t \<Rightarrow> (nat \<times> nat) list \<Rightarrow> 't \<Rightarrow> 't"
  be_cat :: "'t list \<Rightarrow> nat \<Rightarrow> 't"
  be_device_id :: "'d \<Rightarrow> nat"

type_synonym 't tensor_map = "(peer_id \<times> 't) list"
type_synonym 'd device_map = "(peer_id \<times> 'd) list"

definition get_common_shape :: "('t, 'd) backend \<Rightarrow> 't tensor_map \<Rightarrow> nat list option" where
  "get_common_shape bk tensors =
     (case tensors of
        [] \<Rightarrow> None
      | (_, first) # rest \<Rightarrow>
          if list_all (\<lambda>(_, t). be_shape bk t = be_shape bk first) rest then Some (be_shape bk first) else None)"

definition get_peer_devices :: "('t, 'd) backend \<Rightarrow> 't tensor_map \<Rightarrow> 'd device_map" where
  "get_peer_devices bk = map (\<lambda>(p, t). (p, be_device bk t))"

section \<open>Centralized algorithms\<close>

definition add_all :: "('t, 'd) backend \<Rightarrow> 't \<Rightarrow> 't list \<Rightarrow> 't" where
  "add_all bk target others = fold (\<lambda>t acc. be_add bk acc (be_to_device bk t (be_device bk target))) others target"

definition reduce_sum_centralized :: "('t, 'd) backend \<Rightarrow> 't tensor_map \<Rightarrow> peer_id \<Rightarrow> 't option" where
  "reduce_sum_centralized bk tensors central =
     (case map_of tensors central of
        None \<Rightarrow> None
      | Some central_tensor \<Rightarrow> Some (add_all bk central_tensor (map snd (AList.delete central tensors))))"

definition broadcast_centralized ::
  "('t, 'd) backend \<Rightarrow> 'd device_map \<Rightarrow> peer_id \<Rightarrow> 't \<Rightarrow> 't tensor_map option" where
  "broadcast_centralized bk devices central tensor =
     (if central \<notin> set (map fst devices) then None
      else Some (map (\<lambda>(dest, device). (dest, be_to_device bk tensor device)) (AList.delete central devices) @ [(central, tensor)]))"

definition all_reduce_sum_centralized :: "('t, 'd) backend \<Rightarrow> 't tensor_map \<Rightarrow> 't tensor_map option" where
  "all_reduce_sum_centralized bk tensors =
     (case tensors of
        [] \<Rightarrow> None
      | (central, _) # _ \<Rightarrow>
          Option.bind (reduce_sum_centralized bk tensors central) (broadcast_centralized bk (get_peer_devices bk tensors) central))"

section \<open>Tree algorithms\<close>

text \<open>The loops that take a parent and up to \<open>arity\<close> children from the front of the list.\<close>

function tree_groups :: "nat \<Rightarrow> 'a list \<Rightarrow> ('a \<times> 'a list) list" where
  "tree_groups arity [] = []"
| "tree_groups arity (x # xs) = (x, take arity xs) # tree_groups arity (drop arity xs)"
  by pat_completeness auto
termination by (relation "measure (length \<circ> snd)") auto

definition tree_parents :: "('t, 'd) backend \<Rightarrow> nat \<Rightarrow> 't tensor_map \<Rightarrow> 't tensor_map" where
  "tree_parents bk arity tensors =
     map (\<lambda>((parent, t), children). (parent, add_all bk t (map snd children))) (tree_groups arity tensors)"

text \<open>\<open>children_groups.remove(0)\<close> for each parent in the order the recursion returned them.\<close>

definition redistribute :: "('t, 'd) backend \<Rightarrow> 't tensor_map \<Rightarrow> 'd device_map list \<Rightarrow> 't tensor_map" where
  "redistribute bk parents children_groups =
     concat (map (\<lambda>((parent, t), children). map (\<lambda>(child, device). (child, be_to_device bk t device)) children @ [(parent, t)])
       (zip parents children_groups))"

partial_function (option) all_reduce_sum_tree_inner ::
  "('t, 'd) backend \<Rightarrow> nat \<Rightarrow> 't tensor_map \<Rightarrow> 't tensor_map option" where
  "all_reduce_sum_tree_inner bk arity tensors =
     (let parent_tensors = tree_parents bk arity tensors;
          children_groups = map (\<lambda>(_, children). get_peer_devices bk children) (tree_groups arity tensors)
      in if length parent_tensors > 1
         then Option.bind (all_reduce_sum_tree_inner bk arity parent_tensors) (\<lambda>ps. Some (redistribute bk ps children_groups))
         else Some (redistribute bk parent_tensors children_groups))"

definition all_reduce_sum_tree :: "('t, 'd) backend \<Rightarrow> nat \<Rightarrow> 't tensor_map \<Rightarrow> 't tensor_map option" where
  "all_reduce_sum_tree bk arity tensors =
     all_reduce_sum_tree_inner bk arity (sort_key (\<lambda>(_, t). be_device_id bk (be_device bk t)) tensors)"

partial_function (option) reduce_sum_tree_inner :: "('t, 'd) backend \<Rightarrow> nat \<Rightarrow> 't list \<Rightarrow> 't option" where
  "reduce_sum_tree_inner bk arity tensors =
     (let parents = map (\<lambda>(t, children). add_all bk t children) (tree_groups arity tensors)
      in if length parents > 1 then reduce_sum_tree_inner bk arity parents
         else (case parents of [] \<Rightarrow> None | p # _ \<Rightarrow> Some p))"

definition reduce_sum_tree :: "('t, 'd) backend \<Rightarrow> 't tensor_map \<Rightarrow> peer_id \<Rightarrow> nat \<Rightarrow> 't option" where
  "reduce_sum_tree bk tensors root arity =
     (case map_of tensors root of
        None \<Rightarrow> None
      | Some root_tensor \<Rightarrow>
          reduce_sum_tree_inner bk arity
            (root_tensor # sort_key (\<lambda>t. be_device_id bk (be_device bk t)) (map snd (AList.delete root tensors))))"

partial_function (option) broadcast_tree_inner ::
  "('t, 'd) backend \<Rightarrow> nat \<Rightarrow> 't \<Rightarrow> 'd device_map \<Rightarrow> 't tensor_map option" where
  "broadcast_tree_inner bk arity tensor all_devices =
     (let groups = tree_groups arity all_devices; parents = map fst groups
      in Option.bind
           (if length parents > 1 then broadcast_tree_inner bk arity tensor parents
            else (case parents of [] \<Rightarrow> None | (root, _) # _ \<Rightarrow> Some [(root, tensor)]))
           (\<lambda>ps. Some (redistribute bk ps (map snd groups))))"

definition broadcast_tree ::
  "('t, 'd) backend \<Rightarrow> 'd device_map \<Rightarrow> peer_id \<Rightarrow> 't \<Rightarrow> nat \<Rightarrow> 't tensor_map option" where
  "broadcast_tree bk devices root tensor arity =
     (case map_of devices root of
        None \<Rightarrow> None
      | Some root_device \<Rightarrow>
          broadcast_tree_inner bk arity tensor
            ((root, root_device) # sort_key (\<lambda>(_, d). be_device_id bk d) (AList.delete root devices)))"

section \<open>Groups\<close>

lemma tree_groups_concat: "concat (map (\<lambda>(x, xs). x # xs) (tree_groups arity ts)) = ts"
  by (induction arity ts rule: tree_groups.induct) simp_all

lemma tree_groups_length:
  "length (tree_groups arity ts) \<le> length ts" "0 < arity \<Longrightarrow> 1 < length ts \<Longrightarrow> length (tree_groups arity ts) < length ts"
proof -
  show le: "length (tree_groups arity ts) \<le> length ts" for ts :: "'a list"
    by (induction arity ts rule: tree_groups.induct) simp_all
  show "0 < arity \<Longrightarrow> 1 < length ts \<Longrightarrow> length (tree_groups arity ts) < length ts"
  proof (cases ts)
    case (Cons x xs)
    assume "0 < arity" "1 < length ts"
    then show ?thesis using le[of "drop arity xs"] Cons by (cases xs) (auto simp: less_Suc_eq_le)
  qed simp
qed

lemma tree_groups_empty_iff: "tree_groups arity ts = [] \<longleftrightarrow> ts = []"
  by (cases ts) simp_all

lemma tree_groups_zero: "tree_groups 0 ts = map (\<lambda>t. (t, [])) ts"
  by (induction "0 :: nat" ts rule: tree_groups.induct) simp_all

section \<open>When the recursion ends\<close>

lemma tree_parents_length: "length (tree_parents bk arity ts) = length (tree_groups arity ts)"
  by (simp add: tree_parents_def)

lemma all_reduce_tree_ends:
  assumes "0 < arity"
  shows "\<exists>r. all_reduce_sum_tree_inner bk arity ts = Some r"
proof (induction ts rule: length_induct)
  case (1 ts)
  show ?case
  proof (cases "1 < length (tree_parents bk arity ts)")
    case True
    then have "length (tree_parents bk arity ts) < length ts"
      using tree_groups_length[of arity ts] assms by (metis less_le_trans order.strict_trans2 tree_parents_length)
    with 1 obtain r where "all_reduce_sum_tree_inner bk arity (tree_parents bk arity ts) = Some r" by blast
    then show ?thesis by (subst all_reduce_sum_tree_inner.simps) (simp add: Let_def)
  next
    case False
    then show ?thesis by (subst all_reduce_sum_tree_inner.simps) (simp add: Let_def)
  qed
qed

lemma all_reduce_tree_loops:
  assumes "all_reduce_sum_tree_inner bk arity ts = Some r"
  shows "arity = 0 \<longrightarrow> length ts \<le> 1"
proof (rule all_reduce_sum_tree_inner.raw_induct[where P = "\<lambda>bk arity ts r. arity = 0 \<longrightarrow> length ts \<le> 1", OF _ assms])
  fix inner and bk :: "('t, 'd) backend" and arity ts r
  assume IH: "\<And>bk arity ts r. inner bk arity ts = Some r \<Longrightarrow> arity = 0 \<longrightarrow> length ts \<le> 1"
    and eq: "(let parent_tensors = tree_parents bk arity ts;
          children_groups = map (\<lambda>(_, children). get_peer_devices bk children) (tree_groups arity ts)
      in if length parent_tensors > 1
         then Option.bind (inner bk arity parent_tensors) (\<lambda>ps. Some (redistribute bk ps children_groups))
         else Some (redistribute bk parent_tensors children_groups)) = Some r"
  have "tree_parents bk 0 ts = ts" by (simp add: tree_parents_def tree_groups_zero add_all_def case_prod_unfold o_def)
  then show "arity = 0 \<longrightarrow> length ts \<le> 1"
    using eq IH[of bk 0 ts] by (auto simp: Let_def bind_eq_Some_conv split: if_splits)
qed

section \<open>Exact arithmetic\<close>

definition shaped :: "('t, 'd) backend \<Rightarrow> nat list \<Rightarrow> 't tensor_map \<Rightarrow> bool" where
  "shaped bk sh ts \<longleftrightarrow> (\<forall>q \<in> set ts. be_shape bk (snd q) = sh)"

definition homes :: "('t, 'd) backend \<Rightarrow> 't tensor_map \<Rightarrow> (peer_id \<times> 'd) multiset" where
  "homes bk ts = mset (get_peer_devices bk ts)"

definition sum_of :: "('t \<Rightarrow> 'v :: comm_monoid_add) \<Rightarrow> 't tensor_map \<Rightarrow> 'v" where
  "sum_of val ts = sum_list (map (\<lambda>q. val (snd q)) ts)"

text \<open>Every peer of \<open>ts\<close> has, on its own device, a tensor of value \<open>v\<close>, and nobody else has any.\<close>

definition spread :: "('t, 'd) backend \<Rightarrow> ('t \<Rightarrow> 'v) \<Rightarrow> 't tensor_map \<Rightarrow> 'v \<Rightarrow> (peer_id \<times> 'd) multiset \<Rightarrow> bool" where
  "spread bk val r v hs \<longleftrightarrow> homes bk r = hs \<and> (\<forall>q \<in> set r. val (snd q) = v)"

text \<open>What the algorithms rely on, for tensors of one shape: moving a tensor keeps its value, adding two tensors
  on one device adds their values, and values form a commutative monoid. Floating-point addition
  satisfies this up to rounding only.\<close>

locale tensor_sum =
  fixes bk :: "('t, 'd) backend" and val :: "'t \<Rightarrow> 'v :: comm_monoid_add" and sh :: "nat list"
  assumes move: "be_shape bk t = sh \<Longrightarrow>
      val (be_to_device bk t d) = val t \<and> be_shape bk (be_to_device bk t d) = sh \<and> be_device bk (be_to_device bk t d) = d"
    and add: "be_shape bk a = sh \<Longrightarrow> be_shape bk b = sh \<Longrightarrow> be_device bk a = be_device bk b \<Longrightarrow>
      val (be_add bk a b) = val a + val b \<and> be_shape bk (be_add bk a b) = sh \<and> be_device bk (be_add bk a b) = be_device bk a"
begin

lemma add_all_ok:
  assumes "be_shape bk target = sh" "\<forall>t \<in> set others. be_shape bk t = sh"
  shows "val (add_all bk target others) = val target + sum_list (map val others) \<and>
    be_shape bk (add_all bk target others) = sh \<and> be_device bk (add_all bk target others) = be_device bk target"
proof -
  have "val (fold (\<lambda>t acc. be_add bk acc (be_to_device bk t d)) others acc) = val acc + sum_list (map val others) \<and>
      be_shape bk (fold (\<lambda>t acc. be_add bk acc (be_to_device bk t d)) others acc) = sh \<and>
      be_device bk (fold (\<lambda>t acc. be_add bk acc (be_to_device bk t d)) others acc) = d"
    if "be_shape bk acc = sh" "be_device bk acc = d" for acc d
    using assms(2) that
  proof (induction others arbitrary: acc)
    case (Cons t ts)
    have "be_shape bk t = sh" using Cons.prems(1) by simp
    note m = move[OF this, of d]
    from m add[OF Cons.prems(2), of "be_to_device bk t d"] Cons.prems(3) Cons.IH[of "be_add bk acc (be_to_device bk t d)"] Cons.prems(1)
    show ?case by (simp add: add.assoc)
  qed simp
  with assms(1) show ?thesis by (simp add: add_all_def)
qed

lemma homes_append [simp]: "homes bk (a @ b) = homes bk a + homes bk b"
  by (simp add: homes_def get_peer_devices_def)

lemma homes_Cons [simp]: "homes bk ((p, t) # xs) = add_mset (p, be_device bk t) (homes bk xs)" "homes bk [] = {#}"
  by (simp_all add: homes_def get_peer_devices_def)

lemma sum_of_append [simp]: "sum_of val (a @ b) = sum_of val a + sum_of val b"
  by (simp add: sum_of_def)

lemma parents_ok:
  assumes "shaped bk sh ts"
  shows "shaped bk sh (tree_parents bk arity ts) \<and> sum_of val (tree_parents bk arity ts) = sum_of val ts \<and>
    homes bk (tree_parents bk arity ts) + mset (concat (map (\<lambda>(_, children). get_peer_devices bk children) (tree_groups arity ts))) = homes bk ts"
  using assms
proof (induction arity ts rule: tree_groups.induct)
  case (2 arity x xs)
  obtain p t where x: "x = (p, t)" by (cases x)
  have xs: "take arity xs @ drop arity xs = xs" by simp
  have sx: "be_shape bk t = sh" and st: "shaped bk sh (take arity xs)" and sd: "shaped bk sh (drop arity xs)"
    using 2(2) set_take_subset[of arity xs] set_drop_subset[of arity xs] by (auto simp: shaped_def x)
  have "\<forall>t \<in> set (map snd (take arity xs)). be_shape bk t = sh" using st by (auto simp: shaped_def)
  note a = add_all_ok[OF sx this]
  have par: "tree_parents bk arity (x # xs) = (p, add_all bk t (map snd (take arity xs))) # tree_parents bk arity (drop arity xs)"
    by (simp add: tree_parents_def x)
  have "sum_of val (take arity xs) + sum_of val (drop arity xs) = sum_of val xs" "homes bk (take arity xs) + homes bk (drop arity xs) = homes bk xs"
    unfolding sum_of_append[symmetric] homes_append[symmetric] xs by simp_all
  then show ?case using 2(1)[OF sd] a
    by (simp add: par[unfolded x] shaped_def x sum_of_def homes_def get_peer_devices_def o_def add.assoc ac_simps)
qed (simp add: tree_parents_def shaped_def sum_of_def homes_def get_peer_devices_def)

lemma redistribute_ok:
  assumes "length ps = length cgs" "shaped bk sh ps" "\<forall>q \<in> set ps. val (snd q) = v"
  shows "homes bk (redistribute bk ps cgs) = homes bk ps + mset (concat cgs) \<and> shaped bk sh (redistribute bk ps cgs) \<and>
    (\<forall>q \<in> set (redistribute bk ps cgs). val (snd q) = v)"
  using assms
proof (induction ps cgs rule: list_induct2)
  case (Cons x ps cg cgs)
  obtain p t where x: "x = (p, t)" by (cases x)
  have t: "be_shape bk t = sh" "val t = v" using Cons.prems by (auto simp: shaped_def x)
  have r: "redistribute bk (x # ps) (cg # cgs) = (map (\<lambda>(child, device). (child, be_to_device bk t device)) cg @ [(p, t)]) @ redistribute bk ps cgs"
    by (simp add: redistribute_def x)
  have d: "get_peer_devices bk (map (\<lambda>(child, device). (child, be_to_device bk t device)) cg) = cg"
    using move[OF t(1)] by (auto simp: get_peer_devices_def case_prod_unfold intro!: map_idI)
  have "homes bk (map (\<lambda>(child, device). (child, be_to_device bk t device)) cg) = mset cg" unfolding homes_def d by simp
  then have "homes bk (redistribute bk (x # ps) (cg # cgs)) = homes bk (x # ps) + mset (concat (cg # cgs))"
    using Cons.IH Cons.prems by (simp add: r[unfolded x] shaped_def x)
  moreover have "shaped bk sh (redistribute bk (x # ps) (cg # cgs)) \<and> (\<forall>q \<in> set (redistribute bk (x # ps) (cg # cgs)). val (snd q) = v)"
    using Cons.IH Cons.prems move[OF t(1)] t by (auto simp: r shaped_def)
  ultimately show ?case by blast
qed (simp add: redistribute_def homes_def get_peer_devices_def shaped_def)

lemma tree_inner_ok:
  assumes "0 < arity" "shaped bk sh ts"
  shows "\<exists>r. all_reduce_sum_tree_inner bk arity ts = Some r \<and> spread bk val r (sum_of val ts) (homes bk ts) \<and> shaped bk sh r \<and> length r = length ts"
  using assms(2)
proof (induction ts rule: length_induct)
  case (1 ts)
  define cgs where "cgs = map (\<lambda>(_, children). get_peer_devices bk children) (tree_groups arity ts)"
  let ?ps = "tree_parents bk arity ts"
  note p = parents_ok[OF 1(2), of arity, folded cgs_def]
  have len: "length ?ps = length cgs" by (simp add: cgs_def tree_parents_length)
  obtain ps where ps: "all_reduce_sum_tree_inner bk arity ts = Some (redistribute bk ps cgs)" "length ps = length cgs" "shaped bk sh ps"
    "\<forall>q \<in> set ps. val (snd q) = sum_of val ts" "homes bk ps = homes bk ?ps"
  proof (cases "1 < length ?ps")
    case True
    have l: "length ?ps < length ts"
      using tree_groups_length[of arity ts] assms(1) True by (metis less_le_trans order.strict_trans2 tree_parents_length)
    obtain r where r: "all_reduce_sum_tree_inner bk arity ?ps = Some r" "spread bk val r (sum_of val ?ps) (homes bk ?ps)" "shaped bk sh r" "length r = length ?ps"
      using 1(1) l p by blast
    have "all_reduce_sum_tree_inner bk arity ts = Some (redistribute bk r cgs)"
      by (subst all_reduce_sum_tree_inner.simps) (use True r(1) in \<open>simp add: Let_def cgs_def\<close>)
    then show ?thesis using r p len by (intro that[of r]) (auto simp: spread_def)
  next
    case False
    have e: "all_reduce_sum_tree_inner bk arity ts = Some (redistribute bk ?ps cgs)"
      by (subst all_reduce_sum_tree_inner.simps) (use False in \<open>simp add: Let_def cgs_def\<close>)
    have "?ps = [] \<or> (\<exists>q. ?ps = [q])" using False by (cases ?ps) auto
    then have "\<forall>q \<in> set ?ps. val (snd q) = sum_of val ?ps" by (auto simp: sum_of_def)
    with e len p show ?thesis by (intro that[of ?ps]) auto
  qed
  note r = redistribute_ok[OF ps(2-4)]
  have h: "homes bk (redistribute bk ps cgs) = homes bk ts" using r p ps(5) by simp
  moreover from arg_cong[OF h, of size] have "length (redistribute bk ps cgs) = length ts" by (simp add: homes_def get_peer_devices_def)
  ultimately show ?case using ps(1) r by (auto simp: spread_def)
qed

lemma sum_of_mset: "mset a = mset b \<Longrightarrow> sum_of val a = sum_of val b"
  unfolding sum_of_def by (metis mset_map sum_mset_sum_list)

lemma tree_ok:
  assumes "0 < arity" "shaped bk sh ts"
  shows "\<exists>r. all_reduce_sum_tree bk arity ts = Some r \<and> spread bk val r (sum_of val ts) (homes bk ts)"
proof -
  let ?ts = "sort_key (\<lambda>(_, t). be_device_id bk (be_device bk t)) ts"
  have m: "mset ?ts = mset ts" by simp
  have "shaped bk sh ?ts" using assms(2) by (simp add: shaped_def)
  from tree_inner_ok[OF assms(1) this] show ?thesis
    using sum_of_mset[OF m] by (auto simp: all_reduce_sum_tree_def homes_def get_peer_devices_def)
qed

lemma delete_first:
  assumes "distinct (map fst ((p, t) # ts))"
  shows "AList.delete p ((p, t) # ts) = ts"
  using assms by (force simp: AList.delete_eq filter_id_conv)

lemma centralized_ok:
  assumes "distinct (map fst ts)" "ts \<noteq> []" "shaped bk sh ts"
  shows "\<exists>r. all_reduce_sum_centralized bk ts = Some r \<and> spread bk val r (sum_of val ts) (homes bk ts)"
proof -
  obtain p t rest where ts: "ts = (p, t) # rest" using assms(2) by (cases ts) auto
  have sh: "be_shape bk t = sh" "\<forall>t \<in> set (map snd rest). be_shape bk t = sh" using assms(3) by (auto simp: shaped_def ts)
  note a = add_all_ok[OF sh]
  let ?sum = "add_all bk t (map snd rest)"
  let ?r = "map (\<lambda>(dest, device). (dest, be_to_device bk ?sum device)) (get_peer_devices bk rest) @ [(p, ?sum)]"
  have d: "AList.delete p (get_peer_devices bk ts) = get_peer_devices bk rest"
    using assms(1) by (auto simp: get_peer_devices_def ts AList.delete_eq filter_id_conv case_prod_unfold)
  have "all_reduce_sum_centralized bk ts = Some ?r"
    using delete_first[of p t rest] assms(1) d
    by (simp add: all_reduce_sum_centralized_def reduce_sum_centralized_def broadcast_centralized_def ts) (auto simp: get_peer_devices_def)
  moreover have "get_peer_devices bk (map (\<lambda>(dest, device). (dest, be_to_device bk ?sum device)) (get_peer_devices bk rest)) = get_peer_devices bk rest"
    using a move[of ?sum] by (auto simp: get_peer_devices_def case_prod_unfold)
  then have "homes bk (map (\<lambda>(dest, device). (dest, be_to_device bk ?sum device)) (get_peer_devices bk rest)) = homes bk rest"
    unfolding homes_def by simp
  then have "homes bk ?r = homes bk ts" using a by (simp add: ts)
  moreover have "\<forall>q \<in> set ?r. val (snd q) = sum_of val ts" using a move[of ?sum] by (auto simp: sum_of_def ts o_def)
  ultimately show ?thesis unfolding spread_def by blast
qed

subsection \<open>Reduce and broadcast\<close>

lemma group_sums_ok:
  assumes "\<forall>t \<in> set ts. be_shape bk t = sh"
  shows "(\<forall>t \<in> set (map (\<lambda>(t, children). add_all bk t children) (tree_groups arity ts)). be_shape bk t = sh) \<and>
    sum_list (map val (map (\<lambda>(t, children). add_all bk t children) (tree_groups arity ts))) = sum_list (map val ts)"
  using assms
proof (induction arity ts rule: tree_groups.induct)
  case (2 arity x xs)
  have sx: "be_shape bk x = sh" and st: "\<forall>t \<in> set (take arity xs). be_shape bk t = sh" and sd: "\<forall>t \<in> set (drop arity xs). be_shape bk t = sh"
    using 2(2) set_take_subset[of arity xs] set_drop_subset[of arity xs] by auto
  have "sum_list (map val (take arity xs)) + sum_list (map val (drop arity xs)) = sum_list (map val xs)"
    unfolding sum_list_append[symmetric] map_append[symmetric] by simp
  then show ?case using 2(1)[OF sd] add_all_ok[OF sx st] by (simp add: add.assoc)
qed simp

lemma reduce_tree_inner_ok:
  assumes "0 < arity" "ts \<noteq> []" "\<forall>t \<in> set ts. be_shape bk t = sh"
  shows "\<exists>t. reduce_sum_tree_inner bk arity ts = Some t \<and> val t = sum_list (map val ts) \<and> be_device bk t = be_device bk (hd ts)"
  using assms(2,3)
proof (induction ts rule: length_induct)
  case (1 ts)
  define ps where "ps = map (\<lambda>(t, children). add_all bk t children) (tree_groups arity ts)"
  obtain x xs where ts: "ts = x # xs" using 1(2) by (cases ts) auto
  have "\<forall>t \<in> set (take arity xs). be_shape bk t = sh" using 1(3) set_take_subset[of arity xs] by (auto simp: ts)
  then have hd: "ps \<noteq> []" "be_device bk (hd ps) = be_device bk x" using add_all_ok[of x "take arity xs"] 1(3) by (auto simp: ps_def ts)
  note g = group_sums_ok[OF 1(3), of arity, folded ps_def]
  show ?case
  proof (cases "1 < length ps")
    case True
    have "length ps < length ts" using tree_groups_length[of arity ts] assms(1) True
      by (metis length_map less_le_trans order.strict_trans2 ps_def)
    with 1(1) hd(1) g obtain t where "reduce_sum_tree_inner bk arity ps = Some t" "val t = sum_list (map val ps)" "be_device bk t = be_device bk (hd ps)"
      by blast
    moreover have "reduce_sum_tree_inner bk arity ts = reduce_sum_tree_inner bk arity ps"
      by (subst reduce_sum_tree_inner.simps) (use True in \<open>simp add: Let_def ps_def\<close>)
    ultimately show ?thesis using g hd by (simp add: ts)
  next
    case False
    with hd(1) obtain p where p: "ps = [p]" by (cases ps) auto
    have "reduce_sum_tree_inner bk arity ts = Some p"
      by (subst reduce_sum_tree_inner.simps) (use p in \<open>simp add: Let_def ps_def[symmetric]\<close>)
    then show ?thesis using g hd by (simp add: ts p)
  qed
qed

lemma delete_sum:
  assumes "distinct (map fst ts)" "map_of ts p = Some t"
  shows "mset ts = add_mset (p, t) (mset (AList.delete p ts))"
  using assms
proof (induction ts)
  case (Cons q ts)
  show ?case
  proof (cases "fst q = p")
    case True
    then have "AList.delete p (q # ts) = ts" using Cons.prems(1) delete_first[of p "snd q" ts] by (cases q) simp
    then show ?thesis using Cons.prems(2) True by (cases q) simp
  qed (use Cons in \<open>cases q; simp\<close>)
qed simp

lemma reduce_ok:
  assumes "distinct (map fst ts)" "map_of ts root = Some rt" "shaped bk sh ts"
  shows "\<exists>t. reduce_sum_centralized bk ts root = Some t \<and> val t = sum_of val ts \<and> be_device bk t = be_device bk rt"
    and "0 < arity \<Longrightarrow> \<exists>t. reduce_sum_tree bk ts root arity = Some t \<and> val t = sum_of val ts \<and> be_device bk t = be_device bk rt"
proof -
  let ?rest = "map snd (AList.delete root ts)"
  note d = delete_sum[OF assms(1,2)]
  have "set ts = insert (root, rt) (set (AList.delete root ts))" using d by (metis set_mset_add_mset_insert set_mset_mset)
  with assms(3) have all: "\<forall>q \<in> insert (root, rt) (set (AList.delete root ts)). be_shape bk (snd q) = sh" unfolding shaped_def by metis
  have s: "be_shape bk rt = sh" using bspec[OF all insertI1] by simp
  have "\<forall>t \<in> set ?rest. be_shape bk t = sh" using all unfolding set_map by blast
  note s = s this
  have v: "sum_of val ts = val rt + sum_list (map val ?rest)"
    using sum_of_mset[of ts "(root, rt) # AList.delete root ts"] d by (simp add: sum_of_def o_def)
  show "\<exists>t. reduce_sum_centralized bk ts root = Some t \<and> val t = sum_of val ts \<and> be_device bk t = be_device bk rt"
    using add_all_ok[OF s] v assms(2) by (simp add: reduce_sum_centralized_def)
  let ?s = "sort_key (\<lambda>t. be_device_id bk (be_device bk t)) ?rest"
  have "mset (map val ?s) = mset (map val ?rest)" by (simp only: mset_map mset_sort)
  then have "sum_list (map val ?s) = sum_list (map val ?rest)" by (metis sum_mset_sum_list)
  then have "sum_list (map val (rt # ?s)) = sum_of val ts" using v by simp
  moreover have "\<forall>t \<in> set (rt # ?s). be_shape bk t = sh" using s by simp
  ultimately show "0 < arity \<Longrightarrow> \<exists>t. reduce_sum_tree bk ts root arity = Some t \<and> val t = sum_of val ts \<and> be_device bk t = be_device bk rt"
    using reduce_tree_inner_ok[of arity "rt # ?s"] assms(2) by (simp add: reduce_sum_tree_def)
qed

lemma group_devices: "mset (map fst (tree_groups arity ds)) + mset (concat (map snd (tree_groups arity ds))) = mset ds"
proof (induction arity ds rule: tree_groups.induct)
  case (2 arity x xs)
  have "mset (take arity xs) + mset (drop arity xs) = mset xs" unfolding mset_append[symmetric] by simp
  with 2 show ?case by (simp add: ac_simps)
qed simp

lemma broadcast_tree_inner_ok:
  assumes "0 < arity" "be_shape bk tensor = sh" "ds \<noteq> []" "be_device bk tensor = snd (hd ds)"
  shows "\<exists>r. broadcast_tree_inner bk arity tensor ds = Some r \<and> spread bk val r (val tensor) (mset ds) \<and> shaped bk sh r \<and> length r = length ds"
  using assms(3,4)
proof (induction ds rule: length_induct)
  case (1 ds)
  define gs where "gs = tree_groups arity ds"
  have ne: "map fst gs \<noteq> []" "hd (map fst gs) = hd ds" using 1(2) by (cases ds; simp add: gs_def)+
  obtain ps where ps: "broadcast_tree_inner bk arity tensor ds = Some (redistribute bk ps (map snd gs))" "length ps = length (map snd gs)"
    "shaped bk sh ps" "\<forall>q \<in> set ps. val (snd q) = val tensor" "homes bk ps = mset (map fst gs)"
  proof (cases "1 < length gs")
    case True
    have "length (map fst gs) < length ds"
      using tree_groups_length[of arity ds] assms(1) True by (metis gs_def length_map less_le_trans order.strict_trans2)
    moreover have "be_device bk tensor = snd (hd (map fst gs))" using 1(3) ne(2) by simp
    ultimately obtain r where r: "broadcast_tree_inner bk arity tensor (map fst gs) = Some r"
      "spread bk val r (val tensor) (mset (map fst gs))" "shaped bk sh r" "length r = length (map fst gs)"
      using 1(1) ne(1) by blast
    have "broadcast_tree_inner bk arity tensor ds = Some (redistribute bk r (map snd gs))"
      by (subst broadcast_tree_inner.simps) (use True r(1) in \<open>simp add: Let_def gs_def\<close>)
    then show ?thesis using r by (intro that[of r]) (auto simp: spread_def)
  next
    case False
    with ne(1) obtain g where g: "gs = [g]" by (cases gs) auto
    obtain root d where rd: "fst g = (root, d)" by (cases "fst g")
    have "broadcast_tree_inner bk arity tensor ds = Some (redistribute bk [(root, tensor)] (map snd gs))"
      by (subst broadcast_tree_inner.simps) (use g rd in \<open>simp add: Let_def gs_def[symmetric]\<close>)
    moreover have "hd ds = (root, d)" using g rd ne(2) by simp
    ultimately show ?thesis using g rd 1(3) assms(2) by (intro that[of "[(root, tensor)]"]) (auto simp: shaped_def)
  qed
  note r = redistribute_ok[OF ps(2-4)]
  have h: "homes bk (redistribute bk ps (map snd gs)) = mset ds" using r ps(5) group_devices[of arity ds] by (simp add: gs_def)
  moreover from arg_cong[OF h, of size] have "length (redistribute bk ps (map snd gs)) = length ds" by (simp add: homes_def get_peer_devices_def)
  ultimately show ?case using ps(1) r by (auto simp: spread_def)
qed

lemma broadcast_ok:
  assumes "distinct (map fst ds)" "map_of ds root = Some d" "be_shape bk tensor = sh" "be_device bk tensor = d"
  shows "\<exists>r. broadcast_centralized bk ds root tensor = Some r \<and> spread bk val r (val tensor) (mset ds)"
    and "0 < arity \<Longrightarrow> \<exists>r. broadcast_tree bk ds root tensor arity = Some r \<and> spread bk val r (val tensor) (mset ds)"
proof -
  note ds = delete_sum[OF assms(1,2)]
  let ?r = "map (\<lambda>(dest, device). (dest, be_to_device bk tensor device)) (AList.delete root ds)"
  have "get_peer_devices bk ?r = AList.delete root ds"
    using move[OF assms(3)] by (auto simp: get_peer_devices_def case_prod_unfold intro!: map_idI)
  then have "homes bk (?r @ [(root, tensor)]) = mset ds" using ds assms(4) by (simp add: homes_def[of bk ?r])
  moreover have "broadcast_centralized bk ds root tensor = Some (?r @ [(root, tensor)])"
    using map_of_SomeD[OF assms(2)] by (force simp: broadcast_centralized_def)
  moreover have "\<forall>q \<in> set (?r @ [(root, tensor)]). val (snd q) = val tensor" using move[OF assms(3)] by auto
  ultimately show "\<exists>r. broadcast_centralized bk ds root tensor = Some r \<and> spread bk val r (val tensor) (mset ds)"
    unfolding spread_def by blast
  show "0 < arity \<Longrightarrow> \<exists>r. broadcast_tree bk ds root tensor arity = Some r \<and> spread bk val r (val tensor) (mset ds)"
    using broadcast_tree_inner_ok[of arity tensor "(root, d) # sort_key (\<lambda>(_, d). be_device_id bk d) (AList.delete root ds)"] assms(2-4) ds
    by (auto simp: broadcast_tree_def)
qed

end

end
