(* ===== verification/Local_Ring.thy ===== *)
theory Local_Ring
  imports Complex_Main Local_Collectives
begin

text \<open>
  The ring all-reduce of \<^verbatim>\<open>src/local/all_reduce/ring.rs\<close> and the choice of the algorithm in
  \<^verbatim>\<open>src/local/all_reduce/base.rs\<close>. Every slice travels on its own: the proof follows one column of
  slices around the ring.
\<close>

section \<open>Definitions\<close>

text \<open>\<open>max_by\<close> keeps the last of several greatest dimensions; a tensor without dimensions panics.\<close>

definition get_slice_dim :: "nat list \<Rightarrow> nat option" where
  "get_slice_dim shape =
     (case enumerate 0 shape of
        [] \<Rightarrow> None
      | first # rest \<Rightarrow> Some (fst (fold (\<lambda>(i, d) best. if snd best \<le> d then (i, d) else best) rest first)))"

definition get_ring_reduce_slice_ranges :: "nat \<Rightarrow> nat \<Rightarrow> (nat \<times> nat) list option" where
  "get_ring_reduce_slice_ranges slice_dim_size slice_count =
     (if slice_count = 0 then None
      else
        let slice_size = div_ceil slice_dim_size slice_count;
            ranges = map (\<lambda>i. (i * slice_size, i * slice_size + slice_size)) [0..<slice_count]
        in Some (butlast ranges @ [(fst (last ranges), slice_dim_size)]))"

definition slice_tensor :: "('t, 'd) backend \<Rightarrow> nat list \<Rightarrow> nat \<Rightarrow> (nat \<times> nat) list \<Rightarrow> 't \<Rightarrow> 't list" where
  "slice_tensor bk shape slice_dim ranges t =
     map (\<lambda>range. be_slice bk t ((map (\<lambda>d. (0, d)) shape)[slice_dim := range])) ranges"

definition slice_tensors ::
  "('t, 'd) backend \<Rightarrow> 't tensor_map \<Rightarrow> nat list \<Rightarrow> nat \<Rightarrow> (peer_id \<times> 't list) list option" where
  "slice_tensors bk tensors shape slice_dim =
     map_option (\<lambda>ranges. map (\<lambda>(p, t). (p, slice_tensor bk shape slice_dim ranges t)) tensors)
       (get_ring_reduce_slice_ranges (shape ! slice_dim) (length tensors))"

text \<open>One transfer. Both slices are taken out of their vectors and put back at the same index.\<close>

definition ring_slice_idx :: "bool \<Rightarrow> nat \<Rightarrow> nat \<Rightarrow> nat \<Rightarrow> nat" where
  "ring_slice_idx is_phase_one n cycle i =
     (if is_phase_one then (i + (n - 1) * cycle) mod n else (i + 1 + (n - 1) * cycle) mod n)"

definition combine_slices :: "('t, 'd) backend \<Rightarrow> bool \<Rightarrow> 't \<Rightarrow> 't \<Rightarrow> 't" where
  "combine_slices bk is_phase_one src dest =
     (let src_on_dest = be_to_device bk src (be_device bk dest) in
      if is_phase_one then be_add bk dest src_on_dest
      else be_slice_assign bk dest (map (\<lambda>d. (0, d)) (be_shape bk dest)) src_on_dest)"

definition ring_transfer :: "('t, 'd) backend \<Rightarrow> bool \<Rightarrow> nat \<Rightarrow> nat \<Rightarrow> nat \<Rightarrow> 't list list \<Rightarrow> 't list list" where
  "ring_transfer bk is_phase_one n cycle i slices =
     (let dest = (i + 1) mod n; s = ring_slice_idx is_phase_one n cycle i
      in slices[dest := (slices ! dest)[s := combine_slices bk is_phase_one (slices ! i ! s) (slices ! dest ! s)]])"

definition ring_cycles :: "('t, 'd) backend \<Rightarrow> bool \<Rightarrow> 't list list \<Rightarrow> 't list list" where
  "ring_cycles bk is_phase_one slices =
     (let n = length slices
      in fold (\<lambda>cycle. fold (ring_transfer bk is_phase_one n cycle) [0..<n]) [0..<n - 1] slices)"

definition all_reduce_sum_ring :: "('t, 'd) backend \<Rightarrow> 't tensor_map \<Rightarrow> 't tensor_map option" where
  "all_reduce_sum_ring bk tensors =
     Option.bind (get_common_shape bk tensors) (\<lambda>shape.
     Option.bind (get_slice_dim shape) (\<lambda>slice_dim.
       if shape ! slice_dim < length tensors then all_reduce_sum_tree bk 2 tensors
       else Option.bind (slice_tensors bk tensors shape slice_dim) (\<lambda>sliced.
         let slices = ring_cycles bk False (ring_cycles bk True (map snd sliced))
         in Some (zip (map fst sliced) (map (\<lambda>row. be_cat bk row slice_dim) slices)))))"

text \<open>\<open>all_reduce_local_only\<close>.\<close>

definition all_reduce_local_only ::
  "('t, 'd) backend \<Rightarrow> 't tensor_map \<Rightarrow> reduce_operation \<Rightarrow> collective_config \<Rightarrow> 't tensor_map option" where
  "all_reduce_local_only bk tensors op config =
     Option.bind (case cc_local_all_reduce_strategy config of
         ArCentralized \<Rightarrow> all_reduce_sum_centralized bk tensors
       | ArTree arity \<Rightarrow> all_reduce_sum_tree bk arity tensors
       | ArRing \<Rightarrow> all_reduce_sum_ring bk tensors) (\<lambda>reduced_tensors.
       Some (if op = ReduceMean
             then map (\<lambda>(p, t). (p, be_div_scalar bk t (length reduced_tensors))) reduced_tensors
             else reduced_tensors))"

section \<open>Ranges\<close>

definition ranges_fit :: "nat \<Rightarrow> nat \<Rightarrow> bool" where
  "ranges_fit m c \<longleftrightarrow> (c - 1) * div_ceil m c \<le> m"

lemma ranges_nth:
  assumes "0 < c"
  shows "\<exists>rs. get_ring_reduce_slice_ranges m c = Some rs \<and> length rs = c \<and>
    (\<forall>i < c. rs ! i = (i * div_ceil m c, if i = c - 1 then m else i * div_ceil m c + div_ceil m c))"
proof -
  obtain k where c: "c = Suc k" using assms by (cases c) auto
  let ?f = "\<lambda>i. (i * div_ceil m c, i * div_ceil m c + div_ceil m c)"
  have b: "butlast (map ?f [0..<c]) = map ?f [0..<k]" "last (map ?f [0..<c]) = ?f k" by (simp_all add: c butlast_append)
  then show ?thesis using assms
    by (auto simp: get_ring_reduce_slice_ranges_def Let_def c nth_append)
qed

section \<open>One column\<close>

definition column :: "'t list list \<Rightarrow> nat \<Rightarrow> 't list" where
  "column slices j = map (\<lambda>row. row ! j) slices"

definition column_transfer :: "('t, 'd) backend \<Rightarrow> bool \<Rightarrow> nat \<Rightarrow> nat \<Rightarrow> 't list \<Rightarrow> 't list" where
  "column_transfer bk phase n i col =
     col[(i + 1) mod n := combine_slices bk phase (col ! i) (col ! ((i + 1) mod n))]"

definition ring_sender :: "bool \<Rightarrow> nat \<Rightarrow> nat \<Rightarrow> nat \<Rightarrow> nat" where
  "ring_sender phase n cycle j = (j + (if phase then n else n - 1) + cycle) mod n"

lemma add_mod_cancel:
  fixes a b k n :: nat
  assumes "(a + k) mod n = (b + k) mod n" "a < n" "b < n"
  shows "a = b"
proof -
  obtain p q where "a + k + n * p = b + k + n * q" using assms(1) unfolding nat_mod_eq_iff by blast
  then have "a + n * p = b + n * q" by simp
  then have "a mod n = b mod n" by (metis mod_mult_self2)
  then show ?thesis using assms(2,3) by simp
qed

lemma ring_sender_iff:
  assumes "i < n" "j < n"
  shows "ring_slice_idx phase n cycle i = j \<longleftrightarrow> i = ring_sender phase n cycle j"
proof -
  define off where "off = (if phase then 0 else 1 :: nat)"
  have off: "off \<le> n" using assms(1) by (simp add: off_def)
  have idx: "ring_slice_idx phase n cycle i' = (i' + off + (n - 1) * cycle) mod n" for i' by (simp add: ring_slice_idx_def off_def)
  have snd: "ring_sender phase n cycle j = (j + (n - off) + cycle) mod n" by (simp add: ring_sender_def off_def)
  have n: "(n - 1) * cycle + cycle = n * cycle" using assms(1) by (cases n) (simp_all add: algebra_simps)
  have "ring_slice_idx phase n cycle (ring_sender phase n cycle j) = (j + (n - off) + cycle + off + (n - 1) * cycle) mod n"
    unfolding idx snd by (metis add.assoc mod_add_left_eq)
  also have "j + (n - off) + cycle + off + (n - 1) * cycle = j + n * Suc cycle" using n off by (simp add: algebra_simps)
  also have "\<dots> mod n = j" using assms(2) by (simp del: mult_Suc_right)
  finally have s: "ring_slice_idx phase n cycle (ring_sender phase n cycle j) = j" .
  have inj: "i1 = i2" if "i1 < n" "i2 < n" "ring_slice_idx phase n cycle i1 = ring_slice_idx phase n cycle i2" for i1 i2
    using that add_mod_cancel[of i1 "off + (n - 1) * cycle" n i2] unfolding idx by (simp add: add.assoc)
  have "ring_sender phase n cycle j < n" unfolding snd using assms(1) by simp
  then show ?thesis using s inj assms(1) by metis
qed

definition square :: "nat \<Rightarrow> 't list list \<Rightarrow> bool" where
  "square n slices \<longleftrightarrow> length slices = n \<and> (\<forall>row \<in> set slices. length row = n)"

lemma square_transfer: "square n slices \<Longrightarrow> 0 < n \<Longrightarrow> square n (ring_transfer bk phase n c i slices)"
  by (auto simp: square_def ring_transfer_def Let_def set_update_subsetI dest!: set_update_subset_insert[THEN subsetD])

lemma transfer_column:
  assumes "square n slices" "i < n" "j < n"
  shows "column (ring_transfer bk phase n c i slices) j =
    (if ring_slice_idx phase n c i = j then column_transfer bk phase n i (column slices j) else column slices j)"
proof (rule nth_equalityI)
  fix t assume t: "t < length (column (ring_transfer bk phase n c i slices) j)"
  have l: "length slices = n" "\<And>t. t < n \<Longrightarrow> length (slices ! t) = n" using assms(1) by (auto simp: square_def)
  have d: "(i + 1) mod n < n" using assms(2) by simp
  have t': "t < n" using t l by (simp add: column_def ring_transfer_def Let_def)
  show "column (ring_transfer bk phase n c i slices) j ! t =
    (if ring_slice_idx phase n c i = j then column_transfer bk phase n i (column slices j) else column slices j) ! t"
    using l d t' assms(2,3) by (auto simp: column_def ring_transfer_def column_transfer_def Let_def nth_list_update)
qed (simp add: column_def ring_transfer_def column_transfer_def Let_def)

lemma cycle_column:
  assumes "square n slices" "j < n" "distinct is" "set is \<subseteq> {..<n}"
  shows "square n (fold (ring_transfer bk phase n c) is slices) \<and>
    column (fold (ring_transfer bk phase n c) is slices) j =
      (if ring_sender phase n c j \<in> set is then column_transfer bk phase n (ring_sender phase n c j) (column slices j) else column slices j)"
  using assms(1,3,4)
proof (induction "is" arbitrary: slices)
  case (Cons i "is")
  have i: "i < n" using Cons.prems by simp
  have s: "square n (ring_transfer bk phase n c i slices)" using square_transfer[OF Cons.prems(1)] i by simp
  show ?case using Cons.IH[OF s] Cons.prems(2,3) transfer_column[OF Cons.prems(1) i assms(2), of bk phase c]
      ring_sender_iff[OF i assms(2), of phase c] by auto
qed simp

lemma cycles_column:
  assumes "square n slices" "j < n"
  shows "square n (ring_cycles bk phase slices) \<and>
    column (ring_cycles bk phase slices) j = fold (\<lambda>c. column_transfer bk phase n (ring_sender phase n c j)) [0..<n - 1] (column slices j)"
proof -
  have "square n (fold (\<lambda>cycle. fold (ring_transfer bk phase n cycle) [0..<n]) cs slices) \<and>
      column (fold (\<lambda>cycle. fold (ring_transfer bk phase n cycle) [0..<n]) cs slices) j =
        fold (\<lambda>c. column_transfer bk phase n (ring_sender phase n c j)) cs (column slices j)" for cs
    using assms(1)
  proof (induction cs arbitrary: slices)
    case (Cons c cs)
    have "ring_sender phase n c j \<in> set [0..<n]" using assms(2) by (simp add: ring_sender_def)
    moreover have "set [0..<n] \<subseteq> {..<n}" by auto
    ultimately show ?case using Cons.IH cycle_column[OF Cons.prems assms(2) distinct_upt[of 0 n], of bk phase c] by simp
  qed simp
  moreover have "length slices = n" using assms(1) by (simp add: square_def)
  ultimately show ?thesis by (simp add: ring_cycles_def Let_def)
qed

section \<open>A column around the ring\<close>

text \<open>What the ring relies on beyond sums: assigning the whole of a slice replaces its value.\<close>

locale ring_sum = tensor_sum +
  assumes assign: "be_shape bk t = sh \<Longrightarrow> be_shape bk u = sh \<Longrightarrow> be_device bk t = be_device bk u \<Longrightarrow>
    val (be_slice_assign bk t (map (\<lambda>d. (0, d)) sh) u) = val u \<and> be_shape bk (be_slice_assign bk t (map (\<lambda>d. (0, d)) sh) u) = sh \<and>
    be_device bk (be_slice_assign bk t (map (\<lambda>d. (0, d)) sh) u) = be_device bk t"
begin

definition placed :: "nat \<Rightarrow> (nat \<Rightarrow> 'b) \<Rightarrow> 'a list \<Rightarrow> bool" where
  "placed n dev col \<longleftrightarrow> length col = n \<and> (\<forall>t < n. be_shape bk (col ! t) = sh \<and> be_device bk (col ! t) = dev t)"

lemma transfer_placed:
  assumes "placed n dev col" "i < n"
  shows "placed n dev (column_transfer bk phase n i col)"
    and "val (column_transfer bk phase n i col ! t) =
      (if t = (i + 1) mod n \<and> t < n then (if phase then val (col ! t) + val (col ! i) else val (col ! i)) else val (col ! t))"
proof -
  let ?d = "(i + 1) mod n"
  have d: "?d < n" using assms(2) by simp
  have c: "length col = n" "be_shape bk (col ! ?d) = sh" "be_shape bk (col ! i) = sh" "be_device bk (col ! ?d) = dev ?d"
    using assms d by (auto simp: placed_def)
  note m = move[OF c(3), of "dev ?d"]
  have new: "be_shape bk (combine_slices bk phase (col ! i) (col ! ?d)) = sh \<and> be_device bk (combine_slices bk phase (col ! i) (col ! ?d)) = dev ?d \<and>
      val (combine_slices bk phase (col ! i) (col ! ?d)) = (if phase then val (col ! ?d) + val (col ! i) else val (col ! i))"
    using add[OF c(2), of "be_to_device bk (col ! i) (dev ?d)"] assign[OF c(2), of "be_to_device bk (col ! i) (dev ?d)"] m c
    by (simp add: combine_slices_def Let_def)
  show "placed n dev (column_transfer bk phase n i col)"
    using assms(1) new d by (auto simp: placed_def column_transfer_def nth_list_update)
  show "val (column_transfer bk phase n i col ! t) =
      (if t = ?d \<and> t < n then (if phase then val (col ! t) + val (col ! i) else val (col ! i)) else val (col ! t))"
    using new c(1) d by (auto simp: column_transfer_def nth_list_update)
qed

lemma phase_one:
  assumes "placed n dev col" "j < n" "k < n"
  defines "w \<equiv> \<lambda>m. (j + m) mod n"
  shows "placed n dev (fold (\<lambda>c. column_transfer bk True n (ring_sender True n c j)) [0..<k] col) \<and>
    (\<forall>m < n. val (fold (\<lambda>c. column_transfer bk True n (ring_sender True n c j)) [0..<k] col ! w m) =
       (if m \<le> k then (\<Sum>l \<le> m. val (col ! w l)) else val (col ! w m)))"
  using assms(3)
proof (induction k)
  case 0
  then show ?case using assms(1) by simp
next
  case (Suc k)
  define col' where "col' = fold (\<lambda>c. column_transfer bk True n (ring_sender True n c j)) [0..<k] col"
  have IH: "placed n dev col'" "\<And>m. m < n \<Longrightarrow> val (col' ! w m) = (if m \<le> k then (\<Sum>l \<le> m. val (col ! w l)) else val (col ! w m))"
    using Suc by (auto simp: col'_def)
  have "j + n + k = j + k + n" by simp
  then have send: "ring_sender True n k j = w k" by (simp only: ring_sender_def w_def if_True mod_add_self2)
  have n: "0 < n" using assms(2) by simp
  have dst: "(w k + 1) mod n = w (Suc k)" "Suc (w k) mod n = w (Suc k)" by (simp_all add: w_def mod_Suc_eq)
  have inj: "w m = w (Suc k) \<longleftrightarrow> m = Suc k" if "m < n" for m
    using that Suc.prems add_mod_cancel[of m j n "Suc k"] by (auto simp: w_def add.commute)
  have lt: "w m < n" for m using n by (simp add: w_def)
  note t = transfer_placed[OF IH(1) lt[of k], of True]
  have fold: "fold (\<lambda>c. column_transfer bk True n (ring_sender True n c j)) [0..<Suc k] col = column_transfer bk True n (w k) col'"
    by (simp add: col'_def send)
  have "val (column_transfer bk True n (w k) col' ! w m) = (if m \<le> Suc k then (\<Sum>l \<le> m. val (col ! w l)) else val (col ! w m))"
    if m: "m < n" for m
  proof (cases "m = Suc k")
    case True
    then show ?thesis using t(2)[of "w m"] IH(2)[OF m] IH(2)[of k] lt Suc.prems by (simp add: dst add.commute)
  next
    case False
    then show ?thesis using t(2)[of "w m"] IH(2)[OF m] inj[OF m] by (simp add: dst)
  qed
  then show ?case unfolding fold using t(1) by blast
qed

lemma phase_two:
  assumes "placed n dev col" "j < n" "k < n"
  defines "w \<equiv> \<lambda>m. (j + (n - 1) + m) mod n"
  shows "placed n dev (fold (\<lambda>c. column_transfer bk False n (ring_sender False n c j)) [0..<k] col) \<and>
    (\<forall>m \<le> k. val (fold (\<lambda>c. column_transfer bk False n (ring_sender False n c j)) [0..<k] col ! w m) = val (col ! w 0))"
  using assms(3)
proof (induction k)
  case 0
  then show ?case using assms(1) by simp
next
  case (Suc k)
  define col' where "col' = fold (\<lambda>c. column_transfer bk False n (ring_sender False n c j)) [0..<k] col"
  have IH: "placed n dev col'" "\<And>m. m \<le> k \<Longrightarrow> val (col' ! w m) = val (col ! w 0)"
    using Suc by (auto simp: col'_def)
  have send: "ring_sender False n k j = w k" by (simp add: ring_sender_def w_def)
  have n: "0 < n" using assms(2) by simp
  have dst: "(w k + 1) mod n = w (Suc k)" "Suc (w k) mod n = w (Suc k)" by (simp_all add: w_def mod_Suc_eq)
  have lt: "w m < n" for m using n by (simp add: w_def)
  note t = transfer_placed[OF IH(1) lt[of k], of False]
  have fold: "fold (\<lambda>c. column_transfer bk False n (ring_sender False n c j)) [0..<Suc k] col = column_transfer bk False n (w k) col'"
    by (simp add: col'_def send)
  have "val (column_transfer bk False n (w k) col' ! w m) = val (col ! w 0)" if "m \<le> Suc k" for m
    using t(2)[of "w m"] IH(2)[of k] IH(2)[of m] that lt by (cases "w m = w (Suc k)") (auto simp: dst le_Suc_eq)
  then show ?case unfolding fold using t(1) by blast
qed

lemma shift_bij: "j < n \<Longrightarrow> bij_betw (\<lambda>m. (j + m) mod n) {..<n} {..<n}" for j n :: nat
proof -
  assume j: "j < n"
  have "inj_on (\<lambda>m. (j + m) mod n) {..<n}"
    by (rule inj_onI) (metis add.commute add_mod_cancel lessThan_iff)
  moreover have "(\<lambda>m. (j + m) mod n) ` {..<n} \<subseteq> {..<n}" using j by auto
  ultimately show ?thesis by (simp add: bij_betw_def card_image card_subset_eq)
qed

lemma phase_one_total:
  assumes "placed n dev col" "j < n"
  shows "val (fold (\<lambda>c. column_transfer bk True n (ring_sender True n c j)) [0..<n - 1] col ! ((j + (n - 1)) mod n)) = (\<Sum>i < n. val (col ! i))"
proof -
  have n: "n - 1 < n" using assms(2) by simp
  have "(\<Sum>l \<le> n - 1. val (col ! ((j + l) mod n))) = (\<Sum>l < n. val (col ! ((j + l) mod n)))" using assms(2) by (intro sum.cong) auto
  also have "\<dots> = (\<Sum>i < n. val (col ! i))" using sum.reindex_bij_betw[OF shift_bij[OF assms(2)], of "\<lambda>i. val (col ! i)"] .
  finally show ?thesis using conjunct2[OF phase_one[OF assms n]] n by (metis order_refl)
qed

lemma phase_two_all:
  assumes "placed n dev col" "j < n" "t < n"
  shows "val (fold (\<lambda>c. column_transfer bk False n (ring_sender False n c j)) [0..<n - 1] col ! t) = val (col ! ((j + (n - 1)) mod n))"
proof -
  have n: "n - 1 < n" using assms(2) by simp
  have "t \<in> (\<lambda>m. ((j + (n - 1)) mod n + m) mod n) ` {..<n}"
    using shift_bij[of "(j + (n - 1)) mod n" n] assms(2,3) by (simp add: bij_betw_def)
  then obtain m where m: "m < n" "t = (j + (n - 1) + m) mod n" by (auto simp: mod_add_left_eq)
  then have "m \<le> n - 1" by simp
  then show ?thesis using conjunct2[OF phase_two[OF assms(1,2) n]] m(2) by (metis add_0_right)
qed

lemma column_result:
  assumes "placed n dev col" "j < n" "t < n"
  defines "step \<equiv> \<lambda>phase. fold (\<lambda>c. column_transfer bk phase n (ring_sender phase n c j)) [0..<n - 1]"
  shows "be_device bk (step False (step True col) ! t) = dev t \<and> be_shape bk (step False (step True col) ! t) = sh \<and>
    val (step False (step True col) ! t) = (\<Sum>i < n. val (col ! i))"
proof -
  have n: "n - 1 < n" using assms(2) by simp
  note p1 = conjunct1[OF phase_one[OF assms(1,2) n]]
  note p2 = conjunct1[OF phase_two[OF p1 assms(2) n]]
  show ?thesis using p2 assms(3) phase_two_all[OF p1 assms(2,3)] phase_one_total[OF assms(1,2)]
    by (simp add: placed_def step_def)
qed

end

section \<open>Elements of tensors\<close>

definition in_bounds :: "nat list \<Rightarrow> nat list \<Rightarrow> bool" where
  "in_bounds i s \<longleftrightarrow> list_all2 (<) i s"

definition ranges_in :: "(nat \<times> nat) list \<Rightarrow> nat list \<Rightarrow> bool" where
  "ranges_in rs s \<longleftrightarrow> list_all2 (\<lambda>(a, b) d. a \<le> b \<and> b \<le> d) rs s"

text \<open>The backend element by element, over an exact commutative sum: what \<open>float_to_device\<close>, \<open>float_add\<close>,
  \<open>float_slice_assign\<close> of a whole tensor, \<open>float_slice\<close>, \<open>float_cat\<close> and \<open>float_div_scalar\<close> do.\<close>

locale tensor_backend =
  fixes bk :: "('t, 'd) backend" and elem :: "'t \<Rightarrow> nat list \<Rightarrow> 'v :: comm_monoid_add" and quot :: "'v \<Rightarrow> nat \<Rightarrow> 'v"
  assumes at_move: "elem (be_to_device bk t d) i = elem t i" "be_shape bk (be_to_device bk t d) = be_shape bk t"
      "be_device bk (be_to_device bk t d) = d"
    and at_add: "be_shape bk a = be_shape bk b \<Longrightarrow> be_device bk a = be_device bk b \<Longrightarrow>
      elem (be_add bk a b) i = elem a i + elem b i \<and> be_shape bk (be_add bk a b) = be_shape bk a \<and> be_device bk (be_add bk a b) = be_device bk a"
    and at_assign: "be_shape bk t = be_shape bk u \<Longrightarrow> be_device bk t = be_device bk u \<Longrightarrow>
      elem (be_slice_assign bk t (map (\<lambda>d. (0, d)) (be_shape bk t)) u) i = elem u i \<and>
      be_shape bk (be_slice_assign bk t (map (\<lambda>d. (0, d)) (be_shape bk t)) u) = be_shape bk t \<and>
      be_device bk (be_slice_assign bk t (map (\<lambda>d. (0, d)) (be_shape bk t)) u) = be_device bk t"
    and at_slice: "ranges_in rs (be_shape bk t) \<Longrightarrow>
      be_shape bk (be_slice bk t rs) = map (\<lambda>(a, b). b - a) rs \<and> be_device bk (be_slice bk t rs) = be_device bk t \<and>
      (in_bounds i (map (\<lambda>(a, b). b - a) rs) \<longrightarrow> elem (be_slice bk t rs) i = elem t (map2 (+) (map fst rs) i))"
    and at_cat: "ss \<noteq> [] \<Longrightarrow> sdim < length s \<Longrightarrow>
      \<forall>k < length ss. be_shape bk (ss ! k) = s[sdim := len k] \<and> be_device bk (ss ! k) = d \<Longrightarrow>
      be_device bk (be_cat bk ss sdim) = d \<and> be_shape bk (be_cat bk ss sdim) = s[sdim := (\<Sum>l < length ss. len l)] \<and>
      (k < length ss \<longrightarrow> in_bounds i (s[sdim := len k]) \<longrightarrow>
         elem (be_cat bk ss sdim) (i[sdim := (\<Sum>l < k. len l) + i ! sdim]) = elem (ss ! k) i)"
    and at_div: "elem (be_div_scalar bk t n) i = quot (elem t i) n" "be_shape bk (be_div_scalar bk t n) = be_shape bk t"
      "be_device bk (be_div_scalar bk t n) = be_device bk t"

sublocale tensor_backend \<subseteq> el: ring_sum bk "\<lambda>t. elem t i" sh for i sh
proof
  fix t d
  assume "be_shape bk t = sh"
  then show "elem (be_to_device bk t d) i = elem t i \<and> be_shape bk (be_to_device bk t d) = sh \<and> be_device bk (be_to_device bk t d) = d"
    by (simp add: at_move)
next
  fix a b
  assume "be_shape bk a = sh" "be_shape bk b = sh" "be_device bk a = be_device bk b"
  then show "elem (be_add bk a b) i = elem a i + elem b i \<and> be_shape bk (be_add bk a b) = sh \<and> be_device bk (be_add bk a b) = be_device bk a"
    using at_add[of a b i] by simp
next
  fix t u
  assume "be_shape bk t = sh" "be_shape bk u = sh" "be_device bk t = be_device bk u"
  then show "elem (be_slice_assign bk t (map (\<lambda>d. (0, d)) sh) u) i = elem u i \<and>
      be_shape bk (be_slice_assign bk t (map (\<lambda>d. (0, d)) sh) u) = sh \<and>
      be_device bk (be_slice_assign bk t (map (\<lambda>d. (0, d)) sh) u) = be_device bk t"
    using at_assign[of t u i] by simp
qed

section \<open>The ring all-reduce\<close>

lemma get_slice_dim_Some: "sh \<noteq> [] \<Longrightarrow> \<exists>sdim < length sh. get_slice_dim sh = Some sdim"
proof -
  assume "sh \<noteq> []"
  then obtain x xs where e: "enumerate 0 sh = x # xs" by (cases "enumerate 0 sh") (auto dest: arg_cong[of _ _ length])
  have fold: "fold (\<lambda>(i, d) best. if snd best \<le> d then (i, d) else best) xs b \<in> set (b # xs)" for b xs
  proof (induction xs arbitrary: b)
    case (Cons y ys)
    show ?case using Cons[of y] Cons[of b] by (cases y) (auto simp del: fold_simps simp: fold_Cons)
  qed simp
  then have "fold (\<lambda>(i, d) best. if snd best \<le> d then (i, d) else best) xs x \<in> set (enumerate 0 sh)" unfolding e by simp
  then have "fst (fold (\<lambda>(i, d) best. if snd best \<le> d then (i, d) else best) xs x) < length sh"
    by (auto simp: in_set_enumerate_eq)
  then show ?thesis by (simp add: get_slice_dim_def e)
qed

lemma common_shape: "shaped bk sh ts \<Longrightarrow> ts \<noteq> [] \<Longrightarrow> get_common_shape bk ts = Some sh"
  by (cases ts) (auto simp: shaped_def get_common_shape_def list_all_iff case_prod_unfold)

lemma range_of_index:
  assumes "0 < c" "c \<le> m" "ranges_fit m c" "q < m"
  shows "\<exists>k < c. k * div_ceil m c \<le> q \<and> q < (if k = c - 1 then m else k * div_ceil m c + div_ceil m c)"
proof -
  let ?s = "div_ceil m c"
  have s: "0 < ?s" using assms(1,2) by (simp add: div_ceil_def div_greater_zero_iff)
  let ?k = "min (q div ?s) (c - 1)"
  have "?k * ?s \<le> q" using div_times_less_eq_dividend[of q ?s] by (metis min.cobounded1 mult_le_mono1 order_trans)
  moreover have "q < ?k * ?s + ?s" if "?k \<noteq> c - 1" using that dividend_less_div_times[OF s, of q] by (simp add: min_def split: if_splits)
  ultimately show ?thesis using assms(1,4) by (intro exI[of _ ?k]) auto
qed

text \<open>The ranges as starts and lengths.\<close>

definition range_len :: "nat \<Rightarrow> nat \<Rightarrow> nat \<Rightarrow> nat" where
  "range_len m c k = (if k = c - 1 then m - k * div_ceil m c else div_ceil m c)"

lemma range_in:
  assumes "ranges_fit m c" "k < c"
  shows "k * div_ceil m c + range_len m c k \<le> m"
proof (cases "k = c - 1")
  case False
  then have "Suc k \<le> c - 1" using assms(2) by simp
  from mult_le_mono1[OF this, of "div_ceil m c"] show ?thesis using assms(1) False by (simp add: ranges_fit_def range_len_def)
qed (use assms in \<open>simp add: ranges_fit_def range_len_def\<close>)

lemma range_starts: "k < c \<Longrightarrow> (\<Sum>l < k. range_len m c l) = k * div_ceil m c"
proof -
  assume "k < c"
  then have "(\<Sum>l < k. range_len m c l) = (\<Sum>l < k. div_ceil m c)" by (intro sum.cong) (auto simp: range_len_def)
  then show ?thesis by simp
qed

lemma range_total: "ranges_fit m c \<Longrightarrow> 0 < c \<Longrightarrow> (\<Sum>l < c. range_len m c l) = m"
proof -
  assume a: "ranges_fit m c" "0 < c"
  then obtain k where c: "c = Suc k" by (cases c) auto
  show ?thesis using range_starts[of k c m] a(1) by (simp add: c range_len_def[of _ _ k] ranges_fit_def)
qed

lemma ranges_form:
  assumes "0 < c" "ranges_fit m c"
  shows "get_ring_reduce_slice_ranges m c =
    Some (map (\<lambda>k. (k * div_ceil m c, k * div_ceil m c + range_len m c k)) [0..<c])"
proof -
  obtain rs where rs: "get_ring_reduce_slice_ranges m c = Some rs" "length rs = c"
    "\<forall>i < c. rs ! i = (i * div_ceil m c, if i = c - 1 then m else i * div_ceil m c + div_ceil m c)"
    using ranges_nth[OF assms(1)] by blast
  have "rs = map (\<lambda>k. (k * div_ceil m c, k * div_ceil m c + range_len m c k)) [0..<c]"
    using rs(2,3) assms(2) by (intro nth_equalityI) (auto simp: range_len_def ranges_fit_def)
  then show ?thesis using rs(1) by simp
qed

lemma range_of_len:
  assumes "0 < c" "c \<le> m" "ranges_fit m c" "q < m"
  shows "\<exists>k < c. k * div_ceil m c \<le> q \<and> q < k * div_ceil m c + range_len m c k"
proof -
  obtain k where k: "k < c" "k * div_ceil m c \<le> q" "q < (if k = c - 1 then m else k * div_ceil m c + div_ceil m c)"
    using range_of_index[OF assms] by blast
  then have "q < k * div_ceil m c + range_len m c k" using assms(4) by (auto simp: range_len_def split: if_splits)
  with k show ?thesis by blast
qed

lemma whole_range_update:
  assumes "sdim < length sh" "a + l \<le> sh ! sdim"
  defines "rg \<equiv> (map (\<lambda>d. (0, d)) sh)[sdim := (a, a + l)]"
  shows "ranges_in rg sh" "map (\<lambda>(a, b). b - a) rg = sh[sdim := l]"
    and "length i = length sh \<Longrightarrow> map2 (+) (map fst rg) i = i[sdim := a + i ! sdim]"
proof -
  show "ranges_in rg sh" using assms by (auto simp: ranges_in_def list_all2_conv_all_nth nth_list_update)
  show "map (\<lambda>(a, b). b - a) rg = sh[sdim := l]" by (simp add: rg_def map_update o_def)
  show "length i = length sh \<Longrightarrow> map2 (+) (map fst rg) i = i[sdim := a + i ! sdim]"
    using assms(1) by (intro nth_equalityI) (auto simp: rg_def nth_list_update)
qed

text \<open>The inputs an algorithm is defined on: a tree needs an arity, a ring needs a dimension to slice whose
  ranges stay inside it, or too small a dimension, which goes to the binary tree.\<close>

definition strategy_ok :: "all_reduce_strategy \<Rightarrow> nat list \<Rightarrow> nat \<Rightarrow> bool" where
  "strategy_ok strategy sh n =
     (case strategy of
        ArCentralized \<Rightarrow> True
      | ArTree arity \<Rightarrow> 0 < arity
      | ArRing \<Rightarrow> (case get_slice_dim sh of None \<Rightarrow> False | Some sdim \<Rightarrow> sh ! sdim < n \<or> ranges_fit (sh ! sdim) n))"

context tensor_backend
begin

lemma ring_columns:
  assumes "length ts = n" "k < n" "t < n" "square n M"
    and "\<And>i. i < n \<Longrightarrow> be_shape bk (M ! i ! k) = sh' \<and> be_device bk (M ! i ! k) = dev i"
  defines "F \<equiv> ring_cycles bk False (ring_cycles bk True M)"
  shows "square n F \<and> be_device bk (F ! t ! k) = dev t \<and> be_shape bk (F ! t ! k) = sh' \<and>
    elem (F ! t ! k) i = (\<Sum>l < n. elem (M ! l ! k) i)"
proof -
  have len: "length M = n" using assms(4) by (simp add: square_def)
  have c: "column M k ! l = M ! l ! k" if "l < n" for l using that len by (simp add: column_def)
  have "el.placed sh' n dev (column M k)" using assms(5) len by (simp add: el.placed_def column_def)
  note r = el.column_result[OF this assms(2,3), of i]
  note s1 = cycles_column[OF assms(4,2), of bk True]
  note s2 = cycles_column[OF conjunct1[OF s1] assms(2), of bk False, folded F_def]
  have "length F = n" using s2 by (simp add: square_def)
  then have "column F k ! t = F ! t ! k" using assms(3) by (simp add: column_def)
  then show ?thesis using r s1 s2 c by simp
qed

lemma slices_ok:
  assumes "be_shape bk t = sh" "sdim < length sh" "ranges_fit (sh ! sdim) n" "k < n"
  defines "rs \<equiv> map (\<lambda>k. (k * div_ceil (sh ! sdim) n, k * div_ceil (sh ! sdim) n + range_len (sh ! sdim) n k)) [0..<n]"
  shows "be_shape bk (slice_tensor bk sh sdim rs t ! k) = sh[sdim := range_len (sh ! sdim) n k]"
    and "be_device bk (slice_tensor bk sh sdim rs t ! k) = be_device bk t"
    and "in_bounds i (sh[sdim := range_len (sh ! sdim) n k]) \<Longrightarrow>
      elem (slice_tensor bk sh sdim rs t ! k) i = elem t (i[sdim := k * div_ceil (sh ! sdim) n + i ! sdim])"
proof -
  let ?a = "k * div_ceil (sh ! sdim) n" and ?l = "range_len (sh ! sdim) n k"
  let ?rg = "(map (\<lambda>d. (0, d)) sh)[sdim := (?a, ?a + ?l)]"
  note w = whole_range_update[OF assms(2) range_in[OF assms(3,4)]]
  have e: "slice_tensor bk sh sdim rs t ! k = be_slice bk t ?rg" using assms(4) by (simp add: slice_tensor_def rs_def)
  note s = at_slice[of ?rg t, unfolded assms(1), OF w(1), unfolded w(2)]
  show "be_shape bk (slice_tensor bk sh sdim rs t ! k) = sh[sdim := ?l]" "be_device bk (slice_tensor bk sh sdim rs t ! k) = be_device bk t"
    using s by (simp_all add: e)
  show "in_bounds i (sh[sdim := ?l]) \<Longrightarrow> elem (slice_tensor bk sh sdim rs t ! k) i = elem t (i[sdim := ?a + i ! sdim])"
    using s[of i] w(3)[of i] by (auto simp: e in_bounds_def dest: list_all2_lengthD)
qed

lemma cat_ok:
  assumes "length row = n" "0 < n" "n \<le> sh ! sdim" "ranges_fit (sh ! sdim) n" "sdim < length sh"
    and rows: "\<And>k. k < n \<Longrightarrow> be_shape bk (row ! k) = sh[sdim := range_len (sh ! sdim) n k] \<and> be_device bk (row ! k) = d"
    and elems: "\<And>k j. k < n \<Longrightarrow> in_bounds j (sh[sdim := range_len (sh ! sdim) n k]) \<Longrightarrow>
      elem (row ! k) j = f (j[sdim := k * div_ceil (sh ! sdim) n + j ! sdim])"
  shows "be_device bk (be_cat bk row sdim) = d \<and> be_shape bk (be_cat bk row sdim) = sh \<and>
    (in_bounds i sh \<longrightarrow> elem (be_cat bk row sdim) i = f i)"
proof -
  let ?len = "range_len (sh ! sdim) n" and ?S = "div_ceil (sh ! sdim) n"
  have ne: "row \<noteq> []" using assms(1,2) by auto
  have all: "\<forall>k < length row. be_shape bk (row ! k) = sh[sdim := ?len k] \<and> be_device bk (row ! k) = d" using rows assms(1) by simp
  note cat = at_cat[OF ne assms(5) all, unfolded assms(1)]
  have "elem (be_cat bk row sdim) i = f i" if i: "in_bounds i sh"
  proof -
    have li: "length i = length sh" "i ! sdim < sh ! sdim" using i assms(5) by (auto simp: in_bounds_def list_all2_conv_all_nth)
    obtain k where k: "k < n" "k * ?S \<le> i ! sdim" "i ! sdim < k * ?S + ?len k" using range_of_len[OF assms(2-4) li(2)] by auto
    define j where "j = i[sdim := i ! sdim - k * ?S]"
    have j: "in_bounds j (sh[sdim := ?len k])" "j[sdim := k * ?S + j ! sdim] = i"
      using i k li assms(5) by (auto simp: j_def in_bounds_def list_all2_conv_all_nth nth_list_update)
    show ?thesis using cat[of k j] k(1) j range_starts[OF k(1), of "sh ! sdim"] elems[OF k(1) j(1)] by simp
  qed
  then show ?thesis using cat[of 0] range_total[OF assms(4,2)] by simp
qed

lemma ring_ok:
  assumes "shaped bk sh ts" "ts \<noteq> []" "get_slice_dim sh = Some sdim" "sdim < length sh"
    and "length ts \<le> sh ! sdim" "ranges_fit (sh ! sdim) (length ts)"
  shows "\<exists>r. all_reduce_sum_ring bk ts = Some r \<and> map fst r = map fst ts \<and>
    (\<forall>t < length ts. be_device bk (snd (r ! t)) = be_device bk (snd (ts ! t)) \<and> be_shape bk (snd (r ! t)) = sh \<and>
       (\<forall>i. in_bounds i sh \<longrightarrow> elem (snd (r ! t)) i = sum_of (\<lambda>t. elem t i) ts))"
proof -
  define n m S where "n = length ts" and "m = sh ! sdim" and "S = div_ceil m n"
  define rs where "rs = map (\<lambda>k. (k * S, k * S + range_len m n k)) [0..<n]"
  have n: "0 < n" "n \<le> m" and fit: "ranges_fit m n" using assms(2,5,6) by (simp_all add: n_def m_def)
  define M where "M = map (\<lambda>(p, t). slice_tensor bk sh sdim rs t) ts"
  have M: "length M = n" "\<And>l. l < n \<Longrightarrow> M ! l = slice_tensor bk sh sdim rs (snd (ts ! l))" by (simp_all add: M_def n_def case_prod_unfold)
  have sq: "square n M" by (auto simp: square_def M_def n_def[symmetric] slice_tensor_def rs_def)
  have shp: "be_shape bk (snd (ts ! l)) = sh" if "l < n" for l using assms(1) that nth_mem[of l ts] by (simp add: shaped_def n_def)
  define F where "F = ring_cycles bk False (ring_cycles bk True M)"
  note sl = slices_ok[OF shp assms(4), of _ n, folded m_def S_def, folded rs_def, OF _ fit]
  note F = ring_columns[OF n_def[symmetric] _ _ sq, folded F_def, of k t "sh[sdim := range_len m n k]" "\<lambda>l. be_device bk (snd (ts ! l))" for k t]
  have col: "square n F \<and> be_device bk (F ! t ! k) = be_device bk (snd (ts ! t)) \<and> be_shape bk (F ! t ! k) = sh[sdim := range_len m n k] \<and>
      elem (F ! t ! k) i = (\<Sum>l < n. elem (M ! l ! k) i)" if "k < n" "t < n" for k t i
  proof (rule F[OF that])
    fix l assume "l < n"
    then show "be_shape bk (M ! l ! k) = sh[sdim := range_len m n k] \<and> be_device bk (M ! l ! k) = be_device bk (snd (ts ! l))"
      using sl(1,2)[OF _ that(1)] M(2) by simp
  qed
  have FL: "length F = n" "\<And>t. t < n \<Longrightarrow> length (F ! t) = n" using col[OF n(1) n(1)] by (auto simp: square_def)
  let ?r = "zip (map fst ts) (map (\<lambda>row. be_cat bk row sdim) F)"
  have run: "all_reduce_sum_ring bk ts = Some ?r"
    using common_shape[OF assms(1,2)] assms(3,5) ranges_form[OF n(1) fit]
    by (simp add: all_reduce_sum_ring_def slice_tensors_def n_def[symmetric] m_def[symmetric] rs_def[symmetric, unfolded S_def]
        F_def M_def Let_def o_def case_prod_unfold)
  have "be_device bk (be_cat bk (F ! t) sdim) = be_device bk (snd (ts ! t)) \<and> be_shape bk (be_cat bk (F ! t) sdim) = sh \<and>
      (in_bounds i sh \<longrightarrow> elem (be_cat bk (F ! t) sdim) i = sum_of (\<lambda>t. elem t i) ts)" if t: "t < n" for t i
  proof (rule cat_ok[OF FL(2)[OF t] n(1) n(2)[unfolded m_def] fit[unfolded m_def] assms(4), folded m_def S_def])
    show "be_shape bk (F ! t ! k) = sh[sdim := range_len m n k] \<and> be_device bk (F ! t ! k) = be_device bk (snd (ts ! t))" if "k < n" for k
      using col[OF that t] by simp
    fix k j
    assume k: "k < n" and j: "in_bounds j (sh[sdim := range_len m n k])"
    have "elem (F ! t ! k) j = (\<Sum>l < n. elem (M ! l ! k) j)" using col[OF k t] by simp
    also have "\<dots> = (\<Sum>l < n. elem (snd (ts ! l)) (j[sdim := k * S + j ! sdim]))" using sl(3)[OF _ k j] M(2) by (intro sum.cong) simp_all
    finally show "elem (F ! t ! k) j = sum_of (\<lambda>t. elem t (j[sdim := k * S + j ! sdim])) ts"
      by (simp add: sum_of_def sum_list_sum_nth n_def atLeast0LessThan)
  qed
  then show ?thesis using run FL by (intro exI[of _ ?r]) (auto simp: n_def)
qed

lemma spread_elements:
  assumes "\<And>i. \<exists>r. x = Some r \<and> spread bk (\<lambda>t. elem t i) r (v i) hs"
  shows "\<exists>r. x = Some r \<and> homes bk r = hs \<and> (\<forall>q \<in> set r. \<forall>i. in_bounds i sh \<longrightarrow> elem (snd q) i = v i)"
proof -
  obtain r where r: "x = Some r" using assms by blast
  then have "spread bk (\<lambda>t. elem t i) r (v i) hs" for i using assms[of i] by simp
  then show ?thesis using r by (simp add: spread_def)
qed

lemma sum_ok:
  assumes "distinct (map fst ts)" "ts \<noteq> []" "shaped bk sh ts" "strategy_ok strategy sh (length ts)"
  shows "\<exists>r. (case strategy of
         ArCentralized \<Rightarrow> all_reduce_sum_centralized bk ts
       | ArTree arity \<Rightarrow> all_reduce_sum_tree bk arity ts
       | ArRing \<Rightarrow> all_reduce_sum_ring bk ts) = Some r \<and> homes bk r = homes bk ts \<and>
     (\<forall>q \<in> set r. \<forall>i. in_bounds i sh \<longrightarrow> elem (snd q) i = sum_of (\<lambda>t. elem t i) ts)"
proof -
  have tree: "\<exists>r. all_reduce_sum_tree bk arity ts = Some r \<and> homes bk r = homes bk ts \<and>
     (\<forall>q \<in> set r. \<forall>i. in_bounds i sh \<longrightarrow> elem (snd q) i = sum_of (\<lambda>t. elem t i) ts)" if "0 < arity" for arity
    by (rule spread_elements) (rule el.tree_ok[OF that assms(3)])
  show ?thesis
  proof (cases strategy)
    case ArCentralized
    then show ?thesis using spread_elements[OF el.centralized_ok[OF assms(1-3)]] by simp
  next
    case (ArTree arity)
    then show ?thesis using tree assms(4) by (simp add: strategy_ok_def)
  next
    case ArRing
    then obtain sdim where sdim: "get_slice_dim sh = Some sdim" "sh ! sdim < length ts \<or> ranges_fit (sh ! sdim) (length ts)"
      using assms(4) by (auto simp: strategy_ok_def split: option.splits)
    have "sh \<noteq> []" using sdim(1) by (auto simp: get_slice_dim_def)
    then have d: "sdim < length sh" using get_slice_dim_Some sdim(1) by fastforce
    show ?thesis
    proof (cases "sh ! sdim < length ts")
      case True
      then have "all_reduce_sum_ring bk ts = all_reduce_sum_tree bk 2 ts"
        using common_shape[OF assms(3,2)] sdim(1) by (simp add: all_reduce_sum_ring_def)
      then show ?thesis using tree[of 2] ArRing by simp
    next
      case False
      then obtain r where r: "all_reduce_sum_ring bk ts = Some r" "map fst r = map fst ts"
        "\<forall>t < length ts. be_device bk (snd (r ! t)) = be_device bk (snd (ts ! t)) \<and> be_shape bk (snd (r ! t)) = sh \<and>
          (\<forall>i. in_bounds i sh \<longrightarrow> elem (snd (r ! t)) i = sum_of (\<lambda>t. elem t i) ts)"
        using ring_ok[OF assms(3,2) sdim(1) d] sdim(2) by auto
      have len: "length r = length ts" using r(2) by (metis length_map)
      have fst: "fst (r ! t) = fst (ts ! t)" if "t < length ts" for t using that len r(2) by (metis nth_map)
      have "get_peer_devices bk r = get_peer_devices bk ts"
        using len fst r(3) by (intro nth_equalityI) (auto simp: get_peer_devices_def case_prod_unfold)
      moreover have "\<forall>q \<in> set r. \<forall>i. in_bounds i sh \<longrightarrow> elem (snd q) i = sum_of (\<lambda>t. elem t i) ts"
        using r(3) len by (metis in_set_conv_nth)
      ultimately show ?thesis using r(1) ArRing by (simp add: homes_def)
    qed
  qed
qed

lemma all_reduce_ok:
  assumes "distinct (map fst ts)" "ts \<noteq> []" "shaped bk sh ts"
    and "strategy_ok (cc_local_all_reduce_strategy config) sh (length ts)"
  shows "\<exists>r. all_reduce_local_only bk ts op config = Some r \<and> homes bk r = homes bk ts \<and>
    (\<forall>q \<in> set r. \<forall>i. in_bounds i sh \<longrightarrow> elem (snd q) i =
       (if op = ReduceMean then quot (sum_of (\<lambda>t. elem t i) ts) (length ts) else sum_of (\<lambda>t. elem t i) ts))"
proof -
  obtain r where r: "(case cc_local_all_reduce_strategy config of
         ArCentralized \<Rightarrow> all_reduce_sum_centralized bk ts
       | ArTree arity \<Rightarrow> all_reduce_sum_tree bk arity ts
       | ArRing \<Rightarrow> all_reduce_sum_ring bk ts) = Some r" "homes bk r = homes bk ts"
     "\<forall>q \<in> set r. \<forall>i. in_bounds i sh \<longrightarrow> elem (snd q) i = sum_of (\<lambda>t. elem t i) ts"
    using sum_ok[OF assms] by blast
  have len: "length r = length ts" using arg_cong[OF r(2), of size] by (simp add: homes_def get_peer_devices_def)
  have h: "homes bk (map (\<lambda>(p, t). (p, be_div_scalar bk t k)) r) = homes bk ts" for k
    using r(2) by (simp add: homes_def get_peer_devices_def case_prod_unfold o_def at_div)
  show ?thesis using r h len by (auto simp: all_reduce_local_only_def at_div)
qed

lemma reduce_broadcast_ok:
  assumes "distinct (map fst ts)" "map_of ts peer = Some pt" "shaped bk sh ts" "0 < arity"
  shows "(\<exists>t. reduce_sum_centralized bk ts peer = Some t \<and> be_device bk t = be_device bk pt \<and> elem t i = sum_of (\<lambda>t. elem t i) ts) \<and>
    (\<exists>t. reduce_sum_tree bk ts peer arity = Some t \<and> be_device bk t = be_device bk pt \<and> elem t i = sum_of (\<lambda>t. elem t i) ts) \<and>
    (\<exists>r. broadcast_centralized bk (get_peer_devices bk ts) peer pt = Some r \<and> spread bk (\<lambda>t. elem t i) r (elem pt i) (homes bk ts)) \<and>
    (\<exists>r. broadcast_tree bk (get_peer_devices bk ts) peer pt arity = Some r \<and> spread bk (\<lambda>t. elem t i) r (elem pt i) (homes bk ts))"
proof -
  have d: "distinct (map fst (get_peer_devices bk ts))" "map_of (get_peer_devices bk ts) peer = Some (be_device bk pt)"
    using assms(1,2) by (simp_all add: get_peer_devices_def case_prod_unfold o_def map_of_map[unfolded case_prod_unfold])
  have pt: "be_shape bk pt = sh" using assms(3) map_of_SomeD[OF assms(2)] by (force simp: shaped_def)
  note r = el.reduce_ok[OF assms(1-3), where i = i]
  note b = el.broadcast_ok[OF d pt refl, where i = i, folded homes_def]
  show ?thesis using r(1) r(2)[OF assms(4)] b(1) b(2)[OF assms(4)] by blast
qed

end

section \<open>An exact backend\<close>

text \<open>Tensors of rational numbers as functions of the coordinates.\<close>

record exact_tensor =
  ex_device :: nat
  ex_shape :: "nat list"
  ex_data :: "nat list \<Rightarrow> rat"

fun cat_data :: "nat \<Rightarrow> exact_tensor list \<Rightarrow> nat list \<Rightarrow> rat" where
  "cat_data sdim [] i = 0"
| "cat_data sdim (t # ts) i =
     (if i ! sdim < ex_shape t ! sdim then ex_data t i else cat_data sdim ts (i[sdim := i ! sdim - ex_shape t ! sdim]))"

definition exact_backend :: "(exact_tensor, nat) backend" where
  "exact_backend =
     \<lparr>be_device = ex_device,
      be_to_device = (\<lambda>t d. t\<lparr>ex_device := d\<rparr>),
      be_add = (\<lambda>a b. a\<lparr>ex_data := \<lambda>i. ex_data a i + ex_data b i\<rparr>),
      be_div_scalar = (\<lambda>t n. t\<lparr>ex_data := \<lambda>i. ex_data t i / of_nat n\<rparr>),
      be_shape = ex_shape,
      be_slice = (\<lambda>t rs. t\<lparr>ex_shape := map (\<lambda>(a, b). b - a) rs, ex_data := \<lambda>i. ex_data t (map2 (+) (map fst rs) i)\<rparr>),
      be_slice_assign = (\<lambda>t rs u. t\<lparr>ex_data := \<lambda>i.
         if list_all2 (\<lambda>(a, b) x. a \<le> x \<and> x < b) rs i then ex_data u (map2 (-) i (map fst rs)) else ex_data t i\<rparr>),
      be_cat = (\<lambda>ts sdim. \<lparr>ex_device = ex_device (hd ts), ex_shape = (ex_shape (hd ts))[sdim := sum_list (map (\<lambda>t. ex_shape t ! sdim) ts)],
         ex_data = cat_data sdim ts\<rparr>),
      be_device_id = id\<rparr>"

definition exact_at :: "exact_tensor \<Rightarrow> nat list \<Rightarrow> rat" where
  "exact_at t i = (if in_bounds i (ex_shape t) then ex_data t i else 0)"

lemma cat_data_nth:
  assumes "k < length ss" "\<forall>l < length ss. ex_shape (ss ! l) ! sdim = len l" "i ! sdim < len k" "sdim < length i"
  shows "cat_data sdim ss (i[sdim := (\<Sum>l < k. len l) + i ! sdim]) = ex_data (ss ! k) i"
  using assms(1-3)
proof (induction ss arbitrary: k len)
  case (Cons s ss)
  have s: "ex_shape s ! sdim = len 0" using Cons.prems(2) by (metis length_greater_0_conv list.distinct(1) nth_Cons_0)
  show ?case
  proof (cases k)
    case 0
    then show ?thesis using Cons.prems(3) assms(4) s by simp
  next
    case (Suc k')
    have tail: "\<forall>l < length ss. ex_shape (ss ! l) ! sdim = len (Suc l)" using Cons.prems(2) by auto
    have sum: "(\<Sum>l < k. len l) = len 0 + (\<Sum>l < k'. len (Suc l))" by (simp only: Suc sum.lessThan_Suc_shift)
    show ?thesis using Cons.IH[OF _ tail, of k'] Cons.prems(1,3) assms(4) s Suc sum by simp
  qed
qed simp

lemma exact_cat:
  assumes "ss \<noteq> []" "sdim < length s" "\<forall>k < length ss. ex_shape (ss ! k) = s[sdim := len k] \<and> ex_device (ss ! k) = d"
  shows "ex_device (be_cat exact_backend ss sdim) = d" "ex_shape (be_cat exact_backend ss sdim) = s[sdim := (\<Sum>l < length ss. len l)]"
    and "k < length ss \<Longrightarrow> in_bounds i (s[sdim := len k]) \<Longrightarrow>
      exact_at (be_cat exact_backend ss sdim) (i[sdim := (\<Sum>l < k. len l) + i ! sdim]) = exact_at (ss ! k) i"
proof -
  have h: "hd ss = ss ! 0" "0 < length ss" using assms(1) by (simp_all add: hd_conv_nth)
  have dims: "\<forall>l < length ss. ex_shape (ss ! l) ! sdim = len l" using assms(2,3) by simp
  have sums: "sum_list (map (\<lambda>t. ex_shape t ! sdim) ss) = (\<Sum>l < length ss. len l)"
    using dims by (simp add: sum_list_sum_nth atLeast0LessThan)
  show "ex_device (be_cat exact_backend ss sdim) = d" using assms(3) h by (simp add: exact_backend_def)
  show shp: "ex_shape (be_cat exact_backend ss sdim) = s[sdim := (\<Sum>l < length ss. len l)]"
    using assms(3) h sums by (simp add: exact_backend_def)
  assume k: "k < length ss" and i: "in_bounds i (s[sdim := len k])"
  have li: "length i = length s" "i ! sdim < len k" using i assms(2) by (auto simp: in_bounds_def list_all2_conv_all_nth)
  have "(\<Sum>l < k. len l) + len k = sum len {..<Suc k}" by simp
  also have "\<dots> \<le> (\<Sum>l < length ss. len l)" using k by (intro sum_mono2) auto
  finally have "in_bounds (i[sdim := (\<Sum>l < k. len l) + i ! sdim]) (s[sdim := (\<Sum>l < length ss. len l)])"
    using i li assms(2) by (auto simp: in_bounds_def list_all2_conv_all_nth nth_list_update split: if_splits)
  then show "exact_at (be_cat exact_backend ss sdim) (i[sdim := (\<Sum>l < k. len l) + i ! sdim]) = exact_at (ss ! k) i"
    using cat_data_nth[OF k dims li(2)] li(1) assms(2,3) k i shp by (simp add: exact_at_def exact_backend_def)
qed

interpretation exact: tensor_backend exact_backend exact_at "\<lambda>v n. v / of_nat n"
proof
  fix t u :: exact_tensor and i
  assume "be_shape exact_backend t = be_shape exact_backend u" "be_device exact_backend t = be_device exact_backend u"
  moreover have "list_all2 (\<lambda>(a, b) x. a \<le> x \<and> x < b) (map (\<lambda>d. (0 :: nat, d)) s) i \<longleftrightarrow> in_bounds i s" for s
    by (auto simp: in_bounds_def list_all2_conv_all_nth)
  moreover have "map2 (-) i (map fst (map (\<lambda>d. (0 :: nat, d)) s)) = i" if "in_bounds i s" for s
    using that by (intro nth_equalityI) (auto simp: in_bounds_def list_all2_conv_all_nth)
  ultimately show "exact_at (be_slice_assign exact_backend t (map (\<lambda>d. (0, d)) (be_shape exact_backend t)) u) i = exact_at u i \<and>
      be_shape exact_backend (be_slice_assign exact_backend t (map (\<lambda>d. (0, d)) (be_shape exact_backend t)) u) = be_shape exact_backend t \<and>
      be_device exact_backend (be_slice_assign exact_backend t (map (\<lambda>d. (0, d)) (be_shape exact_backend t)) u) = be_device exact_backend t"
    by (simp add: exact_backend_def exact_at_def o_def)
next
  fix rs and t :: exact_tensor and i
  assume r: "ranges_in rs (be_shape exact_backend t)"
  have "in_bounds (map2 (+) (map fst rs) i) (ex_shape t)" if "in_bounds i (map (\<lambda>(a, b). b - a) rs)"
    using r that by (fastforce simp: ranges_in_def in_bounds_def list_all2_conv_all_nth exact_backend_def case_prod_unfold)
  then show "be_shape exact_backend (be_slice exact_backend t rs) = map (\<lambda>(a, b). b - a) rs \<and>
      be_device exact_backend (be_slice exact_backend t rs) = be_device exact_backend t \<and>
      (in_bounds i (map (\<lambda>(a, b). b - a) rs) \<longrightarrow> exact_at (be_slice exact_backend t rs) i = exact_at t (map2 (+) (map fst rs) i))"
    by (simp add: exact_backend_def exact_at_def)
next
  fix ss sdim s len d k i
  assume a: "ss \<noteq> []" "sdim < length s"
    "\<forall>k < length ss. be_shape exact_backend (ss ! k) = s[sdim := len k] \<and> be_device exact_backend (ss ! k) = d"
  then have "\<forall>k < length ss. ex_shape (ss ! k) = s[sdim := len k] \<and> ex_device (ss ! k) = d" by (simp add: exact_backend_def)
  note c = exact_cat[OF a(1,2) this]
  have p: "be_device exact_backend = ex_device" "be_shape exact_backend = ex_shape" by (simp_all add: exact_backend_def)
  show "be_device exact_backend (be_cat exact_backend ss sdim) = d \<and>
      be_shape exact_backend (be_cat exact_backend ss sdim) = s[sdim := (\<Sum>l < length ss. len l)] \<and>
      (k < length ss \<longrightarrow> in_bounds i (s[sdim := len k]) \<longrightarrow>
        exact_at (be_cat exact_backend ss sdim) (i[sdim := (\<Sum>l < k. len l) + i ! sdim]) = exact_at (ss ! k) i)"
    unfolding p using c by blast
qed (auto simp: exact_backend_def exact_at_def)

section \<open>Properties\<close>

text \<open>C32. On a backend that moves, adds, slices, assigns and concatenates exactly, the centralized, the tree and
  the ring all-reduce give the same result: every peer gets, on its own device, a tensor whose every
  element is the sum of that element over all the peers, divided by their number for a mean. A
  tree needs a positive arity; a ring needs a dimension whose ranges stay inside it.\<close>

theorem local_all_reduce_agrees:
  assumes "tensor_backend bk elem quot" "distinct (map fst ts)" "ts \<noteq> []" "shaped bk sh ts"
    and "strategy_ok (cc_local_all_reduce_strategy config) sh (length ts)"
  shows "\<exists>r. all_reduce_local_only bk ts op config = Some r \<and> homes bk r = homes bk ts \<and>
    (\<forall>q \<in> set r. \<forall>i. in_bounds i sh \<longrightarrow> elem (snd q) i =
       (if op = ReduceMean then quot (sum_of (\<lambda>t. elem t i) ts) (length ts) else sum_of (\<lambda>t. elem t i) ts))"
  by (rule tensor_backend.all_reduce_ok[OF assms])

definition sample_tensor :: "nat \<Rightarrow> rat \<Rightarrow> exact_tensor" where
  "sample_tensor d v = \<lparr>ex_device = d, ex_shape = [2, 3], ex_data = \<lambda>i. v\<rparr>"

theorem local_all_reduce_agrees_witness:
  "\<exists>r. all_reduce_local_only exact_backend [(7, sample_tensor 1 2), (9, sample_tensor 0 4)] ReduceMean
       (config_new\<lparr>cc_local_all_reduce_strategy := ArRing\<rparr>) = Some r \<and>
     homes exact_backend r = {#(7, 1), (9, 0)#} \<and> (\<forall>q \<in> set r. exact_at (snd q) [1, 2] = 3)"
proof -
  let ?ts = "[(7 :: nat, sample_tensor 1 2), (9, sample_tensor 0 4)]"
  have dim: "get_slice_dim [2, 3] = Some 1" by (simp add: get_slice_dim_def)
  have ok: "strategy_ok (cc_local_all_reduce_strategy (config_new\<lparr>cc_local_all_reduce_strategy := ArRing\<rparr>)) [2, 3] (length ?ts)"
    using dim by (simp add: strategy_ok_def ranges_fit_def div_ceil_def numeral_2_eq_2[symmetric])
  have sh: "shaped exact_backend [2, 3] ?ts" by (simp add: shaped_def exact_backend_def sample_tensor_def)
  have ts: "distinct (map fst ?ts)" "?ts \<noteq> []" by simp_all
  obtain r where r: "all_reduce_local_only exact_backend ?ts ReduceMean (config_new\<lparr>cc_local_all_reduce_strategy := ArRing\<rparr>) = Some r"
    "homes exact_backend r = homes exact_backend ?ts"
    "\<forall>q \<in> set r. \<forall>i. in_bounds i [2, 3] \<longrightarrow> exact_at (snd q) i = sum_of (\<lambda>t. exact_at t i) ?ts / of_nat (length ?ts)"
    using local_all_reduce_agrees[OF exact.tensor_backend_axioms ts sh ok, of ReduceMean] by auto
  have "sum_of (\<lambda>t. exact_at t [1, 2]) ?ts / of_nat (length ?ts) = 3" "in_bounds [1, 2] [2, 3]"
    by (simp_all add: sum_of_def in_bounds_def exact_at_def sample_tensor_def)
  moreover have "homes exact_backend ?ts = {#(7, 1), (9, 0)#}"
    by (simp add: homes_def get_peer_devices_def sample_tensor_def exact_backend_def)
  ultimately show ?thesis using r by (intro exI[of _ r]) metis
qed

text \<open>C34. The slices of a ring all-reduce follow each other from the first index of the dimension to its size, one per
  peer. They all stay inside the dimension exactly when the peers but the last fill no more than
  it; otherwise some range ends past the tensor or before it starts, as five elements over four
  peers show.\<close>

theorem ring_ranges_tile:
  assumes "0 < c"
  shows "\<exists>rs. get_ring_reduce_slice_ranges m c = Some rs \<and> length rs = c \<and> fst (rs ! 0) = 0 \<and> snd (rs ! (c - 1)) = m \<and>
    (\<forall>k. Suc k < c \<longrightarrow> snd (rs ! k) = fst (rs ! Suc k)) \<and>
    ((\<forall>k < c. fst (rs ! k) \<le> snd (rs ! k) \<and> snd (rs ! k) \<le> m) \<longleftrightarrow> (c - 1) * div_ceil m c \<le> m)"
proof -
  obtain rs where rs: "get_ring_reduce_slice_ranges m c = Some rs" "length rs = c"
    "\<forall>i < c. rs ! i = (i * div_ceil m c, if i = c - 1 then m else i * div_ceil m c + div_ceil m c)"
    using ranges_nth[OF assms] by blast
  have "fst (rs ! k) \<le> snd (rs ! k) \<and> snd (rs ! k) \<le> m" if "(c - 1) * div_ceil m c \<le> m" "k < c" for k
  proof -
    have "ranges_fit m c" using that(1) by (simp add: ranges_fit_def)
    from range_in[OF this that(2)] show ?thesis using that rs(3) by (cases "k = c - 1") (simp_all add: range_len_def)
  qed
  moreover have "(c - 1) * div_ceil m c \<le> m" if "\<forall>k < c. fst (rs ! k) \<le> snd (rs ! k) \<and> snd (rs ! k) \<le> m"
    using that[rule_format, of "c - 1"] rs(3) assms by simp
  ultimately have iff: "(\<forall>k < c. fst (rs ! k) \<le> snd (rs ! k) \<and> snd (rs ! k) \<le> m) \<longleftrightarrow> (c - 1) * div_ceil m c \<le> m" by blast
  have "snd (rs ! k) = fst (rs ! Suc k)" if "Suc k < c" for k using rs(3) that by (cases "k = c - 1") simp_all
  moreover have "fst (rs ! 0) = 0" "snd (rs ! (c - 1)) = m" using rs(3) assms by simp_all
  ultimately show ?thesis using rs(1,2) iff by blast
qed

theorem ring_ranges_tile_witness:
  "get_ring_reduce_slice_ranges 5 4 = Some [(0, 2), (2, 4), (4, 6), (6, 5)] \<and>
   (\<exists>rs. get_ring_reduce_slice_ranges 5 4 = Some rs \<and> \<not> (\<forall>k < 4. fst (rs ! k) \<le> snd (rs ! k) \<and> snd (rs ! k) \<le> 5))"
proof
  show "get_ring_reduce_slice_ranges 5 4 = Some [(0, 2), (2, 4), (4, 6), (6, 5)]"
    by (simp add: get_ring_reduce_slice_ranges_def div_ceil_def upt_conv_Cons)
  obtain rs where "get_ring_reduce_slice_ranges 5 4 = Some rs"
    "(\<forall>k < 4. fst (rs ! k) \<le> snd (rs ! k) \<and> snd (rs ! k) \<le> 5) \<longleftrightarrow> (4 - 1) * div_ceil 5 4 \<le> 5"
    using ring_ranges_tile[of 4 5] by (metis zero_less_numeral)
  then show "\<exists>rs. get_ring_reduce_slice_ranges 5 4 = Some rs \<and> \<not> (\<forall>k < 4. fst (rs ! k) \<le> snd (rs ! k) \<and> snd (rs ! k) \<le> 5)"
    by (simp add: div_ceil_def)
qed

text \<open>C35. The recursion of the tree all-reduce ends exactly when its arity is positive or there is at most one tensor.\<close>

theorem tree_all_reduce_ends: "(\<exists>r. all_reduce_sum_tree bk arity ts = Some r) \<longleftrightarrow> 0 < arity \<or> length ts \<le> 1"
proof -
  let ?ts = "sort_key (\<lambda>(_, t). be_device_id bk (be_device bk t)) ts"
  have small: "\<exists>r. all_reduce_sum_tree_inner bk 0 ?ts = Some r" if "length ts \<le> 1"
    by (subst all_reduce_sum_tree_inner.simps) (use that in \<open>simp add: Let_def tree_parents_length tree_groups_zero\<close>)
  show ?thesis
    using all_reduce_tree_ends[of arity bk ?ts] all_reduce_tree_loops[of bk arity ?ts] small
    by (cases "arity = 0") (auto simp: all_reduce_sum_tree_def)
qed

text \<open>C33. A local reduce gives the root, on its own device, the sum of every peer's tensor, and a local broadcast gives
  every peer the root's tensor on its own device, by the centralized algorithm and by a tree of positive
  arity alike.\<close>

theorem local_reduce_broadcast:
  assumes "tensor_backend bk elem quot" "distinct (map fst ts)" "map_of ts peer = Some pt" "shaped bk sh ts" "0 < arity"
  shows "(\<exists>t. reduce_sum_centralized bk ts peer = Some t \<and> be_device bk t = be_device bk pt \<and> elem t i = sum_of (\<lambda>t. elem t i) ts) \<and>
    (\<exists>t. reduce_sum_tree bk ts peer arity = Some t \<and> be_device bk t = be_device bk pt \<and> elem t i = sum_of (\<lambda>t. elem t i) ts) \<and>
    (\<exists>r. broadcast_centralized bk (get_peer_devices bk ts) peer pt = Some r \<and> spread bk (\<lambda>t. elem t i) r (elem pt i) (homes bk ts)) \<and>
    (\<exists>r. broadcast_tree bk (get_peer_devices bk ts) peer pt arity = Some r \<and> spread bk (\<lambda>t. elem t i) r (elem pt i) (homes bk ts))"
  by (rule tensor_backend.reduce_broadcast_ok[OF assms])

theorem local_reduce_broadcast_witness:
  "(\<exists>t. reduce_sum_tree exact_backend [(7, sample_tensor 1 2), (9, sample_tensor 0 4)] 9 2 = Some t \<and> ex_device t = 0 \<and> exact_at t [1, 2] = 6) \<and>
   (\<exists>r. broadcast_tree exact_backend [(7, 1), (9, 0)] 9 (sample_tensor 0 4) 2 = Some r \<and>
      spread exact_backend (\<lambda>t. exact_at t [1, 2]) r 4 {#(7, 1), (9, 0)#})"
proof -
  let ?ts = "[(7 :: nat, sample_tensor 1 2), (9, sample_tensor 0 4)]"
  have "shaped exact_backend [2, 3] ?ts" by (simp add: shaped_def exact_backend_def sample_tensor_def)
  note r = local_reduce_broadcast[OF exact.tensor_backend_axioms _ _ this, of 9 "sample_tensor 0 4" 2 "[1, 2]", simplified]
  have f: "be_device exact_backend = ex_device" "get_peer_devices exact_backend ?ts = [(7, 1), (9, 0)]"
    "homes exact_backend ?ts = {#(7, 1), (9, 0)#}"
    "sum_of (\<lambda>t. exact_at t [1, 2]) ?ts = 6" "exact_at (sample_tensor 0 4) [1, 2] = 4" "ex_device (sample_tensor 0 4) = 0"
    by (simp_all add: homes_def get_peer_devices_def sum_of_def in_bounds_def exact_at_def sample_tensor_def exact_backend_def)
  show ?thesis using r f by simp
qed

end
