(* ===== verification/Local_Server.thy ===== *)
theory Local_Server
  imports Local_Ring
begin

text \<open>
  The server of one node: \<^verbatim>\<open>src/local/server.rs\<close> with the operations in progress of
  \<^verbatim>\<open>src/local/all_reduce/op.rs\<close>, \<^verbatim>\<open>reduce/op.rs\<close> and \<^verbatim>\<open>broadcast/op.rs\<close>, and the all-reduce over several nodes of
  \<^verbatim>\<open>src/local/all_reduce/base.rs\<close>. Peers register, then call collectives; a call is answered through its
  callback when the last peer has called. A message gives the new state and the answers sent;
  \<open>None\<close> is a panic of the server.
\<close>

section \<open>State\<close>

type_synonym callback = nat

text \<open>What a callback receives: \<open>RegisterResult\<close>, \<open>AllReduceResult\<close> and \<open>BroadcastResult\<close>, or \<open>ReduceResult\<close>.\<close>

datatype 't answer = AnswerDone | AnswerTensor 't | AnswerReduced "'t option"

type_synonym 't answers = "(callback \<times> (collective_error + 't answer)) list"

record 't reduce_call =
  rc_caller :: peer_id
  rc_input :: 't
  rc_sender :: callback

record 'd broadcast_call =
  bc_caller :: peer_id
  bc_device :: 'd
  bc_sender :: callback

record 't all_reduce_op =
  ao_calls :: "'t reduce_call list"
  ao_op :: reduce_operation
  ao_shape :: "nat list"

record 't reduce_op =
  ro_calls :: "'t reduce_call list"
  ro_op :: reduce_operation
  ro_root :: peer_id
  ro_shape :: "nat list"

record ('t, 'd) broadcast_op =
  bo_calls :: "'d broadcast_call list"
  bo_tensor :: "'t option"
  bo_root :: "peer_id option"

record ('t, 'd, 'n) local_server =
  ls_config :: "collective_config option"
  ls_peers :: "peer_id list"
  ls_callbacks_register :: "callback list"
  ls_devices :: "'d device_map"
  ls_all_reduce_op :: "'t all_reduce_op option"
  ls_reduce_op :: "'t reduce_op option"
  ls_broadcast_op :: "('t, 'd) broadcast_op option"
  ls_global_client :: "'n option"

text \<open>What lies outside of the server: the tensor backend, the order in which hash maps yield their entries, which
  callbacks still have a receiver, and the node's connection to the other nodes.\<close>

record ('t, 'd, 'n) surroundings =
  su_backend :: "('t, 'd) backend"
  su_order :: "'t tensor_map \<Rightarrow> 't tensor_map"
  su_device_order :: "'d device_map \<Rightarrow> 'd device_map"
  su_alive :: "callback \<Rightarrow> bool"
  su_node_new :: "register_params \<Rightarrow> 'n"
  su_node_register :: "'n \<Rightarrow> peer_id list \<Rightarrow> register_params \<Rightarrow> (global_collective_error + unit) \<times> 'n"
  su_node_all_reduce :: "'n \<Rightarrow> 't \<Rightarrow> all_reduce_strategy \<Rightarrow> reduce_operation \<Rightarrow> (global_collective_error + 't) \<times> 'n"
  su_node_reduce :: "'n \<Rightarrow> 't \<Rightarrow> reduce_strategy \<Rightarrow> peer_id \<Rightarrow> reduce_operation \<Rightarrow> (global_collective_error + 't option) \<times> 'n"
  su_node_broadcast :: "'n \<Rightarrow> 't option \<Rightarrow> broadcast_strategy \<Rightarrow> 'd \<Rightarrow> (global_collective_error + 't) \<times> 'n"

datatype ('t, 'd) message =
    MsgRegister peer_id 'd collective_config callback
  | MsgAllReduce peer_id 't reduce_operation callback
  | MsgReduce peer_id 't reduce_operation peer_id callback
  | MsgBroadcast peer_id "'t option" callback
  | MsgReset
  | MsgFinish peer_id callback

definition server_new :: "('t, 'd, 'n) local_server" where
  "server_new =
     \<lparr> ls_config = None, ls_peers = [], ls_callbacks_register = [], ls_devices = [], ls_all_reduce_op = None,
       ls_reduce_op = None, ls_broadcast_op = None, ls_global_client = None \<rparr>"

section \<open>Answers\<close>

text \<open>\<open>callback.send(..).unwrap()\<close>.\<close>

definition send_answer ::
  "('t, 'd, 'n) surroundings \<Rightarrow> callback \<Rightarrow> collective_error + 't answer \<Rightarrow> 't answers \<Rightarrow> 't answers option" where
  "send_answer su cb r sent = (if su_alive su cb then Some (sent @ [(cb, r)]) else None)"

definition send_all ::
  "('t, 'd, 'n) surroundings \<Rightarrow> callback list \<Rightarrow> collective_error + 't answer \<Rightarrow> 't answers \<Rightarrow> 't answers option" where
  "send_all su cbs r = fold_o (\<lambda>cb. send_answer su cb r) cbs"

text \<open>The loops of \<open>execute\<close>: every call takes its own tensor out of the map, which must then be empty.\<close>

fun return_tensors ::
  "('t, 'd, 'n) surroundings \<Rightarrow> (peer_id \<times> callback) list \<Rightarrow> 't tensor_map \<Rightarrow> 't answers \<Rightarrow> 't answers option" where
  "return_tensors su [] tensors sent = (if tensors = [] then Some sent else None)"
| "return_tensors su ((caller, cb) # calls) tensors sent =
     (case map_of tensors caller of
        None \<Rightarrow> None
      | Some t \<Rightarrow> Option.bind (send_answer su cb (Inr (AnswerTensor t)) sent)
          (return_tensors su calls (AList.delete caller tensors)))"

text \<open>Collecting calls into a hash map: a later call of the same peer replaces the earlier one.\<close>

definition collect_map :: "(peer_id \<times> 'a) list \<Rightarrow> (peer_id \<times> 'a) list" where
  "collect_map calls = fold (\<lambda>(p, x) m. AList.update p x m) calls []"

section \<open>All-reduce\<close>

definition all_reduce_op_new :: "nat list \<Rightarrow> reduce_operation \<Rightarrow> 't all_reduce_op" where
  "all_reduce_op_new shape op = \<lparr> ao_calls = [], ao_op = op, ao_shape = shape \<rparr>"

definition all_reduce_register_call ::
  "('t, 'd) backend \<Rightarrow> peer_id \<Rightarrow> 't \<Rightarrow> callback \<Rightarrow> reduce_operation \<Rightarrow> nat \<Rightarrow> 't all_reduce_op
     \<Rightarrow> (collective_error + bool) \<times> 't all_reduce_op" where
  "all_reduce_register_call bk caller input cb op peer_count aop =
     (if ao_shape aop \<noteq> be_shape bk input then (Inl AllReduceShapeMismatch, aop)
      else if ao_op aop \<noteq> op then (Inl AllReduceOperationMismatch, aop)
      else let calls = ao_calls aop @ [\<lparr> rc_caller = caller, rc_input = input, rc_sender = cb \<rparr>]
        in (Inr (length calls = peer_count), aop\<lparr> ao_calls := calls \<rparr>))"

text \<open>\<open>all_reduce_with_global\<close>: reduce onto the first peer of the map, over the nodes, and back to every peer.\<close>

definition all_reduce_with_global ::
  "('t, 'd, 'n) surroundings \<Rightarrow> 't tensor_map \<Rightarrow> reduce_operation \<Rightarrow> collective_config \<Rightarrow> 'n
     \<Rightarrow> ((collective_error + 't tensor_map) \<times> 'n) option" where
  "all_reduce_with_global su tensors op config node =
     (let bk = su_backend su; peer_devices = su_device_order su (get_peer_devices bk tensors) in
      case tensors of
        [] \<Rightarrow> None
      | (main_device, _) # _ \<Rightarrow>
          Option.bind (case cc_local_all_reduce_strategy config of
              ArCentralized \<Rightarrow> reduce_sum_centralized bk tensors main_device
            | ArTree arity \<Rightarrow> reduce_sum_tree bk tensors main_device arity
            | ArRing \<Rightarrow> Option.bind (all_reduce_sum_ring bk tensors) (\<lambda>ts. map_of ts main_device)) (\<lambda>main_tensor.
          Option.bind (cc_global_all_reduce_strategy config) (\<lambda>global_strategy.
            case su_node_all_reduce su node main_tensor global_strategy op of
              (Inl e, node) \<Rightarrow> Some (Inl (Global e), node)
            | (Inr main_tensor, node) \<Rightarrow>
                map_option (\<lambda>ts. (Inr ts, node))
                  (case cc_local_all_reduce_strategy config of
                     ArTree arity \<Rightarrow> broadcast_tree bk peer_devices main_device main_tensor arity
                   | _ \<Rightarrow> broadcast_centralized bk peer_devices main_device main_tensor))))"

definition all_reduce_op_all_reduce ::
  "('t, 'd, 'n) surroundings \<Rightarrow> collective_config \<Rightarrow> 't all_reduce_op \<Rightarrow> 'n option
     \<Rightarrow> ((collective_error + 't tensor_map) \<times> 'n option) option" where
  "all_reduce_op_all_reduce su config aop global_client =
     (let tensors = su_order su (collect_map (map (\<lambda>c. (rc_caller c, rc_input c)) (ao_calls aop))) in
      case global_client of
        Some node \<Rightarrow> map_option (\<lambda>(r, node). (r, Some node)) (all_reduce_with_global su tensors (ao_op aop) config node)
      | None \<Rightarrow> map_option (\<lambda>ts. (Inr ts, None)) (all_reduce_local_only (su_backend su) tensors (ao_op aop) config))"

definition all_reduce_execute ::
  "('t, 'd, 'n) surroundings \<Rightarrow> collective_config \<Rightarrow> 't all_reduce_op \<Rightarrow> 'n option \<Rightarrow> ('t answers \<times> 'n option) option" where
  "all_reduce_execute su config aop global_client =
     Option.bind (all_reduce_op_all_reduce su config aop global_client) (\<lambda>(r, client).
       map_option (\<lambda>sent. (sent, client))
         (case r of
            Inr tensors \<Rightarrow> return_tensors su (map (\<lambda>c. (rc_caller c, rc_sender c)) (ao_calls aop)) tensors []
          | Inl err \<Rightarrow> send_all su (map rc_sender (ao_calls aop)) (Inl err) []))"

definition process_all_reduce_message ::
  "('t, 'd, 'n) surroundings \<Rightarrow> peer_id \<Rightarrow> 't \<Rightarrow> reduce_operation \<Rightarrow> callback \<Rightarrow> ('t, 'd, 'n) local_server
     \<Rightarrow> (('t, 'd, 'n) local_server \<times> 't answers) option" where
  "process_all_reduce_message su peer tensor op cb st =
     (if peer \<notin> set (ls_peers st)
      then map_option (Pair st) (send_answer su cb (Inl RegisterNotFirstOperation) [])
      else
        let aop = (case ls_all_reduce_op st of Some aop \<Rightarrow> aop | None \<Rightarrow> all_reduce_op_new (be_shape (su_backend su) tensor) op);
            st = st\<lparr> ls_all_reduce_op := None \<rparr>
        in case all_reduce_register_call (su_backend su) peer tensor cb op (length (ls_peers st)) aop of
             (Inr False, aop) \<Rightarrow> Some (st\<lparr> ls_all_reduce_op := Some aop \<rparr>, [])
           | (Inr True, aop) \<Rightarrow>
               Option.bind (ls_config st) (\<lambda>config.
                 map_option (\<lambda>(sent, client). (st\<lparr> ls_global_client := client \<rparr>, sent))
                   (all_reduce_execute su config aop (ls_global_client st)))
           | (Inl err, aop) \<Rightarrow> map_option (Pair st) (send_all su (map rc_sender (ao_calls aop)) (Inl err) []))"

section \<open>Reduce\<close>

definition reduce_op_new :: "nat list \<Rightarrow> reduce_operation \<Rightarrow> peer_id \<Rightarrow> 't reduce_op" where
  "reduce_op_new shape op rt = \<lparr> ro_calls = [], ro_op = op, ro_root = rt, ro_shape = shape \<rparr>"

definition reduce_register_call ::
  "('t, 'd) backend \<Rightarrow> peer_id \<Rightarrow> 't \<Rightarrow> callback \<Rightarrow> reduce_operation \<Rightarrow> peer_id \<Rightarrow> nat \<Rightarrow> 't reduce_op
     \<Rightarrow> (collective_error + bool) \<times> 't reduce_op" where
  "reduce_register_call bk caller input cb op rt peer_count rop =
     (if ro_shape rop \<noteq> be_shape bk input then (Inl ReduceShapeMismatch, rop)
      else if ro_op rop \<noteq> op then (Inl ReduceOperationMismatch, rop)
      else if ro_root rop \<noteq> rt then (Inl ReduceRootMismatch, rop)
      else let calls = ro_calls rop @ [\<lparr> rc_caller = caller, rc_input = input, rc_sender = cb \<rparr>]
        in (Inr (length calls = peer_count), rop\<lparr> ro_calls := calls \<rparr>))"

definition reduce_op_reduce ::
  "('t, 'd, 'n) surroundings \<Rightarrow> collective_config \<Rightarrow> 't reduce_op \<Rightarrow> 'n option
     \<Rightarrow> ((collective_error + 't option) \<times> 'n option) option" where
  "reduce_op_reduce su config rop global_client =
     (let bk = su_backend su;
          tensors = su_order su (collect_map (map (\<lambda>c. (rc_caller c, rc_input c)) (ro_calls rop)));
          local_root =
            (if list_ex (\<lambda>c. rc_caller c = ro_root rop) (ro_calls rop) then Inr (ro_root rop)
             else if global_client \<noteq> None then Inr (rc_caller (hd (ro_calls rop)))
             else Inl ReduceRootMismatch)
      in case local_root of
           Inl e \<Rightarrow> Some (Inl e, global_client)
         | Inr lr \<Rightarrow>
             Option.bind (case cc_local_reduce_strategy config of
                 ReCentralized \<Rightarrow> reduce_sum_centralized bk tensors lr
               | ReTree arity \<Rightarrow> reduce_sum_tree bk tensors lr arity) (\<lambda>local_sum.
               case global_client of
                 Some node \<Rightarrow>
                   map_option (\<lambda>strategy.
                       (case su_node_reduce su node local_sum strategy (ro_root rop) (ro_op rop) of
                          (Inl e, node) \<Rightarrow> (Inl (Global e), Some node)
                        | (Inr t, node) \<Rightarrow> (Inr t, Some node)))
                     (cc_global_reduce_strategy config)
               | None \<Rightarrow>
                   Some (Inr (Some (if ro_op rop = ReduceMean then be_div_scalar bk local_sum (length (ro_calls rop)) else local_sum)), None)))"

text \<open>\<open>result.take()\<close>: only the first call of the root gets the tensor.\<close>

fun return_reduced ::
  "('t, 'd, 'n) surroundings \<Rightarrow> peer_id \<Rightarrow> 't reduce_call list \<Rightarrow> 't option \<Rightarrow> 't answers \<Rightarrow> 't answers option" where
  "return_reduced su rt [] result sent = Some sent"
| "return_reduced su rt (c # calls) result sent =
     (if rc_caller c = rt
      then Option.bind (send_answer su (rc_sender c) (Inr (AnswerReduced result)) sent) (return_reduced su rt calls None)
      else Option.bind (send_answer su (rc_sender c) (Inr (AnswerReduced None)) sent) (return_reduced su rt calls result))"

definition reduce_execute ::
  "('t, 'd, 'n) surroundings \<Rightarrow> peer_id \<Rightarrow> collective_config \<Rightarrow> 't reduce_op \<Rightarrow> 'n option \<Rightarrow> ('t answers \<times> 'n option) option" where
  "reduce_execute su rt config rop global_client =
     Option.bind (reduce_op_reduce su config rop global_client) (\<lambda>(r, client).
       map_option (\<lambda>sent. (sent, client))
         (case r of
            Inr result \<Rightarrow> return_reduced su rt (ro_calls rop) result []
          | Inl err \<Rightarrow> send_all su (map rc_sender (ro_calls rop)) (Inl err) []))"

definition process_reduce_message ::
  "('t, 'd, 'n) surroundings \<Rightarrow> peer_id \<Rightarrow> 't \<Rightarrow> reduce_operation \<Rightarrow> peer_id \<Rightarrow> callback \<Rightarrow> ('t, 'd, 'n) local_server
     \<Rightarrow> (('t, 'd, 'n) local_server \<times> 't answers) option" where
  "process_reduce_message su peer tensor op rt cb st =
     (if rt \<notin> set (ls_peers st)
      then map_option (Pair st) (send_answer su cb (Inl RegisterNotFirstOperation) [])
      else
        let rop = (case ls_reduce_op st of Some rop \<Rightarrow> rop | None \<Rightarrow> reduce_op_new (be_shape (su_backend su) tensor) op rt);
            st = st\<lparr> ls_reduce_op := None \<rparr>
        in case reduce_register_call (su_backend su) peer tensor cb op rt (length (ls_peers st)) rop of
             (Inr False, rop) \<Rightarrow> Some (st\<lparr> ls_reduce_op := Some rop \<rparr>, [])
           | (Inr True, rop) \<Rightarrow>
               Option.bind (ls_config st) (\<lambda>config.
                 map_option (\<lambda>(sent, client). (st\<lparr> ls_global_client := client \<rparr>, sent))
                   (reduce_execute su rt config rop (ls_global_client st)))
           | (Inl err, rop) \<Rightarrow> map_option (Pair st) (send_all su (map rc_sender (ro_calls rop)) (Inl err) []))"

section \<open>Broadcast\<close>

definition broadcast_op_new :: "('t, 'd) broadcast_op" where
  "broadcast_op_new = \<lparr> bo_calls = [], bo_tensor = None, bo_root = None \<rparr>"

definition effective_root :: "('t, 'd) broadcast_op \<Rightarrow> peer_id option" where
  "effective_root bop =
     (case bo_calls bop of [] \<Rightarrow> None
      | c # _ \<Rightarrow> Some (case bo_root bop of Some r \<Rightarrow> r | None \<Rightarrow> bc_caller c))"

definition broadcast_register_call ::
  "peer_id \<Rightarrow> 't option \<Rightarrow> callback \<Rightarrow> 'd \<Rightarrow> nat \<Rightarrow> ('t, 'd) broadcast_op
     \<Rightarrow> (collective_error + bool) \<times> ('t, 'd) broadcast_op" where
  "broadcast_register_call caller input cb device peer_count bop =
     (if input \<noteq> None \<and> bo_tensor bop \<noteq> None then (Inl BroadcastMultipleTensors, bop)
      else
        let bop = (if input \<noteq> None then bop\<lparr> bo_tensor := input, bo_root := Some caller \<rparr> else bop);
            calls = bo_calls bop @ [\<lparr> bc_caller = caller, bc_device = device, bc_sender = cb \<rparr>]
        in (Inr (length calls = peer_count), bop\<lparr> bo_calls := calls \<rparr>))"

definition broadcast_op_broadcast ::
  "('t, 'd, 'n) surroundings \<Rightarrow> collective_config \<Rightarrow> ('t, 'd) broadcast_op \<Rightarrow> 'n option
     \<Rightarrow> ((collective_error + 't tensor_map) \<times> 'n option) option" where
  "broadcast_op_broadcast su config bop global_client =
     Option.bind
       (case global_client of
          None \<Rightarrow> Some (Inr (bo_tensor bop), None)
        | Some node \<Rightarrow>
            Option.bind (cc_global_broadcast_strategy config) (\<lambda>strategy.
              case bo_calls bop of
                [] \<Rightarrow> None
              | c # _ \<Rightarrow>
                  Some (case su_node_broadcast su node (bo_tensor bop) strategy (bc_device c) of
                          (Inl e, node) \<Rightarrow> (Inl (Global e), Some node)
                        | (Inr t, node) \<Rightarrow> (Inr (Some t), Some node))))
       (\<lambda>(r, client).
         case r of
           Inl e \<Rightarrow> Some (Inl e, client)
         | Inr None \<Rightarrow> Some (Inl BroadcastNoTensor, client)
         | Inr (Some tensor) \<Rightarrow>
             Option.bind (effective_root bop) (\<lambda>rt.
               let bk = su_backend su;
                   peer_devices = su_device_order su (collect_map (map (\<lambda>c. (bc_caller c, bc_device c)) (bo_calls bop)))
               in map_option (\<lambda>ts. (Inr ts, client))
                    (case cc_local_broadcast_strategy config of
                       BcTree arity \<Rightarrow> broadcast_tree bk peer_devices rt tensor arity
                     | BcCentralized \<Rightarrow> broadcast_centralized bk peer_devices rt tensor)))"

definition broadcast_execute ::
  "('t, 'd, 'n) surroundings \<Rightarrow> collective_config \<Rightarrow> ('t, 'd) broadcast_op \<Rightarrow> 'n option \<Rightarrow> ('t answers \<times> 'n option) option" where
  "broadcast_execute su config bop global_client =
     Option.bind (broadcast_op_broadcast su config bop global_client) (\<lambda>(r, client).
       map_option (\<lambda>sent. (sent, client))
         (case r of
            Inr tensors \<Rightarrow> return_tensors su (map (\<lambda>c. (bc_caller c, bc_sender c)) (bo_calls bop)) tensors []
          | Inl err \<Rightarrow> send_all su (map bc_sender (bo_calls bop)) (Inl err) []))"

definition process_broadcast_message ::
  "('t, 'd, 'n) surroundings \<Rightarrow> peer_id \<Rightarrow> 't option \<Rightarrow> callback \<Rightarrow> ('t, 'd, 'n) local_server
     \<Rightarrow> (('t, 'd, 'n) local_server \<times> 't answers) option" where
  "process_broadcast_message su caller tensor cb st =
     (if ls_config st = None \<or> caller \<notin> set (ls_peers st)
      then map_option (Pair st) (send_answer su cb (Inl RegisterNotFirstOperation) [])
      else
        let bop = (case ls_broadcast_op st of Some bop \<Rightarrow> bop | None \<Rightarrow> broadcast_op_new);
            st = st\<lparr> ls_broadcast_op := None \<rparr>
        in Option.bind (map_of (ls_devices st) caller) (\<lambda>device.
           case broadcast_register_call caller tensor cb device (length (ls_peers st)) bop of
             (Inr False, bop) \<Rightarrow> Some (st\<lparr> ls_broadcast_op := Some bop \<rparr>, [])
           | (Inr True, bop) \<Rightarrow>
               Option.bind (ls_config st) (\<lambda>config.
                 map_option (\<lambda>(sent, client). (st\<lparr> ls_global_client := client \<rparr>, sent))
                   (broadcast_execute su config bop (ls_global_client st)))
           | (Inl err, bop) \<Rightarrow> map_option (Pair st) (send_all su (map bc_sender (bo_calls bop)) (Inl err) [])))"

section \<open>Registration and shutdown\<close>

definition process_register_message ::
  "('t, 'd, 'n) surroundings \<Rightarrow> peer_id \<Rightarrow> 'd \<Rightarrow> collective_config \<Rightarrow> callback \<Rightarrow> ('t, 'd, 'n) local_server
     \<Rightarrow> (('t, 'd, 'n) local_server \<times> 't answers) option" where
  "process_register_message su peer device config cb st =
     (if \<not> is_valid config then map_option (Pair st) (send_answer su cb (Inl InvalidConfig) [])
      else if peer \<in> set (ls_peers st) then map_option (Pair st) (send_answer su cb (Inl MultipleRegister) [])
      else if ls_peers st \<noteq> [] \<and> ls_config st \<noteq> None \<and> ls_config st \<noteq> Some config
      then map_option (Pair st) (send_answer su cb (Inl RegisterParamsMismatch) [])
      else
        let global_params = global_register_params config;
            client = (case (global_params, ls_global_client st) of
                        (Some params, None) \<Rightarrow> Some (su_node_new su params)
                      | _ \<Rightarrow> ls_global_client st);
            st = st\<lparr> ls_config := Some config, ls_peers := ls_peers st @ [peer],
                     ls_callbacks_register := ls_callbacks_register st @ [cb],
                     ls_devices := AList.update peer device (ls_devices st), ls_global_client := client \<rparr>
        in if length (ls_peers st) \<noteq> cc_num_devices config then Some (st, [])
           else Option.bind
             (case global_params of
                None \<Rightarrow> Some (Inr (), client)
              | Some params \<Rightarrow>
                  map_option (\<lambda>node. case su_node_register su node (ls_peers st) params of
                      (Inl e, node) \<Rightarrow> (Inl (Global e), Some node)
                    | (Inr u, node) \<Rightarrow> (Inr u, Some node)) client)
             (\<lambda>(result, client).
               map_option (Pair (st\<lparr> ls_callbacks_register := [], ls_global_client := client \<rparr>))
                 (send_all su (ls_callbacks_register st) (case result of Inl e \<Rightarrow> Inl e | Inr _ \<Rightarrow> Inr AnswerDone) [])))"

definition server_reset :: "('t, 'd, 'n) local_server \<Rightarrow> ('t, 'd, 'n) local_server" where
  "server_reset st = st\<lparr> ls_peers := [], ls_all_reduce_op := None, ls_reduce_op := None, ls_broadcast_op := None \<rparr>"

text \<open>The connection of the last peer is closed; the answer does not depend on how that ends.\<close>

definition process_finish_message ::
  "('t, 'd, 'n) surroundings \<Rightarrow> peer_id \<Rightarrow> callback \<Rightarrow> ('t, 'd, 'n) local_server
     \<Rightarrow> (('t, 'd, 'n) local_server \<times> 't answers) option" where
  "process_finish_message su peer cb st =
     (if ls_config st = None then map_option (Pair st) (send_answer su cb (Inl RegisterNotFirstOperation) [])
      else if peer \<notin> set (ls_peers st) then map_option (Pair st) (send_answer su cb (Inl MultipleUnregister) [])
      else
        let peers = filter (\<lambda>p. p \<noteq> peer) (ls_peers st);
            st = st\<lparr> ls_peers := peers, ls_global_client := (if peers = [] then None else ls_global_client st) \<rparr>
        in map_option (Pair st) (send_answer su cb (Inr AnswerDone) []))"

definition process_message ::
  "('t, 'd, 'n) surroundings \<Rightarrow> ('t, 'd) message \<Rightarrow> ('t, 'd, 'n) local_server
     \<Rightarrow> (('t, 'd, 'n) local_server \<times> 't answers) option" where
  "process_message su msg st =
     (case msg of
        MsgRegister peer device config cb \<Rightarrow> process_register_message su peer device config cb st
      | MsgAllReduce peer tensor op cb \<Rightarrow> process_all_reduce_message su peer tensor op cb st
      | MsgReduce peer tensor op rt cb \<Rightarrow> process_reduce_message su peer tensor op rt cb st
      | MsgBroadcast peer tensor cb \<Rightarrow> process_broadcast_message su peer tensor cb st
      | MsgReset \<Rightarrow> Some (server_reset st, [])
      | MsgFinish peer cb \<Rightarrow> process_finish_message su peer cb st)"

text \<open>The loop of \<open>setup\<close>.\<close>

primrec serve ::
  "('t, 'd, 'n) surroundings \<Rightarrow> ('t, 'd) message list \<Rightarrow> ('t, 'd, 'n) local_server
     \<Rightarrow> (('t, 'd, 'n) local_server \<times> 't answers) option" where
  "serve su [] st = Some (st, [])"
| "serve su (m # ms) st =
     Option.bind (process_message su m st) (\<lambda>(st, sent). map_option (apsnd ((@) sent)) (serve su ms st))"

section \<open>Who is answered\<close>

lemma send_answer_Some: "send_answer su cb r sent = Some sent' \<longleftrightarrow> su_alive su cb \<and> sent' = sent @ [(cb, r)]"
  by (auto simp: send_answer_def)

lemma send_all_answers: "send_all su cbs r sent = Some sent' \<Longrightarrow> map fst sent' = map fst sent @ cbs"
  unfolding send_all_def
  by (induction cbs arbitrary: sent) (auto simp: send_answer_Some split: option.splits)

lemma return_tensors_answers:
  "return_tensors su calls tensors sent = Some sent' \<Longrightarrow> map fst sent' = map fst sent @ map snd calls"
  by (induction su calls tensors sent rule: return_tensors.induct)
     (auto simp: send_answer_Some bind_eq_Some_conv split: option.splits if_splits)

lemma return_reduced_answers:
  "return_reduced su rt calls result sent = Some sent' \<Longrightarrow> map fst sent' = map fst sent @ map rc_sender calls"
  by (induction su rt calls result sent rule: return_reduced.induct)
     (auto simp: send_answer_Some bind_eq_Some_conv split: if_splits)

lemma result_answers:
  assumes "(case r of Inr x \<Rightarrow> f x | Inl e \<Rightarrow> send_all su cbs (Inl e) []) = Some sent"
    and "\<And>x. f x = Some sent \<Longrightarrow> map fst sent = cbs"
  shows "map fst sent = cbs"
  using assms send_all_answers[of su cbs _ "[]" sent] by (cases r) auto

lemma all_reduce_execute_answers:
  assumes "all_reduce_execute su config aop client = Some (sent, client')"
  shows "map fst sent = map rc_sender (ao_calls aop)"
proof -
  obtain r where "(case r of Inr ts \<Rightarrow> return_tensors su (map (\<lambda>c. (rc_caller c, rc_sender c)) (ao_calls aop)) ts []
      | Inl err \<Rightarrow> send_all su (map rc_sender (ao_calls aop)) (Inl err) []) = Some sent"
    using assms unfolding all_reduce_execute_def bind_eq_Some_conv by auto
  then show ?thesis by (rule result_answers) (auto dest: return_tensors_answers simp: o_def)
qed

lemma reduce_execute_answers:
  assumes "reduce_execute su rt config rop client = Some (sent, client')"
  shows "map fst sent = map rc_sender (ro_calls rop)"
proof -
  obtain r where "(case r of Inr x \<Rightarrow> return_reduced su rt (ro_calls rop) x []
      | Inl err \<Rightarrow> send_all su (map rc_sender (ro_calls rop)) (Inl err) []) = Some sent"
    using assms unfolding reduce_execute_def bind_eq_Some_conv by auto
  then show ?thesis by (rule result_answers) (auto dest: return_reduced_answers)
qed

lemma broadcast_execute_answers:
  assumes "broadcast_execute su config bop client = Some (sent, client')"
  shows "map fst sent = map bc_sender (bo_calls bop)"
proof -
  obtain r where "(case r of Inr ts \<Rightarrow> return_tensors su (map (\<lambda>c. (bc_caller c, bc_sender c)) (bo_calls bop)) ts []
      | Inl err \<Rightarrow> send_all su (map bc_sender (bo_calls bop)) (Inl err) []) = Some sent"
    using assms unfolding broadcast_execute_def bind_eq_Some_conv by auto
  then show ?thesis by (rule result_answers) (auto dest: return_tensors_answers simp: o_def)
qed

lemmas execute_answers = all_reduce_execute_answers reduce_execute_answers broadcast_execute_answers

text \<open>The callbacks that a state owes an answer, those of the registration apart.\<close>

definition waiting_calls :: "('t, 'd, 'n) local_server \<Rightarrow> callback multiset" where
  "waiting_calls st =
     (case ls_all_reduce_op st of None \<Rightarrow> {#} | Some aop \<Rightarrow> mset (map rc_sender (ao_calls aop))) +
     (case ls_reduce_op st of None \<Rightarrow> {#} | Some rop \<Rightarrow> mset (map rc_sender (ro_calls rop))) +
     (case ls_broadcast_op st of None \<Rightarrow> {#} | Some bop \<Rightarrow> mset (map bc_sender (bo_calls bop)))"

definition waiting :: "('t, 'd, 'n) local_server \<Rightarrow> callback multiset" where
  "waiting st = mset (ls_callbacks_register st) + waiting_calls st"

definition message_callback :: "('t, 'd) message \<Rightarrow> callback multiset" where
  "message_callback msg =
     (case msg of MsgRegister _ _ _ cb \<Rightarrow> {#cb#} | MsgAllReduce _ _ _ cb \<Rightarrow> {#cb#} | MsgReduce _ _ _ _ cb \<Rightarrow> {#cb#}
      | MsgBroadcast _ _ cb \<Rightarrow> {#cb#} | MsgReset \<Rightarrow> {#} | MsgFinish _ cb \<Rightarrow> {#cb#})"

text \<open>A call whose parameters differ from those of the first call of the operation in progress.\<close>

definition mismatched :: "('t, 'd, 'n) surroundings \<Rightarrow> ('t, 'd, 'n) local_server \<Rightarrow> ('t, 'd) message \<Rightarrow> bool" where
  "mismatched su st msg =
     (case msg of
        MsgAllReduce peer t op _ \<Rightarrow> peer \<in> set (ls_peers st) \<and>
          (case ls_all_reduce_op st of None \<Rightarrow> False | Some aop \<Rightarrow> ao_shape aop \<noteq> be_shape (su_backend su) t \<or> ao_op aop \<noteq> op)
      | MsgReduce _ t op rt _ \<Rightarrow> rt \<in> set (ls_peers st) \<and>
          (case ls_reduce_op st of None \<Rightarrow> False
           | Some rop \<Rightarrow> ro_shape rop \<noteq> be_shape (su_backend su) t \<or> ro_op rop \<noteq> op \<or> ro_root rop \<noteq> rt)
      | MsgBroadcast peer t _ \<Rightarrow> peer \<in> set (ls_peers st) \<and> ls_config st \<noteq> None \<and> t \<noteq> None \<and>
          (case ls_broadcast_op st of None \<Rightarrow> False | Some bop \<Rightarrow> bo_tensor bop \<noteq> None)
      | _ \<Rightarrow> False)"

definition dropped :: "('t, 'd, 'n) surroundings \<Rightarrow> ('t, 'd, 'n) local_server \<Rightarrow> ('t, 'd) message \<Rightarrow> callback multiset" where
  "dropped su st msg =
     (if msg = MsgReset then waiting_calls st else if mismatched su st msg then message_callback msg else {#})"

lemma all_reduce_answers:
  assumes "process_all_reduce_message su peer t op cb st = Some (st', sent)"
  shows "mset (map fst sent) + waiting st' + dropped su st (MsgAllReduce peer t op cb) = waiting st + {#cb#}"
proof (cases "peer \<in> set (ls_peers st)")
  case False
  then show ?thesis using assms
    by (auto simp: process_all_reduce_message_def send_answer_Some dropped_def mismatched_def)
next
  case True
  define aop where "aop = (case ls_all_reduce_op st of Some aop \<Rightarrow> aop | None \<Rightarrow> all_reduce_op_new (be_shape (su_backend su) t) op)"
  obtain r aop' where reg: "all_reduce_register_call (su_backend su) peer t cb op (length (ls_peers st)) aop = (r, aop')" by fastforce
  have ops: "waiting st = mset (map rc_sender (ao_calls aop)) + waiting (st\<lparr> ls_all_reduce_op := None \<rparr>)"
    by (simp add: waiting_def waiting_calls_def aop_def all_reduce_op_new_def split: option.splits)
  have keep: "waiting (st\<lparr> ls_all_reduce_op := None, ls_global_client := c \<rparr>) = waiting (st\<lparr> ls_all_reduce_op := None \<rparr>)"
    "waiting (st\<lparr> ls_all_reduce_op := Some a \<rparr>) = mset (map rc_sender (ao_calls a)) + waiting (st\<lparr> ls_all_reduce_op := None \<rparr>)" for c a
    by (simp_all add: waiting_def waiting_calls_def)
  note run = assms[unfolded process_all_reduce_message_def Let_def aop_def[symmetric]]
  show ?thesis
  proof (cases r)
    case (Inl err)
    then have "aop' = aop" "mismatched su st (MsgAllReduce peer t op cb)"
      using reg True by (auto simp: all_reduce_register_call_def mismatched_def aop_def all_reduce_op_new_def Let_def split: if_splits option.splits)
    then show ?thesis using run reg True Inl ops by (auto simp: dropped_def message_callback_def simp del: mset_map dest!: send_all_answers)
  next
    case (Inr b)
    then have new: "map rc_sender (ao_calls aop') = map rc_sender (ao_calls aop) @ [cb]"
      and "\<not> mismatched su st (MsgAllReduce peer t op cb)"
      using reg by (auto simp: all_reduce_register_call_def mismatched_def aop_def Let_def split: if_splits option.splits)
    then have d: "dropped su st (MsgAllReduce peer t op cb) = {#}" by (simp add: dropped_def)
    show ?thesis
    proof (cases b)
      case b: True
      then show ?thesis using run reg True Inr ops new d keep(1)
        by (auto simp: bind_eq_Some_conv simp del: mset_map dest!: execute_answers)
    next
      case False
      then show ?thesis using run reg True Inr ops new d keep(2) by (auto simp del: mset_map)
    qed
  qed
qed

lemma reduce_answers:
  assumes "process_reduce_message su peer t op rt cb st = Some (st', sent)"
  shows "mset (map fst sent) + waiting st' + dropped su st (MsgReduce peer t op rt cb) = waiting st + {#cb#}"
proof (cases "rt \<in> set (ls_peers st)")
  case False
  then show ?thesis using assms
    by (auto simp: process_reduce_message_def send_answer_Some dropped_def mismatched_def)
next
  case True
  define rop where "rop = (case ls_reduce_op st of Some rop \<Rightarrow> rop | None \<Rightarrow> reduce_op_new (be_shape (su_backend su) t) op rt)"
  obtain r rop' where reg: "reduce_register_call (su_backend su) peer t cb op rt (length (ls_peers st)) rop = (r, rop')" by fastforce
  have ops: "waiting st = mset (map rc_sender (ro_calls rop)) + waiting (st\<lparr> ls_reduce_op := None \<rparr>)"
    by (simp add: waiting_def waiting_calls_def rop_def reduce_op_new_def split: option.splits)
  have keep: "waiting (st\<lparr> ls_reduce_op := None, ls_global_client := c \<rparr>) = waiting (st\<lparr> ls_reduce_op := None \<rparr>)"
    "waiting (st\<lparr> ls_reduce_op := Some a \<rparr>) = mset (map rc_sender (ro_calls a)) + waiting (st\<lparr> ls_reduce_op := None \<rparr>)" for c a
    by (simp_all add: waiting_def waiting_calls_def)
  note run = assms[unfolded process_reduce_message_def Let_def rop_def[symmetric]]
  show ?thesis
  proof (cases r)
    case (Inl err)
    then have "rop' = rop" "mismatched su st (MsgReduce peer t op rt cb)"
      using reg True by (cases "ls_reduce_op st"; auto simp: reduce_register_call_def mismatched_def rop_def reduce_op_new_def Let_def split: if_splits)+
    then show ?thesis using run reg True Inl ops by (auto simp: dropped_def message_callback_def simp del: mset_map dest!: send_all_answers)
  next
    case (Inr b)
    then have new: "map rc_sender (ro_calls rop') = map rc_sender (ro_calls rop) @ [cb]"
      and "\<not> mismatched su st (MsgReduce peer t op rt cb)"
      using reg by (auto simp: reduce_register_call_def mismatched_def rop_def Let_def split: if_splits option.splits)
    then have d: "dropped su st (MsgReduce peer t op rt cb) = {#}" by (simp add: dropped_def)
    show ?thesis
    proof (cases b)
      case b: True
      then show ?thesis using run reg True Inr ops new d keep(1)
        by (auto simp: bind_eq_Some_conv simp del: mset_map dest!: execute_answers)
    next
      case False
      then show ?thesis using run reg True Inr ops new d keep(2) by (auto simp del: mset_map)
    qed
  qed
qed

lemma broadcast_answers:
  assumes "process_broadcast_message su peer t cb st = Some (st', sent)"
  shows "mset (map fst sent) + waiting st' + dropped su st (MsgBroadcast peer t cb) = waiting st + {#cb#}"
proof (cases "ls_config st \<noteq> None \<and> peer \<in> set (ls_peers st)")
  case False
  then show ?thesis using assms
    by (auto simp: process_broadcast_message_def send_answer_Some dropped_def mismatched_def)
next
  case True
  define bop where "bop = (case ls_broadcast_op st of Some bop \<Rightarrow> bop | None \<Rightarrow> broadcast_op_new)"
  have "map_of (ls_devices st) peer \<noteq> None" using assms True
    by (cases "map_of (ls_devices st) peer") (auto simp: process_broadcast_message_def Let_def)
  then obtain device where dev: "map_of (ls_devices st) peer = Some device" by blast
  obtain r bop' where reg: "broadcast_register_call peer t cb device (length (ls_peers st)) bop = (r, bop')" by fastforce
  have ops: "waiting st = mset (map bc_sender (bo_calls bop)) + waiting (st\<lparr> ls_broadcast_op := None \<rparr>)"
    by (simp add: waiting_def waiting_calls_def bop_def broadcast_op_new_def split: option.splits)
  have keep: "waiting (st\<lparr> ls_broadcast_op := None, ls_global_client := c \<rparr>) = waiting (st\<lparr> ls_broadcast_op := None \<rparr>)"
    "waiting (st\<lparr> ls_broadcast_op := Some a \<rparr>) = mset (map bc_sender (bo_calls a)) + waiting (st\<lparr> ls_broadcast_op := None \<rparr>)" for c a
    by (simp_all add: waiting_def waiting_calls_def)
  note run = assms[unfolded process_broadcast_message_def Let_def bop_def[symmetric]]
  show ?thesis
  proof (cases r)
    case (Inl err)
    then have "bop' = bop" "mismatched su st (MsgBroadcast peer t cb)"
      using reg True by (auto simp: broadcast_register_call_def mismatched_def bop_def broadcast_op_new_def Let_def split: if_splits option.splits)
    then show ?thesis using run reg dev True Inl ops by (auto simp: dropped_def message_callback_def simp del: mset_map dest!: send_all_answers)
  next
    case (Inr b)
    then have new: "map bc_sender (bo_calls bop') = map bc_sender (bo_calls bop) @ [cb]"
      and "\<not> mismatched su st (MsgBroadcast peer t cb)"
      using reg by (auto simp: broadcast_register_call_def mismatched_def bop_def Let_def split: if_splits option.splits)
    then have d: "dropped su st (MsgBroadcast peer t cb) = {#}" by (simp add: dropped_def)
    show ?thesis
    proof (cases b)
      case b: True
      then show ?thesis using run reg dev True Inr ops new d keep(1)
        by (auto simp: bind_eq_Some_conv simp del: mset_map dest!: execute_answers)
    next
      case False
      then show ?thesis using run reg dev True Inr ops new d keep(2) by (auto simp del: mset_map)
    qed
  qed
qed

lemma register_answers:
  assumes "process_register_message su peer device config cb st = Some (st', sent)"
  shows "mset (map fst sent) + waiting st' = waiting st + {#cb#}"
  using assms
  by (auto simp: process_register_message_def Let_def send_answer_Some waiting_def waiting_calls_def bind_eq_Some_conv
      dest!: send_all_answers simp del: mset_map split: if_splits)

lemma finish_answers:
  assumes "process_finish_message su peer cb st = Some (st', sent)"
  shows "mset (map fst sent) + waiting st' = waiting st + {#cb#}"
  using assms
  by (auto simp: process_finish_message_def Let_def send_answer_Some waiting_def waiting_calls_def split: if_splits)

lemma message_answers:
  assumes "process_message su msg st = Some (st', sent)"
  shows "mset (map fst sent) + waiting st' + dropped su st msg = waiting st + message_callback msg"
proof (cases msg)
  case (MsgRegister peer device config cb)
  then show ?thesis using assms register_answers[of su peer device config cb st st' sent]
    by (simp add: process_message_def dropped_def mismatched_def message_callback_def)
next
  case (MsgAllReduce peer t op cb)
  then show ?thesis using assms all_reduce_answers[of su peer t op cb st st' sent] by (simp add: process_message_def message_callback_def)
next
  case (MsgReduce peer t op rt cb)
  then show ?thesis using assms reduce_answers[of su peer t op rt cb st st' sent] by (simp add: process_message_def message_callback_def)
next
  case (MsgBroadcast peer t cb)
  then show ?thesis using assms broadcast_answers[of su peer t cb st st' sent] by (simp add: process_message_def message_callback_def)
next
  case MsgReset
  then show ?thesis using assms
    by (auto simp: process_message_def server_reset_def dropped_def message_callback_def waiting_def waiting_calls_def)
next
  case (MsgFinish peer cb)
  then show ?thesis using assms finish_answers[of su peer cb st st' sent]
    by (simp add: process_message_def dropped_def mismatched_def message_callback_def)
qed

section \<open>A round of calls\<close>

lemma update_new: "k \<notin> fst ` set m \<Longrightarrow> AList.update k v m = m @ [(k, v)]"
  by (induction m) auto

lemma collect_map_distinct: "distinct (map fst xs) \<Longrightarrow> collect_map xs = xs"
proof -
  have "distinct (map fst (acc @ xs)) \<Longrightarrow> fold (\<lambda>(p, x) m. AList.update p x m) xs acc = acc @ xs" for acc
  proof (induction xs arbitrary: acc)
    case (Cons x xs)
    then have "fst x \<notin> fst ` set acc" by auto
    then show ?case using Cons.IH[of "acc @ [x]"] Cons.prems by (cases x) (simp add: update_new)
  qed simp
  from this[of "[]"] show "distinct (map fst xs) \<Longrightarrow> collect_map xs = xs" by (simp add: collect_map_def)
qed

lemma return_tensors_run:
  assumes "distinct (map fst calls)" "distinct (map fst tensors)" "set (map fst calls) = set (map fst tensors)"
    and "\<forall>c \<in> set calls. su_alive su (snd c)"
  shows "return_tensors su calls tensors sent =
    Some (sent @ map (\<lambda>(p, cb). (cb, Inr (AnswerTensor (the (map_of tensors p))))) calls)"
  using assms
proof (induction calls arbitrary: tensors sent)
  case (Cons c calls)
  obtain p cb where c: "c = (p, cb)" by (cases c)
  have "p \<in> set (map fst tensors)" using Cons.prems(3) by (auto simp: c)
  then obtain t where t: "map_of tensors p = Some t" by (auto simp: map_of_eq_None_iff dest: weak_map_of_SomeI)
  let ?rest = "AList.delete p tensors"
  have keys: "set (map fst calls) = set (map fst ?rest)"
    using Cons.prems(1) Cons.prems(3)[symmetric] by (auto simp: c AList.delete_keys)
  have "distinct (map fst ?rest)" using Cons.prems(2) by (simp add: AList.distinct_delete)
  from Cons.IH[OF _ this keys, of "sent @ [(cb, Inr (AnswerTensor t))]"] Cons.prems(1,4)
  have "return_tensors su calls ?rest (sent @ [(cb, Inr (AnswerTensor t))]) =
    Some (sent @ (cb, Inr (AnswerTensor t)) # map (\<lambda>(p, cb). (cb, Inr (AnswerTensor (the (map_of ?rest p))))) calls)" by (simp add: c)
  moreover have "map (\<lambda>(p, cb). (cb, Inr (AnswerTensor (the (map_of ?rest p))))) calls =
      map (\<lambda>(p, cb). (cb, Inr (AnswerTensor (the (map_of tensors p))))) calls"
  proof (intro map_cong refl)
    fix q assume "q \<in> set calls"
    then have "fst q \<noteq> p" using Cons.prems(1) by (force simp: c)
    then show "(case q of (p, cb) \<Rightarrow> (cb, Inr (AnswerTensor (the (map_of ?rest p))))) = (case q of (p, cb) \<Rightarrow> (cb, Inr (AnswerTensor (the (map_of tensors p)))))"
      by (cases q) (simp add: AList.delete_conv')
  qed
  ultimately show ?case using Cons.prems(4) t by (simp add: c send_answer_def)
qed simp

text \<open>The operation after some calls of one round.\<close>

definition round_op :: "reduce_operation \<Rightarrow> nat list \<Rightarrow> (peer_id \<times> 't \<times> callback) list \<Rightarrow> 't all_reduce_op" where
  "round_op op sh calls =
     \<lparr> ao_calls = map (\<lambda>(p, t, cb). \<lparr> rc_caller = p, rc_input = t, rc_sender = cb \<rparr>) calls, ao_op = op, ao_shape = sh \<rparr>"

lemma answers_nil [simp]: "map_option (apsnd ((@) [])) x = x"
  by (cases x) (auto simp: apsnd_def)

lemma all_reduce_step:
  assumes "peer \<in> set (ls_peers st)"
    and "(case ls_all_reduce_op st of Some aop \<Rightarrow> aop | None \<Rightarrow> all_reduce_op_new (be_shape (su_backend su) t) op) = aop"
    and "all_reduce_register_call (su_backend su) peer t cb op (length (ls_peers st)) aop = (Inr b, aop')"
  shows "process_message su (MsgAllReduce peer t op cb) st =
    (if b then Option.bind (ls_config st) (\<lambda>config.
         map_option (\<lambda>(sent, client). (st\<lparr> ls_all_reduce_op := None, ls_global_client := client \<rparr>, sent))
           (all_reduce_execute su config aop' (ls_global_client st)))
     else Some (st\<lparr> ls_all_reduce_op := Some aop' \<rparr>, []))"
  using assms(1,3) unfolding process_message_def process_all_reduce_message_def Let_def message.case assms(2)
  by (cases b) simp_all

lemma round_runs:
  assumes "ls_config st = Some config" "length (before @ calls) = length (ls_peers st)" "calls \<noteq> []"
    and "\<forall>(p, t, cb) \<in> set calls. p \<in> set (ls_peers st) \<and> be_shape (su_backend su) t = sh"
  shows "serve su (map (\<lambda>(p, t, cb). MsgAllReduce p t op cb) calls)
      (st\<lparr> ls_all_reduce_op := (if before = [] then None else Some (round_op op sh before)) \<rparr>) =
    map_option (\<lambda>(sent, client). (st\<lparr> ls_all_reduce_op := None, ls_global_client := client \<rparr>, sent))
      (all_reduce_execute su config (round_op op sh (before @ calls)) (ls_global_client st))"
  using assms(2-4)
proof (induction calls arbitrary: before)
  case (Cons c calls)
  obtain p t cb where c: "c = (p, t, cb)" by (cases c)
  have p: "p \<in> set (ls_peers st)" "be_shape (su_backend su) t = sh" using Cons.prems(3) by (auto simp: c)
  let ?op = "(if before = [] then None else Some (round_op op sh before))"
  have aop: "(case ?op of Some aop \<Rightarrow> aop | None \<Rightarrow> all_reduce_op_new (be_shape (su_backend su) t) op) = round_op op sh before"
    using p by (simp add: round_op_def all_reduce_op_new_def)
  have reg: "all_reduce_register_call (su_backend su) p t cb op n (round_op op sh before) =
      (Inr (Suc (length before) = n), round_op op sh (before @ [c]))" for n
    using p by (auto simp: all_reduce_register_call_def round_op_def Let_def c)
  have step: "process_message su (MsgAllReduce p t op cb) (st\<lparr> ls_all_reduce_op := ?op \<rparr>) =
    (if Suc (length before) = length (ls_peers st)
     then map_option (\<lambda>(sent, client). (st\<lparr> ls_all_reduce_op := None, ls_global_client := client \<rparr>, sent))
       (all_reduce_execute su config (round_op op sh (before @ [c])) (ls_global_client st))
     else Some (st\<lparr> ls_all_reduce_op := Some (round_op op sh (before @ [c])) \<rparr>, []))"
    using all_reduce_step[of p "st\<lparr> ls_all_reduce_op := ?op \<rparr>" su t op "round_op op sh before" cb] reg[of "length (ls_peers st)"] p(1) aop assms(1)
    by simp
  show ?case
  proof (cases "calls = []")
    case True
    then have "Suc (length before) = length (ls_peers st)" using Cons.prems(1) by simp
    then show ?thesis using True step by (auto simp: c split: option.splits)
  next
    case False
    then have "Suc (length before) \<noteq> length (ls_peers st)" using Cons.prems(1) by (cases calls) simp_all
    then have one: "process_message su (MsgAllReduce p t op cb) (st\<lparr> ls_all_reduce_op := ?op \<rparr>) =
        Some (st\<lparr> ls_all_reduce_op := Some (round_op op sh (before @ [c])) \<rparr>, [])"
      using step by simp
    show ?thesis using Cons.IH[of "before @ [c]"] Cons.prems False one by (auto simp: c split: option.splits)
  qed
qed simp

text \<open>A tensor that lies at a peer's place.\<close>

lemma home_device:
  assumes "homes bk r = homes bk ts" "distinct (map fst ts)" "(p, t) \<in> set ts" "(p, t') \<in> set r"
  shows "be_device bk t' = be_device bk t"
proof -
  have "(p, be_device bk t') \<in># homes bk r" using assms(4) by (force simp: homes_def get_peer_devices_def)
  then have "(p, be_device bk t') \<in># homes bk ts" using assms(1) by simp
  then obtain u where "(p, u) \<in> set ts" "be_device bk t' = be_device bk u" by (auto simp: homes_def get_peer_devices_def)
  then show ?thesis using assms(2,3) by (metis eq_key_imp_eq_value)
qed

lemma homes_keys: "homes bk a = homes bk b \<Longrightarrow> mset (map fst a) = mset (map fst b)"
  by (drule arg_cong[where f = "image_mset fst"]) (simp add: homes_def get_peer_devices_def case_prod_unfold image_mset.compositionality o_def)

lemma round_execute:
  assumes "tensor_backend (su_backend su) elem quot" "distinct (map fst calls)" "calls \<noteq> []"
    and sh: "\<forall>(p, t, cb) \<in> set calls. be_shape (su_backend su) t = sh \<and> su_alive su cb"
    and order: "mset (su_order su (map (\<lambda>(p, t, cb). (p, t)) calls)) = mset (map (\<lambda>(p, t, cb). (p, t)) calls)"
    and ok: "strategy_ok (cc_local_all_reduce_strategy config) sh (length calls)"
  shows "\<exists>sent. all_reduce_execute su config (round_op op sh calls) None = Some (sent, None) \<and>
    list_all2 (\<lambda>(p, t, cb) (cb', r). cb' = cb \<and> (\<exists>t'. r = Inr (AnswerTensor t') \<and>
      be_device (su_backend su) t' = be_device (su_backend su) t \<and>
      (\<forall>i. in_bounds i sh \<longrightarrow> elem t' i =
         (let total = sum_of (\<lambda>t. elem t i) (map (\<lambda>(p, t, cb). (p, t)) calls)
          in if op = ReduceMean then quot total (length calls) else total)))) calls sent"
proof -
  let ?bk = "su_backend su" and ?ts = "map (\<lambda>(p, t, cb). (p, t)) calls"
  define ts where "ts = su_order su ?ts"
  have m: "mset ts = mset ?ts" using order by (simp add: ts_def)
  have keys: "map fst ?ts = map fst calls" by (simp add: case_prod_unfold)
  have dk: "distinct (map fst ts)" using assms(2) mset_eq_imp_distinct_iff[of "map fst ts" "map fst ?ts"] m keys by (metis mset_map)
  have ne: "ts \<noteq> []" using m assms(3) by auto
  have len: "length ts = length calls" using m by (metis length_map mset_eq_length)
  have "set ts = set ?ts" using m by (rule mset_eq_setD)
  then have shd: "shaped ?bk sh ts" using sh by (auto simp: shaped_def)
  obtain r where r: "all_reduce_local_only ?bk ts op config = Some r" "homes ?bk r = homes ?bk ts"
    "\<forall>q \<in> set r. \<forall>i. in_bounds i sh \<longrightarrow> elem (snd q) i =
       (if op = ReduceMean then quot (sum_of (\<lambda>t. elem t i) ts) (length ts) else sum_of (\<lambda>t. elem t i) ts)"
    using tensor_backend.all_reduce_ok[OF assms(1) dk ne shd, of config op] ok len by auto
  have kr: "mset (map fst r) = mset (map fst calls)" using homes_keys[OF r(2)] m keys by (metis mset_map)
  have dr: "distinct (map fst r)" "set (map fst r) = set (map fst calls)"
    using kr assms(2) mset_eq_imp_distinct_iff mset_eq_setD by blast+
  let ?cb = "map (\<lambda>(p, t, cb). (p, cb)) calls"
  have calls: "map (\<lambda>c. (rc_caller c, rc_input c)) (ao_calls (round_op op sh calls)) = ?ts"
    "map (\<lambda>c. (rc_caller c, rc_sender c)) (ao_calls (round_op op sh calls)) = ?cb" by (auto simp: round_op_def)
  have "collect_map ?ts = ?ts" by (rule collect_map_distinct) (unfold keys, rule assms(2))
  then have "all_reduce_op_all_reduce su config (round_op op sh calls) None = Some (Inr r, None)"
    using r(1) unfolding all_reduce_op_all_reduce_def calls by (simp add: ts_def round_op_def)
  moreover have "return_tensors su ?cb r [] = Some (map (\<lambda>(p, cb). (cb, Inr (AnswerTensor (the (map_of r p))))) ?cb)"
    using return_tensors_run[of ?cb r su "[]"] dr assms(2) sh by (auto simp: case_prod_unfold o_def)
  ultimately have run: "all_reduce_execute su config (round_op op sh calls) None =
      Some (map (\<lambda>(p, t, cb). (cb, Inr (AnswerTensor (the (map_of r p))))) calls, None)"
    unfolding all_reduce_execute_def calls by (simp add: case_prod_unfold o_def)
  have total: "sum_of (\<lambda>t. elem t i) ts = sum_of (\<lambda>t. elem t i) ?ts" for i
  proof -
    have "mset (map (\<lambda>q. elem (snd q) i) ts) = mset (map (\<lambda>q. elem (snd q) i) ?ts)" using m by (simp only: mset_map)
    then show ?thesis unfolding sum_of_def by (metis sum_mset_sum_list)
  qed
  have one: "\<exists>t'. the (map_of r p) = t' \<and> be_device ?bk t' = be_device ?bk t \<and> (\<forall>i. in_bounds i sh \<longrightarrow> elem t' i =
      (let total = sum_of (\<lambda>t. elem t i) ?ts in if op = ReduceMean then quot total (length calls) else total))"
    if q: "(p, t, cb) \<in> set calls" for p t cb
  proof -
    have "p \<in> set (map fst r)" unfolding dr(2) using q by force
    then obtain t' where t': "map_of r p = Some t'" by (auto simp: map_of_eq_None_iff dest: weak_map_of_SomeI)
    have "(p, t) \<in> set ts" using \<open>set ts = set ?ts\<close> q by force
    then have "be_device ?bk t' = be_device ?bk t" using home_device[OF r(2) dk _ map_of_SomeD[OF t']] by blast
    moreover have "\<forall>i. in_bounds i sh \<longrightarrow> elem t' i =
      (let total = sum_of (\<lambda>t. elem t i) ?ts in if op = ReduceMean then quot total (length calls) else total)"
      using bspec[OF r(3) map_of_SomeD[OF t']] total len by (simp add: Let_def)
    ultimately show ?thesis using t' by simp
  qed
  have each: "list_all2 P calls (map f calls)" if "\<And>p t cb. (p, t, cb) \<in> set calls \<Longrightarrow> P (p, t, cb) (f (p, t, cb))" for P f
    using that by (auto simp: list_all2_map2 intro!: list.rel_refl_strong)
  show ?thesis using run by (intro exI conjI, assumption) (rule each, use one in simp)
qed

section \<open>Properties\<close>

text \<open>C39. When every registered peer calls an all-reduce with the same operation and shape, in any order, the server
  answers only after the last call: each peer gets through its own callback, on its own device, the sum or mean of all
  the tensors, whichever strategy is configured, and the server is ready for the next round.\<close>

theorem server_all_reduce_round:
  assumes "tensor_backend (su_backend su) elem quot" "\<forall>m. mset (su_order su m) = mset m"
    and "ls_config st = Some config" "ls_all_reduce_op st = None" "ls_global_client st = None"
    and "distinct (ls_peers st)" "distinct (map fst calls)" "set (map fst calls) = set (ls_peers st)" "calls \<noteq> []"
    and "\<forall>(p, t, cb) \<in> set calls. be_shape (su_backend su) t = sh \<and> su_alive su cb"
    and "strategy_ok (cc_local_all_reduce_strategy config) sh (length calls)"
  shows "\<exists>sent. serve su (map (\<lambda>(p, t, cb). MsgAllReduce p t op cb) calls) st = Some (st, sent) \<and>
    list_all2 (\<lambda>(p, t, cb) (cb', r). cb' = cb \<and> (\<exists>t'. r = Inr (AnswerTensor t') \<and>
      be_device (su_backend su) t' = be_device (su_backend su) t \<and>
      (\<forall>i. in_bounds i sh \<longrightarrow> elem t' i =
         (let total = sum_of (\<lambda>t. elem t i) (map (\<lambda>(p, t, cb). (p, t)) calls)
          in if op = ReduceMean then quot total (length calls) else total)))) calls sent"
proof -
  have len: "length calls = length (ls_peers st)" using assms(6-8) by (metis distinct_card length_map)
  have peers: "\<forall>(p, t, cb) \<in> set calls. p \<in> set (ls_peers st) \<and> be_shape (su_backend su) t = sh"
    using assms(10) unfolding assms(8)[symmetric] by force
  obtain sent where sent: "all_reduce_execute su config (round_op op sh calls) None = Some (sent, None)"
    and answers: "list_all2 (\<lambda>(p, t, cb) (cb', r). cb' = cb \<and> (\<exists>t'. r = Inr (AnswerTensor t') \<and>
      be_device (su_backend su) t' = be_device (su_backend su) t \<and>
      (\<forall>i. in_bounds i sh \<longrightarrow> elem t' i =
         (let total = sum_of (\<lambda>t. elem t i) (map (\<lambda>(p, t, cb). (p, t)) calls)
          in if op = ReduceMean then quot total (length calls) else total)))) calls sent"
    using round_execute[OF assms(1,7,9,10) _ assms(11), of op] assms(2) by blast
  have st: "st\<lparr> ls_all_reduce_op := None \<rparr> = st" "st\<lparr> ls_all_reduce_op := None, ls_global_client := None \<rparr> = st"
    using assms(4,5) by simp_all
  have "serve su (map (\<lambda>(p, t, cb). MsgAllReduce p t op cb) calls) st = Some (st, sent)"
    using round_runs[of st config "[]" calls su sh op] assms(3,5,9) len peers sent st by simp
  then show ?thesis using answers by blast
qed

definition sample_surroundings :: "(exact_tensor, nat, unit) surroundings" where
  "sample_surroundings =
     \<lparr> su_backend = exact_backend, su_order = rev, su_device_order = id, su_alive = (\<lambda>cb. True), su_node_new = (\<lambda>p. ()),
       su_node_register = (\<lambda>n ps p. (Inr (), ())), su_node_all_reduce = (\<lambda>n t s op. (Inr t, ())),
       su_node_reduce = (\<lambda>n t s rt op. (Inr (Some t), ())), su_node_broadcast = (\<lambda>n t s d. (Inr (the t), ())) \<rparr>"

definition sample_server :: "(exact_tensor, nat, unit) local_server" where
  "sample_server = server_new\<lparr> ls_config := Some (config_new\<lparr> cc_num_devices := 2 \<rparr>), ls_peers := [7, 9], ls_devices := [(7, 1), (9, 0)] \<rparr>"

theorem server_all_reduce_round_witness:
  "\<exists>sent. serve sample_surroundings [MsgAllReduce 9 (sample_tensor 0 4) ReduceSum 31, MsgAllReduce 7 (sample_tensor 1 2) ReduceSum 32] sample_server =
     Some (sample_server, sent) \<and> map fst sent = [31, 32]"
proof -
  let ?calls = "[(9 :: nat, sample_tensor 0 4, 31 :: nat), (7, sample_tensor 1 2, 32)]"
  let ?config = "config_new\<lparr> cc_num_devices := 2 \<rparr>"
  have su: "tensor_backend (su_backend sample_surroundings) exact_at (\<lambda>v n. v / of_nat n)"
    "\<forall>m. mset (su_order sample_surroundings m) = mset m"
    using exact.tensor_backend_axioms by (simp_all add: sample_surroundings_def)
  have st: "ls_config sample_server = Some ?config" "ls_all_reduce_op sample_server = None" "ls_global_client sample_server = None"
    "distinct (ls_peers sample_server)" "distinct (map fst ?calls)" "set (map fst ?calls) = set (ls_peers sample_server)" "?calls \<noteq> []"
    by (auto simp: sample_server_def server_new_def)
  have sh: "\<forall>(p, t, cb) \<in> set ?calls. be_shape (su_backend sample_surroundings) t = [2, 3] \<and> su_alive sample_surroundings cb"
    by (simp add: sample_surroundings_def exact_backend_def sample_tensor_def)
  have ok: "strategy_ok (cc_local_all_reduce_strategy ?config) [2, 3] (length ?calls)"
    by (simp add: strategy_ok_def config_new_def)
  obtain sent where sent: "serve sample_surroundings (map (\<lambda>(p, t, cb). MsgAllReduce p t ReduceSum cb) ?calls) sample_server = Some (sample_server, sent)"
    and answers: "list_all2 (\<lambda>(p, t, cb) (cb', r). cb' = cb \<and> (\<exists>t'. r = Inr (AnswerTensor t') \<and>
      be_device (su_backend sample_surroundings) t' = be_device (su_backend sample_surroundings) t \<and>
      (\<forall>i. in_bounds i [2, 3] \<longrightarrow> exact_at t' i =
         (let total = sum_of (\<lambda>t. exact_at t i) (map (\<lambda>(p, t, cb). (p, t)) ?calls)
          in if ReduceSum = ReduceMean then total / of_nat (length ?calls) else total)))) ?calls sent"
    using server_all_reduce_round[OF su st sh ok, of ReduceSum] by blast
  have "map fst sent = [31, 32]" using answers by (auto simp: list_all2_Cons1)
  then show ?thesis using sent by simp
qed



end
