(* ===== verification/Device_Ring.thy ===== *)
theory Device_Ring
  imports Rank_Layout Planner Local_Ring
begin

text \<open>
  The ring collectives between ranks: \<^verbatim>\<open>src/rank/device_collective/ring.rs\<close>, \<^verbatim>\<open>reduce_scatter.rs\<close>,
  \<^verbatim>\<open>all_gather.rs\<close>, \<^verbatim>\<open>reduction.rs\<close> and the helpers of \<^verbatim>\<open>mod.rs\<close>, for one channel of one rank. The device, its
  buffers and kernels (\<^verbatim>\<open>src/rank/device.rs\<close> is their interface) and the point-to-point session are
  parameters; the session threads its own state. A buffer is a value: an operation that changes it
  returns the changed buffer.
\<close>

section \<open>Devices and sessions\<close>

datatype 'x device_error = FromRank rank_error | FromNetwork network_error | FromTopology topology_error | OwnError 'x

record ('b, 'k, 'l, 'x) rank_device =
  rd_element_size :: nat
  rd_buffer_len :: "'b \<Rightarrow> nat"
  rd_alloc :: "nat \<Rightarrow> 'x + 'b"
  rd_copy_bytes_to_device_at :: "'b \<Rightarrow> nat \<Rightarrow> bytes \<Rightarrow> 'x + 'b"
  rd_copy_bytes_from_device_at :: "'b \<Rightarrow> nat \<Rightarrow> nat \<Rightarrow> 'x + bytes"
  rd_prepare_reduction :: "nat \<Rightarrow> nat \<Rightarrow> 'x + 'l"
  rd_launch_reduction :: "'k \<Rightarrow> 'l \<Rightarrow> 'b \<Rightarrow> 'b \<Rightarrow> 'x + 'b"

record ring_message =
  rm_rail :: nat
  rm_destination :: nat
  rm_tag :: u64
  rm_element_type :: element_type
  rm_element_count :: nat
  rm_payload :: bytes

record ring_receive =
  rr_rail :: nat
  rr_source :: nat
  rr_tag :: u64
  rr_element_type :: element_type
  rr_element_count :: nat

record 's p2p_session =
  ps_send_on_rail :: "ring_message \<Rightarrow> 's \<Rightarrow> network_error + 's"
  ps_receive_on_rail :: "ring_receive \<Rightarrow> 's \<Rightarrow> network_error + bytes \<times> 's"

text \<open>The fields of \<open>DeviceCollective\<close> and the rank and world size of its session.\<close>

record ('b, 'k, 'l, 'x, 's) device_collective =
  dc_execution :: "('b, 'k, 'l, 'x) rank_device"
  dc_session :: "'s p2p_session"
  dc_tuning :: collective_tuning
  dc_collective_rail_order :: "nat list"
  dc_element_type :: element_type
  dc_rank :: nat
  dc_world_size :: nat

section \<open>Definitions\<close>

definition effective_ring_channels :: "nat \<Rightarrow> nat \<Rightarrow> nat" where
  "effective_ring_channels requested_channels elements_per_rank = min requested_channels (max elements_per_rank 1)"

definition index_f :: "'a list \<Rightarrow> nat \<Rightarrow> 'e fault + 'a" where
  "index_f xs i = (if i < length xs then Inr (xs ! i) else Inl (Panic ''index out of bounds''))"

definition collective_rail_for_channel :: "('b, 'k, 'l, 'x, 's) device_collective \<Rightarrow> nat \<Rightarrow> 'e fault + nat" where
  "collective_rail_for_channel dc channel =
     (if dc_collective_rail_order dc = [] then Inl (Panic ''remainder with a divisor of zero'')
      else index_f (dc_collective_rail_order dc) (channel mod length (dc_collective_rail_order dc)))"

definition ring_position :: "('b, 'k, 'l, 'x, 's) device_collective \<Rightarrow> nat list \<Rightarrow> 'x device_error fault + nat" where
  "ring_position dc ring =
     ok_or (position (\<lambda>rank. rank = dc_rank dc) ring)
       (Fault (FromTopology (InvalidRing (Msg ''rank {} is absent from the configured ring'' [ANat (dc_rank dc)]))))"

definition exchange_ring_chunk_bytes ::
  "('b, 'k, 'l, 'x, 's) device_collective \<Rightarrow> 'b \<Rightarrow> nat \<times> nat \<Rightarrow> nat \<Rightarrow> nat \<Rightarrow> nat \<Rightarrow> nat \<Rightarrow> u64 \<Rightarrow> 's
     \<Rightarrow> 'x device_error fault + bytes \<times> 's" where
  "exchange_ring_chunk_bytes dc buffer send_range receive_length destination source rail_hint tag st =
     bind_r (map_err (\<lambda>e. Fault (OwnError e))
         (rd_copy_bytes_from_device_at (dc_execution dc) buffer (fst send_range) (snd send_range - fst send_range))) (\<lambda>payload.
     bind_r (collective_rail_for_channel dc rail_hint) (\<lambda>rail.
     bind_r (map_err (\<lambda>e. Fault (FromNetwork e))
         (ps_send_on_rail (dc_session dc)
            \<lparr> rm_rail = rail, rm_destination = destination, rm_tag = tag, rm_element_type = dc_element_type dc,
              rm_element_count = snd send_range - fst send_range, rm_payload = payload \<rparr> st)) (\<lambda>st.
     bind_r (map_err (\<lambda>e. Fault (FromNetwork e))
         (ps_receive_on_rail (dc_session dc)
            \<lparr> rr_rail = rail, rr_source = source, rr_tag = tag, rr_element_type = dc_element_type dc,
              rr_element_count = receive_length \<rparr> st)) (\<lambda>(response, st).
     bind_r (ok_or (checked_mul 64 receive_length (rd_element_size (dc_execution dc)))
         (Fault (FromRank (Overflow ''ring receive byte length'')))) (\<lambda>receive_bytes.
       if length response \<noteq> receive_bytes
       then Inl (Fault (FromNetwork (invalid_configuration ''ring response has {} bytes, expected {}'' [ANat (length response), ANat receive_bytes])))
       else Inr (response, st))))))"

definition reduce_bytes_into ::
  "('b, 'k, 'l, 'x) rank_device \<Rightarrow> 'k \<Rightarrow> 'b \<Rightarrow> nat \<Rightarrow> nat \<Rightarrow> bytes \<Rightarrow> 'x device_error fault + 'b \<times> nat" where
  "reduce_bytes_into dv krn destination destination_offset element_count values =
     bind_r (ok_or (checked_mul 64 element_count (rd_element_size dv)) (Fault (FromRank (Overflow ''reduction input byte length'')))) (\<lambda>expected_bytes.
       if length values \<noteq> expected_bytes then Inl (Fault (FromRank (InvalidLength ''reduction input does not match its element count'')))
       else if element_count = 0 then Inr (destination, 0)
       else bind_r (ok_or (checked_add 64 destination_offset element_count)
              (Fault (FromRank (Overflow ''hierarchical reduction destination range'')))) (\<lambda>fin.
         if fin > rd_buffer_len dv destination
         then Inl (Fault (FromRank (InvalidLength ''hierarchical reduction destination range is out of bounds'')))
         else map_err (\<lambda>e. Fault (OwnError e))
           (bind_r (rd_alloc dv element_count) (\<lambda>scratch.
            bind_r (rd_copy_bytes_to_device_at dv scratch 0 values) (\<lambda>scratch.
            bind_r (rd_prepare_reduction dv element_count destination_offset) (\<lambda>launch.
            bind_r (rd_launch_reduction dv krn launch scratch destination) (\<lambda>destination. Inr (destination, 1))))))))"

text \<open>The body of a loop that reduces what it receives, and of one that copies it.\<close>

definition ring_transfer_bytes :: "nat \<Rightarrow> nat \<times> nat \<Rightarrow> bytes \<Rightarrow> nat" where
  "ring_transfer_bytes element_size send_range received =
     saturating_add 64 (saturating_mul 64 (snd send_range - fst send_range) element_size) (length received)"

definition ring_reduce_step ::
  "string \<Rightarrow> ('b, 'k, 'l, 'x, 's) device_collective \<Rightarrow> 'k \<Rightarrow> (nat \<times> nat) list \<Rightarrow> nat \<Rightarrow> nat \<Rightarrow> nat \<Rightarrow> nat \<Rightarrow> nat \<Rightarrow> u64
     \<Rightarrow> 's \<times> 'b \<times> nat \<times> nat \<Rightarrow> 'x device_error fault + 's \<times> 'b \<times> nat \<times> nat" where
  "ring_reduce_step name dc krn ranges send_chunk receive_chunk next_rank previous_rank channel tag = (\<lambda>(st, buffer, transferred, launches).
     bind_r (index_f ranges send_chunk) (\<lambda>send_range.
     bind_r (index_f ranges receive_chunk) (\<lambda>receive_range.
     bind_r (exchange_ring_chunk_bytes dc buffer send_range (snd receive_range - fst receive_range) next_rank previous_rank channel tag st)
       (\<lambda>(received, st).
     bind_r (ok_or (checked_add 64 transferred (ring_transfer_bytes (rd_element_size (dc_execution dc)) send_range received))
         (Fault (FromRank (Overflow (name @ '' transferred bytes''))))) (\<lambda>transferred.
     bind_r (reduce_bytes_into (dc_execution dc) krn buffer (fst receive_range) (snd receive_range - fst receive_range) received)
       (\<lambda>(buffer, launched).
     bind_r (ok_or (checked_add 32 launches launched) (Fault (FromRank (Overflow (name @ '' kernel launches''))))) (\<lambda>launches.
       Inr (st, buffer, transferred, launches))))))))"

definition ring_copy_step ::
  "('b, 'k, 'l, 'x, 's) device_collective \<Rightarrow> (nat \<times> nat) list \<Rightarrow> nat \<Rightarrow> nat \<Rightarrow> nat \<Rightarrow> nat \<Rightarrow> nat \<Rightarrow> u64
     \<Rightarrow> 's \<times> 'b \<times> nat \<times> nat \<Rightarrow> 'x device_error fault + 's \<times> 'b \<times> nat \<times> nat" where
  "ring_copy_step dc ranges send_chunk receive_chunk next_rank previous_rank channel tag = (\<lambda>(st, buffer, transferred, launches).
     bind_r (index_f ranges send_chunk) (\<lambda>send_range.
     bind_r (index_f ranges receive_chunk) (\<lambda>receive_range.
     bind_r (exchange_ring_chunk_bytes dc buffer send_range (snd receive_range - fst receive_range) next_rank previous_rank channel tag st)
       (\<lambda>(received, st).
     bind_r (ok_or (checked_add 64 transferred (ring_transfer_bytes (rd_element_size (dc_execution dc)) send_range received))
         (Fault (FromRank (Overflow ''ring all-reduce transferred bytes'')))) (\<lambda>transferred.
     bind_r (if received = [] then Inr buffer
             else map_err (\<lambda>e. Fault (OwnError e)) (rd_copy_bytes_to_device_at (dc_execution dc) buffer (fst receive_range) received)) (\<lambda>buffer.
       Inr (st, buffer, transferred, launches)))))))"

definition all_reduce_ring_channel ::
  "('b, 'k, 'l, 'x, 's) device_collective \<Rightarrow> 'k \<Rightarrow> 'b \<Rightarrow> nat \<times> nat \<Rightarrow> u64 \<Rightarrow> nat \<Rightarrow> 's
     \<Rightarrow> 'x device_error fault + 's \<times> 'b \<times> nat \<times> nat" where
  "all_reduce_ring_channel dc krn buffer channel_range operation channel st =
     (let n = dc_world_size dc; ring = ring_order_for_channel (dc_tuning dc) channel in
      bind_r (ring_position dc ring) (\<lambda>pos.
      bind_r (index_f ring ((pos + n - 1) mod n)) (\<lambda>previous_rank.
      bind_r (index_f ring ((pos + 1) mod n)) (\<lambda>next_rank.
      bind_r (ok_or (balanced_ranges (snd channel_range - fst channel_range) n) (Panic ''division by zero'')) (\<lambda>rs.
        let ranges = map (\<lambda>(a, b). (a + fst channel_range, b + fst channel_range)) rs in
        bind_r (fold_r (\<lambda>step s.
            bind_r (index_f ring ((pos + n - step) mod n)) (\<lambda>send_chunk.
            bind_r (index_f ring ((pos + n - step - 1) mod n)) (\<lambda>receive_chunk.
              ring_reduce_step ''ring all-reduce'' dc krn ranges send_chunk receive_chunk next_rank previous_rank channel
                (ring_data_tag operation 0 channel step) s))) [0..<n - 1] (st, buffer, 0, 0))
        (fold_r (\<lambda>step s.
            bind_r (index_f ring ((pos + 1 + n - step) mod n)) (\<lambda>send_chunk.
            bind_r (index_f ring ((pos + n - step) mod n)) (\<lambda>receive_chunk.
              ring_copy_step dc ranges send_chunk receive_chunk next_rank previous_rank channel
                (ring_data_tag operation 1 channel step) s))) [0..<n - 1]))))))"

definition reduce_scatter_ring_channel ::
  "('b, 'k, 'l, 'x, 's) device_collective \<Rightarrow> 'k \<Rightarrow> 'b \<Rightarrow> 'b \<Rightarrow> nat \<Rightarrow> nat \<times> nat \<Rightarrow> u64 \<Rightarrow> nat \<Rightarrow> 's
     \<Rightarrow> 'x device_error fault + 's \<times> 'b \<times> 'b \<times> nat \<times> nat" where
  "reduce_scatter_ring_channel dc krn working out output_length channel_range operation channel st =
     (let n = dc_world_size dc; ring = ring_order_for_channel (dc_tuning dc) channel in
      bind_r (ring_position dc ring) (\<lambda>pos.
      bind_r (index_f ring ((pos + n - 1) mod n)) (\<lambda>previous_rank.
      bind_r (index_f ring ((pos + 1) mod n)) (\<lambda>next_rank.
        let ranges = map (\<lambda>rank. (rank * output_length + fst channel_range, rank * output_length + snd channel_range)) [0..<n] in
        bind_r (fold_r (\<lambda>step s.
            bind_r (index_f ring ((pos + n - 1 - step) mod n)) (\<lambda>send_chunk.
            bind_r (index_f ring ((pos + 2 * n - 2 - step) mod n)) (\<lambda>receive_chunk.
              ring_reduce_step ''ring reduce-scatter'' dc krn ranges send_chunk receive_chunk next_rank previous_rank channel
                (ring_data_tag operation 0 channel step) s))) [0..<n - 1] (st, working, 0, 0))
        (\<lambda>(st, working, transferred, launches).
          map_err (\<lambda>e. Fault (OwnError e))
            (bind_r (rd_copy_bytes_from_device_at (dc_execution dc) working (dc_rank dc * output_length + fst channel_range)
                 (snd channel_range - fst channel_range)) (\<lambda>output_values.
             bind_r (rd_copy_bytes_to_device_at (dc_execution dc) out (fst channel_range) output_values) (\<lambda>out.
               Inr (st, working, out, transferred, launches)))))))))"

definition all_gather_step ::
  "('b, 'k, 'l, 'x, 's) device_collective \<Rightarrow> nat \<Rightarrow> nat \<times> nat \<Rightarrow> nat \<Rightarrow> nat \<Rightarrow> nat \<Rightarrow> nat \<Rightarrow> nat \<Rightarrow> u64
     \<Rightarrow> 's \<times> 'b \<times> nat \<Rightarrow> 'x device_error fault + 's \<times> 'b \<times> nat" where
  "all_gather_step dc input_length channel_range send_chunk receive_chunk next_rank previous_rank channel tag = (\<lambda>(st, out, transferred).
     let len = snd channel_range - fst channel_range;
         offset = (\<lambda>chunk. Option.bind (checked_mul 64 chunk input_length) (\<lambda>start. checked_add 64 start (fst channel_range))) in
     bind_r (ok_or (offset send_chunk) (Fault (FromRank (Overflow ''ring all-gather channel send offset'')))) (\<lambda>send_start.
     bind_r (exchange_ring_chunk_bytes dc out (send_start, send_start + len) len next_rank previous_rank channel tag st) (\<lambda>(received, st).
     bind_r (ok_or (offset receive_chunk) (Fault (FromRank (Overflow ''ring all-gather channel receive offset'')))) (\<lambda>receive_start.
     bind_r (map_err (\<lambda>e. Fault (OwnError e)) (rd_copy_bytes_to_device_at (dc_execution dc) out receive_start received)) (\<lambda>out.
     bind_r (ok_or (checked_add 64 transferred (saturating_mul 64 (length received) 2))
         (Fault (FromRank (Overflow ''ring all-gather transferred bytes'')))) (\<lambda>transferred.
       Inr (st, out, transferred)))))))"

definition all_gather_ring_channel ::
  "('b, 'k, 'l, 'x, 's) device_collective \<Rightarrow> 'b \<Rightarrow> nat \<Rightarrow> nat \<times> nat \<Rightarrow> u64 \<Rightarrow> nat \<Rightarrow> 's
     \<Rightarrow> 'x device_error fault + 's \<times> 'b \<times> nat" where
  "all_gather_ring_channel dc out input_length channel_range operation channel st =
     (let n = dc_world_size dc; ring = ring_order_for_channel (dc_tuning dc) channel in
      bind_r (ring_position dc ring) (\<lambda>pos.
      bind_r (index_f ring ((pos + n - 1) mod n)) (\<lambda>previous_rank.
      bind_r (index_f ring ((pos + 1) mod n)) (\<lambda>next_rank.
        fold_r (\<lambda>step s.
            bind_r (index_f ring ((pos + n - step) mod n)) (\<lambda>send_chunk.
            bind_r (index_f ring ((pos + n - step - 1) mod n)) (\<lambda>receive_chunk.
              all_gather_step dc input_length channel_range send_chunk receive_chunk next_rank previous_rank channel
                (ring_data_tag operation 0 channel step) s))) [0..<n - 1] (st, out, 0)))))"

section \<open>Simultaneous steps\<close>

text \<open>The chunks of all ranks as a matrix: row \<open>p\<close> belongs to the rank at position \<open>p\<close> of the ring, entry \<open>q\<close> is the chunk
  of the rank at position \<open>q\<close>. In step \<open>k\<close> every position sends one chunk to the next position.\<close>

definition send_index :: "nat \<Rightarrow> nat \<Rightarrow> nat \<Rightarrow> nat \<Rightarrow> nat" where
  "send_index n off k p = (p + off + n - k) mod n"

definition ring_prev :: "nat \<Rightarrow> nat \<Rightarrow> nat" where
  "ring_prev n p = (p + n - 1) mod n"

definition receive_index :: "nat \<Rightarrow> nat \<Rightarrow> nat \<Rightarrow> nat \<Rightarrow> nat" where
  "receive_index n off k p = send_index n off k (ring_prev n p)"

definition sim_step :: "('t, 'd) backend \<Rightarrow> bool \<Rightarrow> nat \<Rightarrow> nat \<Rightarrow> nat \<Rightarrow> 't list list \<Rightarrow> 't list list" where
  "sim_step bk phase n off k M =
     map (\<lambda>p. (M ! p)[receive_index n off k p :=
         combine_slices bk phase (M ! ring_prev n p ! receive_index n off k p) (M ! p ! receive_index n off k p)]) [0..<n]"

definition sim_steps :: "('t, 'd) backend \<Rightarrow> bool \<Rightarrow> nat \<Rightarrow> nat \<Rightarrow> nat \<Rightarrow> 't list list \<Rightarrow> 't list list" where
  "sim_steps bk phase n off K M = fold (sim_step bk phase n off) [0..<K] M"

lemma sim_steps_simps [simp]:
  "sim_steps bk phase n off 0 M = M"
  "sim_steps bk phase n off (Suc K) M = sim_step bk phase n off K (sim_steps bk phase n off K M)"
  by (simp_all add: sim_steps_def)

lemma sim_step_square: "square n M \<Longrightarrow> square n (sim_step bk phase n off k M)"
  by (auto simp: square_def sim_step_def)

lemma sim_steps_square: "square n M \<Longrightarrow> square n (sim_steps bk phase n off K M)"
  by (induction K) (simp_all add: sim_step_square)

lemma ring_prev_next: "p < n \<Longrightarrow> (ring_prev n p + 1) mod n = p" "p < n \<Longrightarrow> ring_prev n ((p + 1) mod n) = p" "0 < n \<Longrightarrow> ring_prev n p < n"
proof -
  show "p < n \<Longrightarrow> (ring_prev n p + 1) mod n = p" by (cases p) (auto simp: ring_prev_def mod_Suc_eq)
  show "p < n \<Longrightarrow> ring_prev n ((p + 1) mod n) = p" by (cases "Suc p = n") (auto simp: ring_prev_def)
qed (simp add: ring_prev_def)

text \<open>Position \<open>start + k\<close> sends chunk \<open>q\<close> in step \<open>k\<close>.\<close>

lemma send_index_iff:
  assumes "k < n" "off \<le> n" "q < n" "i < n"
  shows "send_index n off k i = q \<longleftrightarrow> i = (q + (n - off) + k) mod n"
proof -
  have inj: "a = b" if "send_index n off k a = send_index n off k b" "a < n" "b < n" for a b
    using that add_mod_cancel[of a "off + n - k" n b] assms(1) by (simp add: send_index_def add.assoc)
  have "send_index n off k ((q + (n - off) + k) mod n) = ((q + (n - off) + k) mod n + (off + n - k)) mod n"
    using assms(1) by (simp add: send_index_def add.assoc)
  also have "\<dots> = (q + (n - off) + k + (off + n - k)) mod n" by (rule mod_add_left_eq)
  also have "q + (n - off) + k + (off + n - k) = q + n * 2" using assms(1,2) by simp
  also have "\<dots> mod n = q" using assms(3) by simp
  finally have "send_index n off k ((q + (n - off) + k) mod n) = q" .
  moreover have "(q + (n - off) + k) mod n < n" using assms(1) by simp
  ultimately show ?thesis using inj[OF _ assms(4)] by metis
qed

lemma sim_step_column:
  assumes "square n M" "k < n" "off \<le> n" "q < n"
  defines "i \<equiv> (q + (n - off) + k) mod n"
  shows "column (sim_step bk phase n off k M) q = column_transfer bk phase n i (column M q)"
proof (rule nth_equalityI)
  have n: "0 < n" "i < n" using assms(2) by (simp_all add: i_def)
  have len: "length M = n" "\<And>p. p < n \<Longrightarrow> length (M ! p) = n" using assms(1) by (auto simp: square_def)
  fix p assume "p < length (column (sim_step bk phase n off k M) q)"
  then have p: "p < n" by (simp add: column_def sim_step_def)
  have "receive_index n off k p = q \<longleftrightarrow> ring_prev n p = i"
    using send_index_iff[OF assms(2-4), of "ring_prev n p"] ring_prev_next(3)[OF n(1)] by (simp add: receive_index_def i_def)
  also have "\<dots> \<longleftrightarrow> p = (i + 1) mod n" using ring_prev_next(1)[OF p] ring_prev_next(2)[OF n(2)] by metis
  finally have r: "receive_index n off k p = q \<longleftrightarrow> p = (i + 1) mod n" .
  have l: "column (sim_step bk phase n off k M) q ! p =
      (if p = (i + 1) mod n then combine_slices bk phase (M ! ring_prev n p ! q) (M ! p ! q) else M ! p ! q)"
    using p assms(4) len r by (auto simp: column_def sim_step_def nth_list_update)
  show "column (sim_step bk phase n off k M) q ! p = column_transfer bk phase n i (column M q) ! p"
  proof (cases "p = (i + 1) mod n")
    case True
    then have "ring_prev n p = i" using ring_prev_next(2)[OF n(2)] by simp
    then show ?thesis using l True p n len by (simp add: column_transfer_def column_def)
  next
    case False
    then show ?thesis using l p len by (simp add: column_transfer_def column_def)
  qed
qed (use assms(1) in \<open>simp add: column_def sim_step_def column_transfer_def square_def\<close>)

lemma sim_steps_column:
  assumes "square n M" "K \<le> n" "off \<le> n" "q < n"
  shows "column (sim_steps bk phase n off K M) q =
    fold (\<lambda>k. column_transfer bk phase n ((q + (n - off) + k) mod n)) [0..<K] (column M q)"
  using assms(2)
proof (induction K)
  case (Suc K)
  then show ?case using sim_step_column[OF sim_steps_square[OF assms(1)], of K off q bk phase bk phase off K] assms(3,4) by simp
qed simp

section \<open>Chunks of elements\<close>

text \<open>Chunks as tensors of one dimension on one device: adding is elementwise, assigning replaces.\<close>

definition chunk_backend :: "('e :: comm_monoid_add list, unit) backend" where
  "chunk_backend =
     \<lparr> be_device = (\<lambda>t. ()), be_to_device = (\<lambda>t d. t), be_add = map2 (+), be_div_scalar = (\<lambda>t n. t), be_shape = (\<lambda>t. [length t]),
       be_slice = (\<lambda>t rs. t), be_slice_assign = (\<lambda>t rs u. u), be_cat = (\<lambda>ts d. concat ts), be_device_id = (\<lambda>d. 0) \<rparr>"

lemma combine_chunks: "combine_slices chunk_backend phase src dest = (if phase then map2 (+) dest src else src)"
  by (simp add: combine_slices_def chunk_backend_def)

lemma chunk_ring: "i < len \<Longrightarrow> ring_sum chunk_backend (\<lambda>t. t ! i) [len]"
  by unfold_locales (auto simp: chunk_backend_def)

text \<open>All the chunks at a position have the length of that position's chunk.\<close>

definition chunk_sizes :: "(nat \<Rightarrow> nat) \<Rightarrow> nat \<Rightarrow> 'e list list list \<Rightarrow> bool" where
  "chunk_sizes len n M \<longleftrightarrow> square n M \<and> (\<forall>p < n. \<forall>q < n. length (M ! p ! q) = len q)"

lemma column_nth: "square n M \<Longrightarrow> p < n \<Longrightarrow> column M q ! p = M ! p ! q"
  by (simp add: column_def square_def)

lemma sim_step_sizes:
  assumes "chunk_sizes len n M" "0 < n"
  shows "chunk_sizes len n (sim_step chunk_backend phase n off k M)"
proof -
  have sq: "square n M" using assms(1) by (simp add: chunk_sizes_def)
  then have l: "length M = n" "\<And>p. p < n \<Longrightarrow> length (M ! p) = n" by (auto simp: square_def)
  have r: "receive_index n off k p < n" for p using assms(2) by (simp add: receive_index_def send_index_def)
  have "length (sim_step chunk_backend phase n off k M ! p ! q) = len q" if "p < n" "q < n" for p q
    using that assms(1) l r[of p] ring_prev_next(3)[OF assms(2), of p]
    by (auto simp: chunk_sizes_def sim_step_def nth_list_update combine_chunks)
  then show ?thesis unfolding chunk_sizes_def using sim_step_square[OF sq] by blast
qed

lemma sim_steps_sizes: "chunk_sizes len n M \<Longrightarrow> 0 < n \<Longrightarrow> chunk_sizes len n (sim_steps chunk_backend phase n off K M)"
  by (induction K) (simp_all add: sim_step_sizes)

text \<open>Summing steps leave the sum of chunk \<open>q\<close> where its round ends, replacing steps spread what the first sender had.\<close>

lemma sum_steps:
  assumes "chunk_sizes len n M" "off \<le> n" "q < n" "i < len q"
  shows "sim_steps chunk_backend True n off (n - 1) M ! ((q + (n - off) + (n - 1)) mod n) ! q ! i = (\<Sum>p < n. M ! p ! q ! i)"
proof -
  define j where "j = (q + (n - off)) mod n"
  have sq: "square n M" using assms(1) by (simp add: chunk_sizes_def)
  have j: "j < n" using assms(3) by (simp add: j_def)
  have ring: "ring_sum chunk_backend (\<lambda>t :: 'a list. t ! i) [len q]" by (rule chunk_ring[OF assms(4)])
  have "ring_sum.placed chunk_backend [len q] n (\<lambda>t. ()) (column M q)"
    unfolding ring_sum.placed_def[OF ring] using assms(1,3) sq by (auto simp: chunk_sizes_def square_def column_def chunk_backend_def)
  note total = ring_sum.phase_one_total[OF ring this j]
  have "ring_sender True n k j = (q + (n - off) + k) mod n" for k
  proof -
    have "ring_sender True n k j = (q + (n - off) + (n + k)) mod n"
      using mod_add_left_eq[of "q + (n - off)" n "n + k"] by (simp only: ring_sender_def j_def add.assoc if_True)
    also have "q + (n - off) + (n + k) = q + (n - off) + k + n" by simp
    finally show ?thesis by simp
  qed
  then have "column (sim_steps chunk_backend True n off (n - 1) M) q =
      fold (\<lambda>c. column_transfer chunk_backend True n (ring_sender True n c j)) [0..<n - 1] (column M q)"
    using sim_steps_column[OF sq _ assms(2,3), of "n - 1"] by simp
  then have "column (sim_steps chunk_backend True n off (n - 1) M) q ! ((j + (n - 1)) mod n) ! i = (\<Sum>p < n. column M q ! p ! i)"
    using total by simp
  moreover have "(j + (n - 1)) mod n = (q + (n - off) + (n - 1)) mod n" by (simp add: j_def mod_add_left_eq)
  moreover have o: "(q + (n - off) + (n - 1)) mod n < n" using assms(3) by simp
  ultimately show ?thesis unfolding column_nth[OF sim_steps_square[OF sq] o, symmetric] using column_nth[OF sq] by simp
qed

lemma spread_steps:
  assumes "chunk_sizes len n M" "off \<le> n" "q < n" "i < len q" "p < n"
  shows "sim_steps chunk_backend False n off (n - 1) M ! p ! q ! i = M ! ((q + (n - off)) mod n) ! q ! i"
proof -
  define j where "j = (q + (n - off) + 1) mod n"
  have sq: "square n M" using assms(1) by (simp add: chunk_sizes_def)
  have j: "j < n" using assms(3) by (simp add: j_def)
  have ring: "ring_sum chunk_backend (\<lambda>t :: 'a list. t ! i) [len q]" by (rule chunk_ring[OF assms(4)])
  have "ring_sum.placed chunk_backend [len q] n (\<lambda>t. ()) (column M q)"
    unfolding ring_sum.placed_def[OF ring] using assms(1,3) sq by (auto simp: chunk_sizes_def square_def column_def chunk_backend_def)
  note all = ring_sum.phase_two_all[OF ring this j assms(5)]
  have off: "(j + (n - 1) + k) mod n = (q + (n - off) + k) mod n" for k
  proof -
    have "(j + (n - 1) + k) mod n = (q + (n - off) + 1 + (n - 1 + k)) mod n"
      using mod_add_left_eq[of "q + (n - off) + 1" n "n - 1 + k"] by (simp only: j_def add.assoc)
    also have "q + (n - off) + 1 + (n - 1 + k) = q + (n - off) + k + n" using assms(3) by simp
    finally show ?thesis by simp
  qed
  have "ring_sender False n k j = (q + (n - off) + k) mod n" for k using off[of k] by (simp add: ring_sender_def)
  then have "column (sim_steps chunk_backend False n off (n - 1) M) q =
      fold (\<lambda>c. column_transfer chunk_backend False n (ring_sender False n c j)) [0..<n - 1] (column M q)"
    using sim_steps_column[OF sq _ assms(2,3), of "n - 1"] by simp
  then have "column (sim_steps chunk_backend False n off (n - 1) M) q ! p ! i = column M q ! ((q + (n - off)) mod n) ! i"
    using all off[of 0] by simp
  moreover have "(q + (n - off)) mod n < n" using assms(3) by simp
  ultimately show ?thesis unfolding column_nth[OF sim_steps_square[OF sq] assms(5)] using column_nth[OF sq] by simp
qed

section \<open>Buffers\<close>

lemma copy_at_same: "off + length v \<le> length xs \<Longrightarrow> subslice off (off + length v) (copy_at xs off v) = v"
  by (simp add: subslice_def copy_at_def)

lemma copy_at_other:
  assumes "off + length v \<le> length xs" "b \<le> off \<or> off + length v \<le> a"
  shows "subslice a b (copy_at xs off v) = subslice a b xs"
  using assms(2)
proof
  assume "b \<le> off"
  then show ?thesis using assms(1) by (intro nth_equalityI) (auto simp: subslice_def copy_at_def nth_append)
next
  assume "off + length v \<le> a"
  then show ?thesis using assms(1) by (simp add: subslice_def copy_at_def)
qed

lemma copy_at_nil [simp]: "copy_at xs off [] = xs"
  by (simp add: copy_at_def)

lemma copy_at_nth_other: "off + length v \<le> length xs \<Longrightarrow> x < off \<or> off + length v \<le> x \<Longrightarrow> x < length xs \<Longrightarrow> copy_at xs off v ! x = xs ! x"
  by (auto simp: copy_at_def nth_append)

text \<open>What the collectives rely on of a device: valid buffers hold elements of a commutative monoid, at most \<open>isize::MAX\<close> bytes
  of them, bytes are their encoding, copies and allocations inside the bounds succeed and the kernel adds elementwise.\<close>

locale device_buffers =
  fixes dv :: "('b, 'k, 'l, 'x) rank_device" and valid :: "'b \<Rightarrow> bool" and vals :: "'b \<Rightarrow> 'e :: comm_monoid_add list"
    and enc :: "'e list \<Rightarrow> bytes" and krn :: 'k
  assumes element_size: "0 < rd_element_size dv"
    and buffer_len: "valid b \<Longrightarrow> rd_buffer_len dv b = length (vals b)"
    and addressable: "valid b \<Longrightarrow> length (vals b) * rd_element_size dv < 2 ^ 63"
    and enc_len: "length (enc xs) = length xs * rd_element_size dv"
    and copy_from: "valid b \<Longrightarrow> s + l \<le> length (vals b) \<Longrightarrow>
      rd_copy_bytes_from_device_at dv b s l = Inr (enc (subslice s (s + l) (vals b)))"
    and copy_to: "valid b \<Longrightarrow> s + length xs \<le> length (vals b) \<Longrightarrow>
      \<exists>b'. rd_copy_bytes_to_device_at dv b s (enc xs) = Inr b' \<and> valid b' \<and> vals b' = copy_at (vals b) s xs"
    and alloc: "l * rd_element_size dv < 2 ^ 63 \<Longrightarrow> \<exists>b. rd_alloc dv l = Inr b \<and> valid b \<and> length (vals b) = l"
    and reduce: "valid src \<Longrightarrow> valid d \<Longrightarrow> length (vals src) = l \<Longrightarrow> off + l \<le> length (vals d) \<Longrightarrow>
      \<exists>ln d'. rd_prepare_reduction dv l off = Inr ln \<and> rd_launch_reduction dv krn ln src d = Inr d' \<and> valid d' \<and>
        vals d' = copy_at (vals d) off (map2 (+) (subslice off (off + l) (vals d)) (vals src))"

lemma rail_ok:
  "dc_collective_rail_order dc \<noteq> [] \<Longrightarrow>
    collective_rail_for_channel dc channel = Inr (dc_collective_rail_order dc ! (channel mod length (dc_collective_rail_order dc)))"
  by (simp add: collective_rail_for_channel_def index_f_def)

text \<open>A session over a script: it records what is sent and delivers the given messages in order, each to a receive that
  names its source, rail, tag, element type and element count.\<close>

type_synonym script = "ring_message list \<times> (nat \<times> ring_message) list"

fun script_receive :: "ring_receive \<Rightarrow> script \<Rightarrow> network_error + bytes \<times> script" where
  "script_receive r (sent, []) = Inl (Io ''closed'')"
| "script_receive r (sent, (src, m) # inbox) =
     (if src = rr_source r \<and> rm_rail m = rr_rail r \<and> rm_tag m = rr_tag r \<and> rm_element_type m = rr_element_type r \<and>
         rm_element_count m = rr_element_count r
      then Inr (rm_payload m, sent, inbox) else Inl (Io ''unexpected message''))"

definition script_session :: "script p2p_session" where
  "script_session = \<lparr> ps_send_on_rail = (\<lambda>m (sent, inbox). Inr (sent @ [m], inbox)), ps_receive_on_rail = script_receive \<rparr>"

definition chunk_message ::
  "('b, 'k, 'l, 'x, 's) device_collective \<Rightarrow> ('e list \<Rightarrow> bytes) \<Rightarrow> nat \<Rightarrow> nat \<Rightarrow> u64 \<Rightarrow> 'e list \<Rightarrow> ring_message" where
  "chunk_message dc enc channel dst tag xs =
     \<lparr> rm_rail = dc_collective_rail_order dc ! (channel mod length (dc_collective_rail_order dc)), rm_destination = dst, rm_tag = tag,
       rm_element_type = dc_element_type dc, rm_element_count = length xs, rm_payload = enc xs \<rparr>"

text \<open>The messages one position sends in a phase, and what the network delivers to a rank: everything addressed to it.\<close>

definition phase_out ::
  "('b, 'k, 'l, 'x, 's) device_collective \<Rightarrow> ('e :: comm_monoid_add list \<Rightarrow> bytes) \<Rightarrow> nat \<Rightarrow> nat \<Rightarrow> nat \<Rightarrow> bool \<Rightarrow> (nat \<Rightarrow> u64) \<Rightarrow>
     'e list list list \<Rightarrow> nat \<Rightarrow> nat \<Rightarrow> ring_message list" where
  "phase_out dc enc channel n off phase tag M dst p =
     map (\<lambda>k. chunk_message dc enc channel dst (tag k) (sim_steps chunk_backend phase n off k M ! p ! send_index n off k p)) [0..<n - 1]"

definition delivered :: "nat \<Rightarrow> (nat \<Rightarrow> ring_message list) \<Rightarrow> nat \<Rightarrow> (nat \<times> ring_message) list" where
  "delivered n sent r = concat (map (\<lambda>s. map (Pair s) (filter (\<lambda>m. rm_destination m = r) (sent s))) [0..<n])"

text \<open>The ranks of a ring share the configuration and differ in their rank.\<close>

definition ring_world :: "('b, 'k, 'l, 'x, script) device_collective \<Rightarrow> nat \<Rightarrow> nat \<Rightarrow> bool" where
  "ring_world dc channel n \<longleftrightarrow> 0 < n \<and> dc_world_size dc = n \<and> dc_session dc = script_session \<and> dc_collective_rail_order dc \<noteq> [] \<and>
     distinct (ring_order_for_channel (dc_tuning dc) channel) \<and> set (ring_order_for_channel (dc_tuning dc) channel) = {..<n}"

lemma ring_worldD:
  assumes "ring_world dc channel n"
  defines "ring \<equiv> ring_order_for_channel (dc_tuning dc) channel"
  shows "length ring = n" "distinct ring" "set ring = {..<n}" "0 < n"
  using assms distinct_card[of ring] by (auto simp: ring_world_def)

lemma phase_out_destination: "m \<in> set (phase_out dc enc channel n off phase tag M dst p) \<Longrightarrow> rm_destination m = dst"
  by (auto simp: phase_out_def chunk_message_def)

lemma chunk_message_rank [simp]: "chunk_message (dc\<lparr>dc_rank := r\<rparr>) = chunk_message dc"
  by (simp add: chunk_message_def fun_eq_iff)

lemma phase_out_rank [simp]: "phase_out (dc\<lparr>dc_rank := r\<rparr>) = phase_out dc"
  by (simp add: phase_out_def fun_eq_iff)

lemma position_distinct: "distinct xs \<Longrightarrow> p < length xs \<Longrightarrow> position (\<lambda>x. x = xs ! p) xs = Some p"
  by (induction xs arbitrary: p) (auto simp: nth_Cons' split: if_splits)

lemma concat_single: "i < n \<Longrightarrow> (\<And>j. j < n \<Longrightarrow> j \<noteq> i \<Longrightarrow> f j = []) \<Longrightarrow> concat (map f [0..<n]) = f i"
proof (induction n)
  case (Suc n)
  show ?case
  proof (cases "i = n")
    case True
    then show ?thesis using Suc.prems(2) by simp
  next
    case False
    then show ?thesis using Suc by simp
  qed
qed simp

lemma ring_find: "length ring = n \<Longrightarrow> set ring = {..<n} \<Longrightarrow> r < n \<Longrightarrow> \<exists>p < n. r = ring ! p"
  using in_set_conv_nth[of r ring] by auto

lemma delivered_ring:
  assumes "length ring = n" "distinct ring" "set ring = {..<n}" "p < n"
    and "\<And>p m. p < n \<Longrightarrow> m \<in> set (sent (ring ! p)) \<Longrightarrow> rm_destination m = ring ! ((p + 1) mod n)"
  shows "delivered n sent (ring ! p) = map (Pair (ring ! ring_prev n p)) (sent (ring ! ring_prev n p))"
proof -
  have n: "0 < n" using assms(4) by simp
  have prev: "ring_prev n p < n" "ring ! ring_prev n p < n" using ring_prev_next(3)[OF n] assms(1,3) nth_mem by auto
  have none: "filter (\<lambda>m. rm_destination m = ring ! p) (sent s) = []" if "s < n" "s \<noteq> ring ! ring_prev n p" for s
  proof -
    obtain i where i: "i < n" "s = ring ! i" using ring_find[OF assms(1,3) \<open>s < n\<close>] by blast
    have "(i + 1) mod n \<noteq> p" using ring_prev_next(2)[OF i(1)] i(2) that(2) by auto
    then have "ring ! ((i + 1) mod n) \<noteq> ring ! p" using assms(1,2,4) n by (simp add: nth_eq_iff_index_eq)
    then show ?thesis using assms(5)[OF i(1)] i(2) by (auto simp: filter_empty_conv)
  qed
  have "filter (\<lambda>m. rm_destination m = ring ! p) (sent (ring ! ring_prev n p)) = sent (ring ! ring_prev n p)"
    using assms(5)[OF prev(1)] ring_prev_next(1)[OF assms(4)] by (intro filter_True) simp
  then show ?thesis unfolding delivered_def
    using concat_single[OF prev(2), of "\<lambda>s. map (Pair s) (filter (\<lambda>m. rm_destination m = ring ! p) (sent s))"] none by simp
qed

lemma receive_index_eq: "k < n \<Longrightarrow> receive_index n off k p = (p + off + 2 * n - k - 1) mod n"
proof -
  assume k: "k < n"
  have "receive_index n off k p = ((p + (n - 1)) mod n + (off + n - k)) mod n"
    using k by (simp add: receive_index_def send_index_def ring_prev_def add.assoc)
  also have "\<dots> = (p + (n - 1) + (off + n - k)) mod n" by (rule mod_add_left_eq)
  also have "p + (n - 1) + (off + n - k) = p + off + 2 * n - k - 1" using k by simp
  finally show ?thesis .
qed

lemma all_reduce_indices:
  assumes "k < n - 1"
  shows "(p + n - k) mod n = send_index n 0 k p" "(p + n - k - 1) mod n = receive_index n 0 k p"
    "(p + 1 + n - k) mod n = send_index n 1 k p" "(p + n - k) mod n = receive_index n 1 k p"
proof -
  have k: "k < n" using assms by simp
  have "p + 2 * n - k - 1 = p + n - k - 1 + n" "p + 1 + 2 * n - k - 1 = p + n - k + n" using k by simp_all
  then show "(p + n - k - 1) mod n = receive_index n 0 k p" "(p + n - k) mod n = receive_index n 1 k p"
    unfolding receive_index_eq[OF k] by (simp_all only: add_0_right mod_add_self2)
qed (simp_all add: send_index_def)

text \<open>The balanced ranges of a channel, shifted to its start.\<close>

definition channel_ranges :: "nat \<times> nat \<Rightarrow> nat \<Rightarrow> (nat \<times> nat) list" where
  "channel_ranges crange n = map (\<lambda>c. (balanced_start (snd crange - fst crange) n c + fst crange,
     balanced_start (snd crange - fst crange) n (Suc c) + fst crange)) [0..<n]"

lemma channel_ranges_eq:
  "0 < n \<Longrightarrow> \<exists>rs. balanced_ranges (snd crange - fst crange) n = Some rs \<and>
     map (\<lambda>(a, b). (a + fst crange, b + fst crange)) rs = channel_ranges crange n"
  by (simp add: balanced_ranges_eq channel_ranges_def comp_def)

lemma steps_cover: "f 0 \<le> x \<Longrightarrow> x < f n \<Longrightarrow> \<exists>c < n. f c \<le> x \<and> x < (f (Suc c) :: nat)"
proof (induction n)
  case (Suc n)
  then show ?case by (cases "x < f n") (auto intro: less_SucI)
qed simp

lemma channel_ranges_nth:
  assumes "c < n" "fst crange \<le> snd crange"
  shows "fst crange \<le> fst (channel_ranges crange n ! c)" "fst (channel_ranges crange n ! c) \<le> snd (channel_ranges crange n ! c)"
    "snd (channel_ranges crange n ! c) \<le> snd crange"
proof -
  have "balanced_start (snd crange - fst crange) n (Suc c) \<le> snd crange - fst crange"
    using balanced_start_mono[of "Suc c" n "snd crange - fst crange" n] balanced_start_end[of n "snd crange - fst crange"] assms(1) by simp
  then show "snd (channel_ranges crange n ! c) \<le> snd crange" using assms by (simp add: channel_ranges_def)
  show "fst crange \<le> fst (channel_ranges crange n ! c)" "fst (channel_ranges crange n ! c) \<le> snd (channel_ranges crange n ! c)"
    using assms(1) by (simp_all add: channel_ranges_def balanced_start_mono)
qed

lemma channel_ranges_disjoint:
  assumes "c < c'" "c' < n"
  shows "snd (channel_ranges crange n ! c) \<le> fst (channel_ranges crange n ! c')"
  using assms balanced_start_mono[of "Suc c" c' "snd crange - fst crange" n] by (simp add: channel_ranges_def)

lemma channel_ranges_cover:
  assumes "fst crange \<le> x" "x < snd crange" "0 < n"
  shows "\<exists>c < n. fst (channel_ranges crange n ! c) \<le> x \<and> x < snd (channel_ranges crange n ! c)"
  using steps_cover[of "\<lambda>c. balanced_start (snd crange - fst crange) n c + fst crange" x n] assms
    balanced_start_end[OF assms(3), of "snd crange - fst crange"] by (auto simp: channel_ranges_def)

text \<open>A ring of all ranks over disjoint ranges of buffers of length \<open>N\<close>.\<close>

definition laid_out :: "nat \<Rightarrow> nat list \<Rightarrow> (nat \<times> nat) list \<Rightarrow> nat \<Rightarrow> bool" where
  "laid_out n ring ranges N \<longleftrightarrow> length ring = n \<and> distinct ring \<and> set ring = {..<n} \<and> length ranges = n \<and>
     (\<forall>c < n. fst (ranges ! c) \<le> snd (ranges ! c) \<and> snd (ranges ! c) \<le> N) \<and>
     (\<forall>c < n. \<forall>c' < n. c \<noteq> c' \<longrightarrow> snd (ranges ! c) \<le> fst (ranges ! c') \<or> snd (ranges ! c') \<le> fst (ranges ! c))"

lemma laid_outD:
  assumes "laid_out n ring ranges N"
  shows "q < n \<Longrightarrow> ring ! q < n"
    "q < n \<Longrightarrow> fst (ranges ! (ring ! q)) \<le> snd (ranges ! (ring ! q)) \<and> snd (ranges ! (ring ! q)) \<le> N"
    "q < n \<Longrightarrow> q' < n \<Longrightarrow> q \<noteq> q' \<Longrightarrow>
      snd (ranges ! (ring ! q)) \<le> fst (ranges ! (ring ! q')) \<or> snd (ranges ! (ring ! q')) \<le> fst (ranges ! (ring ! q))"
proof -
  show r: "ring ! q < n" if "q < n" for q using assms that nth_mem[of q ring] by (auto simp: laid_out_def)
  show "q < n \<Longrightarrow> fst (ranges ! (ring ! q)) \<le> snd (ranges ! (ring ! q)) \<and> snd (ranges ! (ring ! q)) \<le> N"
    using assms r[of q] by (simp add: laid_out_def)
  assume "q < n" "q' < n" "q \<noteq> q'"
  then show "snd (ranges ! (ring ! q)) \<le> fst (ranges ! (ring ! q')) \<or> snd (ranges ! (ring ! q')) \<le> fst (ranges ! (ring ! q))"
    using assms r[of q] r[of q'] by (auto simp: laid_out_def nth_eq_iff_index_eq)
qed

lemma channel_laid_out:
  assumes "ring_world dc channel n" "fst crange \<le> snd crange" "snd crange \<le> N"
  shows "laid_out n (ring_order_for_channel (dc_tuning dc) channel) (channel_ranges crange n) N"
proof -
  let ?r = "\<lambda>c. channel_ranges crange n ! c"
  have d: "snd (?r c) \<le> fst (?r c') \<or> snd (?r c') \<le> fst (?r c)" if "c < n" "c' < n" "c \<noteq> c'" for c c'
    using that channel_ranges_disjoint[of c c' n crange] channel_ranges_disjoint[of c' c n crange] by (cases "c < c'") auto
  have e: "fst (?r c) \<le> snd (?r c) \<and> snd (?r c) \<le> N" if "c < n" for c
    using channel_ranges_nth[OF that assms(2)] assms(3) by simp
  have l: "length (channel_ranges crange n) = n" by (simp add: channel_ranges_def)
  show ?thesis unfolding laid_out_def using ring_worldD[OF assms(1)] l d e by (intro conjI) blast+
qed

lemma sum_ring:
  assumes "length ring = n" "distinct ring" "set ring = {..<n}"
  shows "(\<Sum>p < n. f (ring ! p)) = (\<Sum>r < n. f r)"
proof (rule sum.reindex_bij_betw)
  show "bij_betw ((!) ring) {..<n} {..<n}" by (rule bij_betw_nth[OF assms(2)]) (simp_all add: assms(1,3))
qed

text \<open>Successive lookups of a rank at position \<open>p\<close>.\<close>

lemma ring_lookups:
  assumes "ring_world dc channel n" "p < n"
  defines "ring \<equiv> ring_order_for_channel (dc_tuning dc) channel"
  shows "ring_position (dc\<lparr>dc_rank := ring ! p\<rparr>) ring = Inr p"
    "index_f ring ((p + n - 1) mod n) = Inr (ring ! ring_prev n p)" "index_f ring ((p + 1) mod n) = Inr (ring ! ((p + 1) mod n))"
proof -
  note ring = ring_worldD[OF assms(1), folded ring_def]
  show "ring_position (dc\<lparr>dc_rank := ring ! p\<rparr>) ring = Inr p"
    using position_distinct[OF ring(2), of p] assms(2) ring(1) by (simp add: ring_position_def)
qed (use assms(2) ring_worldD[OF assms(1), folded ring_def] in \<open>simp_all add: index_f_def ring_prev_def\<close>)

text \<open>The ranges of a channel in a buffer of one block per rank.\<close>

definition block_ranges :: "nat \<times> nat \<Rightarrow> nat \<Rightarrow> nat \<Rightarrow> (nat \<times> nat) list" where
  "block_ranges crange len n = map (\<lambda>rank. (rank * len + fst crange, rank * len + snd crange)) [0..<n]"

lemma block_end: "c < c' \<Longrightarrow> x \<le> len \<Longrightarrow> c * len + x \<le> c' * (len :: nat)"
proof -
  assume "c < c'" "x \<le> len"
  then have "c * len + x \<le> Suc c * len" "Suc c * len \<le> c' * len" by (simp, intro mult_le_mono1) simp
  then show ?thesis by simp
qed

lemma block_laid_out:
  assumes "ring_world dc channel n" "fst crange \<le> snd crange" "snd crange \<le> len"
  shows "laid_out n (ring_order_for_channel (dc_tuning dc) channel) (block_ranges crange len n) (n * len)"
proof -
  let ?r = "\<lambda>c. block_ranges crange len n ! c"
  have d: "snd (?r c) \<le> fst (?r c') \<or> snd (?r c') \<le> fst (?r c)" if "c < n" "c' < n" "c \<noteq> c'" for c c'
    using that block_end[OF _ assms(3), of c c'] block_end[OF _ assms(3), of c' c] by (cases "c < c'") (auto simp: block_ranges_def)
  have e: "fst (?r c) \<le> snd (?r c) \<and> snd (?r c) \<le> n * len" if "c < n" for c
    using that assms(2) block_end[OF that assms(3)] by (simp add: block_ranges_def)
  have l: "length (block_ranges crange len n) = n" by (simp add: block_ranges_def)
  show ?thesis unfolding laid_out_def using ring_worldD[OF assms(1)] l d e by (intro conjI) blast+
qed

lemma reduce_scatter_indices:
  assumes "k < n - 1"
  shows "(p + n - 1 - k) mod n = send_index n (n - 1) k p" "(p + 2 * n - 2 - k) mod n = receive_index n (n - 1) k p"
proof -
  have k: "k < n" using assms by simp
  have "p + (n - 1) + n - k = p + n - 1 - k + n" "p + (n - 1) + 2 * n - k - 1 = p + 2 * n - 2 - k + n" using assms by simp_all
  then show "(p + n - 1 - k) mod n = send_index n (n - 1) k p" "(p + 2 * n - 2 - k) mod n = receive_index n (n - 1) k p"
    unfolding receive_index_eq[OF k] send_index_def by (simp_all only: mod_add_self2)
qed

text \<open>Runs of all positions, put together: what one position sends is delivered to the next.\<close>

lemma scripts_exist:
  assumes ring: "length ring = n" "distinct ring" "set ring = {..<n}"
    and dst: "\<And>p m. p < n \<Longrightarrow> m \<in> set (f p) \<Longrightarrow> rm_destination m = ring ! ((p + 1) mod n)"
    and run: "\<And>p. p < n \<Longrightarrow> \<exists>b. P (ring ! p) (map (Pair (ring ! ring_prev n p)) (f (ring_prev n p))) (f p) b"
  shows "\<exists>sent out. \<forall>r < n. P r (delivered n sent r) (sent r) (out r)"
proof -
  define sent where "sent r = f (the (position (\<lambda>x. x = r) ring))" for r
  have sent: "sent (ring ! p) = f p" if "p < n" for p using position_distinct[OF ring(2), of p] ring(1) that by (simp add: sent_def)
  have "\<exists>b. P r (delivered n sent r) (sent r) b" if "r < n" for r
  proof -
    obtain p where p: "p < n" "r = ring ! p" using ring_find[OF ring(1,3) \<open>r < n\<close>] by blast
    have "0 < n" using p(1) by simp
    note prev = ring_prev_next(3)[OF this, of p]
    have "delivered n sent r = map (Pair (ring ! ring_prev n p)) (sent (ring ! ring_prev n p))"
      unfolding p(2) using dst sent by (intro delivered_ring[OF ring p(1)]) simp
    then show ?thesis using run[OF p(1)] p(2) sent[OF p(1)] sent[OF prev] by simp
  qed
  then show ?thesis by metis
qed

lemma fold_r_extra:
  "fold_r (\<lambda>k (st, b, T, L). bind_r (g k (st, b, T)) (\<lambda>(st, b, T). Inr (st, b, T, L))) ks (st, b, T, L) =
     bind_r (fold_r g ks (st, b, T)) (\<lambda>(st, b, T). Inr (st, b, T, L))"
proof (induction ks arbitrary: st b T)
  case (Cons k ks)
  then show ?case by (cases "g k (st, b, T)") auto
qed simp

text \<open>The block of an index, and the ranges an index is in.\<close>

lemma block_index:
  assumes "x < n * len" "c < n" "snd crange \<le> len"
  shows "fst (block_ranges crange len n ! c) \<le> x \<and> x < snd (block_ranges crange len n ! c) \<longleftrightarrow>
    c = x div len \<and> fst crange \<le> x mod len \<and> x mod len < snd crange"
proof -
  have len: "0 < len" using assms(1) by (cases len) simp_all
  define d e where "d = x div len" and "e = x mod len"
  have x: "x = d * len + e" "e < len" using len by (simp_all add: d_def e_def)
  show ?thesis
  proof (cases "c = d")
    case True
    then show ?thesis using assms(2) x by (auto simp: block_ranges_def d_def[symmetric] e_def[symmetric])
  next
    case False
    then have "c * len + snd crange \<le> d * len \<or> d * len + Suc e \<le> c * len"
      using block_end[of c d "snd crange" len] block_end[of d c "Suc e" len] assms(3) x(2) by linarith
    then have "\<not> (fst (block_ranges crange len n ! c) \<le> x \<and> x < snd (block_ranges crange len n ! c))"
      using assms(2) x(1) by (auto simp: block_ranges_def)
    then show ?thesis using False unfolding d_def by blast
  qed
qed

context device_buffers
begin

text \<open>Valid buffers of a given number of elements.\<close>

definition sized :: "nat \<Rightarrow> 'b \<Rightarrow> bool" where
  "sized N b \<longleftrightarrow> valid b \<and> length (vals b) = N"

lemma sizedD: "sized N b \<Longrightarrow> valid b" "sized N b \<Longrightarrow> length (vals b) = N"
  by (simp_all add: sized_def)

lemma sized_self: "valid b \<Longrightarrow> sized (length (vals b)) b"
  by (simp add: sized_def)

lemma sized_bounds:
  assumes "valid b" "m \<le> length (vals b)"
  shows "m * rd_element_size dv < 2 ^ 63" "m < 2 ^ 63"
proof -
  show "m * rd_element_size dv < 2 ^ 63" using mult_le_mono1[OF assms(2), of "rd_element_size dv"] addressable[OF assms(1)] by linarith
  then show "m < 2 ^ 63" using mult_le_mono2[of 1 "rd_element_size dv" m] element_size by linarith
qed

lemma reduce_bytes_ok:
  assumes "valid b" "off + length xs \<le> length (vals b)"
  shows "\<exists>b' l. reduce_bytes_into dv krn b off (length xs) (enc xs) = Inr (b', l) \<and> l \<le> 1 \<and> valid b' \<and>
    vals b' = copy_at (vals b) off (map2 (+) (subslice off (off + length xs) (vals b)) xs)"
proof (cases "xs = []")
  case True
  then show ?thesis using assms(1) by (simp add: reduce_bytes_into_def checked_mul_def enc_len subslice_def)
next
  case False
  have le: "length xs * rd_element_size dv < 2 ^ 63" using sized_bounds(1)[OF assms(1), of "length xs"] assms(2) by simp
  then have m: "checked_mul 64 (length xs) (rd_element_size dv) = Some (length (enc xs))" by (simp add: checked_mul_def enc_len)
  have a: "checked_add 64 off (length xs) = Some (off + length xs)" using sized_bounds(2)[OF assms] by (simp add: checked_add_def)
  obtain s0 where s0: "rd_alloc dv (length xs) = Inr s0" "valid s0" "length (vals s0) = length xs" using alloc[OF le] by blast
  obtain s1 where s1: "rd_copy_bytes_to_device_at dv s0 0 (enc xs) = Inr s1" "valid s1" "vals s1 = xs"
    using copy_to[OF s0(2), of 0 xs] s0(3) by (auto simp: copy_at_def)
  obtain ln b' where r: "rd_prepare_reduction dv (length xs) off = Inr ln" "rd_launch_reduction dv krn ln s1 b = Inr b'" "valid b'"
    "vals b' = copy_at (vals b) off (map2 (+) (subslice off (off + length xs) (vals b)) xs)"
    using reduce[OF s1(2) assms(1), of "length xs" off] s1(3) assms(2) by auto
  show ?thesis using False assms m a s0(1) s1(1) r by (simp add: reduce_bytes_into_def buffer_len)
qed

lemma exchange_ok:
  assumes "dc_execution dc = dv" "dc_session dc = script_session" "dc_collective_rail_order dc \<noteq> []" "valid b"
    and "fst sr \<le> snd sr" "snd sr \<le> length (vals b)" "length xs * rd_element_size dv < 2 ^ 64"
  shows "exchange_ring_chunk_bytes dc b sr (length xs) dst src channel tag (sent, (src, chunk_message dc enc channel me tag xs) # inbox) =
    Inr (enc xs, sent @ [chunk_message dc enc channel dst tag (subslice (fst sr) (snd sr) (vals b))], inbox)"
proof -
  have rd: "rd_copy_bytes_from_device_at dv b (fst sr) (snd sr - fst sr) = Inr (enc (subslice (fst sr) (snd sr) (vals b)))"
    using copy_from[OF assms(4), of "fst sr" "snd sr - fst sr"] assms(5,6) by simp
  have "length (subslice (fst sr) (snd sr) (vals b)) = snd sr - fst sr" using assms(6) by (simp add: subslice_def)
  then show ?thesis using assms(1,2,7) rd
    by (simp add: rail_ok[OF assms(3)] exchange_ring_chunk_bytes_def script_session_def checked_mul_def enc_len chunk_message_def)
qed

text \<open>The part of a buffer that a range names.\<close>

definition part :: "'b \<Rightarrow> nat \<times> nat \<Rightarrow> 'e list" where
  "part b r = subslice (fst r) (snd r) (vals b)"

lemma part_length: "snd r \<le> length (vals b) \<Longrightarrow> length (part b r) = snd r - fst r"
  by (simp add: part_def subslice_def)

lemma transfer_bytes_bound:
  assumes "fst sr \<le> snd sr" "snd sr \<le> N" "length xs \<le> N"
  shows "ring_transfer_bytes (rd_element_size dv) sr (enc xs) \<le> 2 * (N * rd_element_size dv)"
proof -
  have "(snd sr - fst sr) * rd_element_size dv \<le> N * rd_element_size dv" "length xs * rd_element_size dv \<le> N * rd_element_size dv"
    using assms by (intro mult_le_mono1; simp)+
  moreover have "ring_transfer_bytes (rd_element_size dv) sr (enc xs) \<le> saturating_mul 64 (snd sr - fst sr) (rd_element_size dv) + length (enc xs)"
    by (simp add: ring_transfer_bytes_def saturating_add_def)
  moreover have "saturating_mul 64 (snd sr - fst sr) (rd_element_size dv) \<le> (snd sr - fst sr) * rd_element_size dv"
    by (simp add: saturating_mul_def)
  ultimately show ?thesis unfolding enc_len by linarith
qed

lemma reduce_step_ok:
  assumes dc: "dc_execution dc = dv" "dc_session dc = script_session" "dc_collective_rail_order dc \<noteq> []" "valid b"
    and rs: "sc < length ranges" "rc < length ranges" "fst (ranges ! sc) \<le> snd (ranges ! sc)" "snd (ranges ! sc) \<le> length (vals b)"
      "fst (ranges ! rc) \<le> snd (ranges ! rc)" "snd (ranges ! rc) \<le> length (vals b)"
    and xs: "length xs = snd (ranges ! rc) - fst (ranges ! rc)"
    and bounds: "T + 2 * (length (vals b) * rd_element_size dv) < 2 ^ 64" "L + 1 < 2 ^ 32"
  shows "\<exists>b' T' L'. ring_reduce_step name dc krn ranges sc rc nx pv channel tag ((sent, (pv, chunk_message dc enc channel me tag xs) # inbox), b, T, L) =
      Inr ((sent @ [chunk_message dc enc channel nx tag (part b (ranges ! sc))], inbox), b', T', L') \<and>
      valid b' \<and> vals b' = copy_at (vals b) (fst (ranges ! rc)) (map2 (+) (part b (ranges ! rc)) xs) \<and>
      T' \<le> T + 2 * (length (vals b) * rd_element_size dv) \<and> L' \<le> L + 1"
proof -
  have "length xs \<le> length (vals b)" using xs rs(6) by simp
  then have le: "length xs * rd_element_size dv \<le> length (vals b) * rd_element_size dv" by (rule mult_le_mono1)
  have b64: "length xs * rd_element_size dv < 2 ^ 64" using le bounds(1) by linarith
  note m = exchange_ok[OF dc rs(3,4) b64, of nx pv channel tag sent me inbox]
  let ?t = "ring_transfer_bytes (rd_element_size dv) (ranges ! sc) (enc xs)"
  have t: "?t \<le> 2 * (length (vals b) * rd_element_size dv)" using transfer_bytes_bound[OF rs(3,4)] xs rs(6) by simp
  have "fst (ranges ! rc) + length xs \<le> length (vals b)" using xs rs(5,6) by simp
  then obtain b' l where r: "reduce_bytes_into dv krn b (fst (ranges ! rc)) (length xs) (enc xs) = Inr (b', l)" "l \<le> 1" "valid b'"
    "vals b' = copy_at (vals b) (fst (ranges ! rc)) (map2 (+) (subslice (fst (ranges ! rc)) (fst (ranges ! rc) + length xs) (vals b)) xs)"
    using reduce_bytes_ok[OF dc(4)] by blast
  have "fst (ranges ! rc) + length xs = snd (ranges ! rc)" using xs rs(5) by simp
  then show ?thesis using m r rs(1,2) xs t bounds dc(1)
    by (simp add: ring_reduce_step_def index_f_def part_def checked_add_def)
qed

lemma copy_step_ok:
  assumes dc: "dc_execution dc = dv" "dc_session dc = script_session" "dc_collective_rail_order dc \<noteq> []" "valid b"
    and rs: "sc < length ranges" "rc < length ranges" "fst (ranges ! sc) \<le> snd (ranges ! sc)" "snd (ranges ! sc) \<le> length (vals b)"
      "fst (ranges ! rc) \<le> snd (ranges ! rc)" "snd (ranges ! rc) \<le> length (vals b)"
    and xs: "length xs = snd (ranges ! rc) - fst (ranges ! rc)"
    and bounds: "T + 2 * (length (vals b) * rd_element_size dv) < 2 ^ 64"
  shows "\<exists>b' T'. ring_copy_step dc ranges sc rc nx pv channel tag ((sent, (pv, chunk_message dc enc channel me tag xs) # inbox), b, T, L) =
      Inr ((sent @ [chunk_message dc enc channel nx tag (part b (ranges ! sc))], inbox), b', T', L) \<and>
      valid b' \<and> vals b' = copy_at (vals b) (fst (ranges ! rc)) xs \<and> T' \<le> T + 2 * (length (vals b) * rd_element_size dv)"
proof -
  have "length xs \<le> length (vals b)" using xs rs(6) by simp
  then have le: "length xs * rd_element_size dv \<le> length (vals b) * rd_element_size dv" by (rule mult_le_mono1)
  have b64: "length xs * rd_element_size dv < 2 ^ 64" using le bounds(1) by linarith
  note m = exchange_ok[OF dc rs(3,4) b64, of nx pv channel tag sent me inbox]
  let ?t = "ring_transfer_bytes (rd_element_size dv) (ranges ! sc) (enc xs)"
  have t: "?t \<le> 2 * (length (vals b) * rd_element_size dv)" using transfer_bytes_bound[OF rs(3,4)] xs rs(6) by simp
  have "enc xs = [] \<longleftrightarrow> xs = []" using enc_len[of xs] element_size by (cases xs) auto
  moreover obtain b' where b': "rd_copy_bytes_to_device_at dv b (fst (ranges ! rc)) (enc xs) = Inr b'" "valid b'" "vals b' = copy_at (vals b) (fst (ranges ! rc)) xs"
    using copy_to[OF dc(4), of "fst (ranges ! rc)" xs] xs rs(5,6) by auto
  ultimately have "\<exists>b'. (if enc xs = [] then Inr b else map_err (\<lambda>e. Fault (OwnError e)) (rd_copy_bytes_to_device_at dv b (fst (ranges ! rc)) (enc xs))) = Inr b' \<and>
      valid b' \<and> vals b' = copy_at (vals b) (fst (ranges ! rc)) xs" using dc(4) by auto
  then show ?thesis using m rs(1,2) xs t bounds dc(1)
    by (auto simp: ring_copy_step_def index_f_def part_def checked_add_def)
qed

text \<open>A run of one rank over all the steps of a phase. The inbox holds what the previous position sends.\<close>

lemma ring_run:
  fixes stp :: "nat \<Rightarrow> script \<times> 'b \<times> nat \<times> nat \<Rightarrow> 'z + script \<times> 'b \<times> nat \<times> nat"
  assumes "p < n" "chunk_sizes (\<lambda>q. snd (rg q) - fst (rg q)) n M"
    and layout: "\<And>q. q < n \<Longrightarrow> fst (rg q) \<le> snd (rg q) \<and> snd (rg q) \<le> N"
      "\<And>q q'. q < n \<Longrightarrow> q' < n \<Longrightarrow> q \<noteq> q' \<Longrightarrow> snd (rg q) \<le> fst (rg q') \<or> snd (rg q') \<le> fst (rg q)"
    and step: "\<And>k b sent inbox T L xs. k < n - 1 \<Longrightarrow> sized N b \<Longrightarrow>
      length xs = snd (rg (receive_index n off k p)) - fst (rg (receive_index n off k p)) \<Longrightarrow>
      T + W < 2 ^ 64 \<Longrightarrow> L + 1 < 2 ^ 32 \<Longrightarrow>
      \<exists>b' T' L'. stp k ((sent, (pv, msg me k xs) # inbox), b, T, L) = Inr ((sent @ [msg nx k (part b (rg (send_index n off k p)))], inbox), b', T', L') \<and>
        valid b' \<and> vals b' = copy_at (vals b) (fst (rg (receive_index n off k p)))
          (combine_slices chunk_backend phase xs (part b (rg (receive_index n off k p)))) \<and> T' \<le> T + W \<and> L' \<le> L + 1"
    and init: "sized N b" "\<And>q. q < n \<Longrightarrow> part b (rg q) = M ! p ! q"
    and bounds: "T + (n - 1) * W < 2 ^ 64" "L + (n - 1) < 2 ^ 32"
    and "K \<le> n - 1"
  defines "S \<equiv> \<lambda>k. sim_steps chunk_backend phase n off k M"
  defines "inbox \<equiv> \<lambda>i j. map (\<lambda>k. (pv, msg me k (S k ! ring_prev n p ! receive_index n off k p))) [i..<j]"
  defines "outbox \<equiv> \<lambda>j. map (\<lambda>k. msg nx k (S k ! p ! send_index n off k p)) [0..<j]"
  shows "\<exists>b' T' L'. fold_r stp [0..<K] ((sent, inbox 0 (n - 1) @ rest), b, T, L) = Inr ((sent @ outbox K, inbox K (n - 1) @ rest), b', T', L') \<and>
    sized N b' \<and> (\<forall>q < n. part b' (rg q) = S K ! p ! q) \<and>
    (\<forall>x < N. (\<forall>q < n. x < fst (rg q) \<or> snd (rg q) \<le> x) \<longrightarrow> vals b' ! x = vals b ! x) \<and> T' \<le> T + K * W \<and> L' \<le> L + K"
  using \<open>K \<le> n - 1\<close>
proof (induction K)
  case 0
  then show ?case using init by (auto simp: S_def outbox_def)
next
  case (Suc K)
  then have K: "K < n - 1" by simp
  have n: "0 < n" using assms(1) by simp
  obtain b1 T1 L1 where IH: "fold_r stp [0..<K] ((sent, inbox 0 (n - 1) @ rest), b, T, L) = Inr ((sent @ outbox K, inbox K (n - 1) @ rest), b1, T1, L1)"
    "sized N b1" "\<forall>q < n. part b1 (rg q) = S K ! p ! q"
    "\<forall>x < N. (\<forall>q < n. x < fst (rg q) \<or> snd (rg q) \<le> x) \<longrightarrow> vals b1 ! x = vals b ! x" "T1 \<le> T + K * W" "L1 \<le> L + K"
    using Suc by auto
  note len1 = sizedD(2)[OF IH(2)]
  let ?r = "receive_index n off K p" and ?s = "send_index n off K p"
  have idx: "?r < n" "?s < n" "ring_prev n p < n" using n by (simp_all add: receive_index_def send_index_def ring_prev_def)
  have sizes: "chunk_sizes (\<lambda>q. snd (rg q) - fst (rg q)) n (S K)" unfolding S_def by (rule sim_steps_sizes[OF assms(2) n])
  let ?xs = "S K ! ring_prev n p ! ?r"
  have xs: "length ?xs = snd (rg ?r) - fst (rg ?r)" using sizes idx by (simp add: chunk_sizes_def)
  have "K * W + W \<le> (n - 1) * W" using mult_le_mono1[of "Suc K" "n - 1" W] K by simp
  then have b: "T1 + W < 2 ^ 64" "L1 + 1 < 2 ^ 32" using IH(5,6) bounds K by linarith+
  have box: "inbox K (n - 1) = (pv, msg me K ?xs) # inbox (Suc K) (n - 1)" using K by (simp add: inbox_def upt_conv_Cons)
  obtain b2 T2 L2 where st: "stp K ((sent @ outbox K, (pv, msg me K ?xs) # inbox (Suc K) (n - 1) @ rest), b1, T1, L1) =
      Inr (((sent @ outbox K) @ [msg nx K (part b1 (rg ?s))], inbox (Suc K) (n - 1) @ rest), b2, T2, L2)"
    "valid b2" "vals b2 = copy_at (vals b1) (fst (rg ?r)) (combine_slices chunk_backend phase ?xs (part b1 (rg ?r)))" "T2 \<le> T1 + W" "L2 \<le> L1 + 1"
    using step[OF K IH(2) xs b, of "sent @ outbox K" "inbox (Suc K) (n - 1) @ rest"] by blast
  define c where "c = combine_slices chunk_backend phase ?xs (part b1 (rg ?r))"
  have "length (part b1 (rg ?r)) = snd (rg ?r) - fst (rg ?r)" using part_length[of "rg ?r" b1] layout(1)[OF idx(1)] len1 by simp
  then have c: "fst (rg ?r) + length c = snd (rg ?r)" using xs layout(1)[OF idx(1)] by (simp add: c_def combine_chunks)
  then have fits: "fst (rg ?r) + length c \<le> length (vals b1)" using layout(1)[OF idx(1)] len1 by simp
  have v: "vals b2 = copy_at (vals b1) (fst (rg ?r)) c" using st(3) by (simp add: c_def)
  have N: "sized N b2" using v length_copy_at[OF fits] len1 st(2) by (simp add: sized_def)
  have row: "S (Suc K) ! p ! q = (if q = ?r then c else S K ! p ! q)" if "q < n" for q
    using sizes assms(1) that idx(1) IH(3) by (auto simp: S_def sim_step_def chunk_sizes_def square_def c_def nth_list_update)
  have parts: "part b2 (rg q) = S (Suc K) ! p ! q" if "q < n" for q
  proof (cases "q = ?r")
    case True
    then show ?thesis using copy_at_same[OF fits] row[OF that] by (simp add: part_def v c)
  next
    case False
    then show ?thesis using copy_at_other[OF fits, of "snd (rg q)" "fst (rg q)"] layout(2)[OF that idx(1) False] row[OF that] IH(3) that
      by (auto simp: part_def v c)
  qed
  have outside: "vals b2 ! x = vals b ! x" if "x < N" "\<forall>q < n. x < fst (rg q) \<or> snd (rg q) \<le> x" for x
    using copy_at_nth_other[OF fits, of x] that len1 IH(4) idx(1) c by (auto simp: v)
  have "fold_r stp [0..<Suc K] ((sent, inbox 0 (n - 1) @ rest), b, T, L) = Inr ((sent @ outbox (Suc K), inbox (Suc K) (n - 1) @ rest), b2, T2, L2)"
    using IH(1,3) st(1) box idx(2) by (simp add: outbox_def)
  moreover have "T2 \<le> T + Suc K * W" "L2 \<le> L + Suc K" using st(4,5) IH(5,6) by simp_all
  ultimately show ?case using N parts outside by (intro exI conjI) (assumption | blast)+
qed

text \<open>What a phase leaves in the buffer of position \<open>p\<close>.\<close>

definition phase_result ::
  "nat \<Rightarrow> nat list \<Rightarrow> (nat \<times> nat) list \<Rightarrow> nat \<Rightarrow> bool \<Rightarrow> nat \<Rightarrow> 'e list list list \<Rightarrow> nat \<Rightarrow> 'b \<Rightarrow> 'b \<Rightarrow> bool" where
  "phase_result n ring ranges N phase off M p b b' \<longleftrightarrow> sized N b' \<and>
     (\<forall>q < n. part b' (ranges ! (ring ! q)) = sim_steps chunk_backend phase n off (n - 1) M ! p ! q) \<and>
     (\<forall>x < N. (\<forall>q < n. x < fst (ranges ! (ring ! q)) \<or> snd (ranges ! (ring ! q)) \<le> x) \<longrightarrow> vals b' ! x = vals b ! x)"

definition chunks :: "nat \<Rightarrow> nat list \<Rightarrow> (nat \<times> nat) list \<Rightarrow> 'e list list list \<Rightarrow> nat \<Rightarrow> 'b \<Rightarrow> bool" where
  "chunks n ring ranges M p b \<longleftrightarrow> chunk_sizes (\<lambda>q. snd (ranges ! (ring ! q)) - fst (ranges ! (ring ! q))) n M \<and>
     (\<forall>q < n. part b (ranges ! (ring ! q)) = M ! p ! q)"

lemma phase_run:
  fixes stp :: "nat \<Rightarrow> script \<times> 'b \<times> nat \<times> nat \<Rightarrow> 'z + script \<times> 'b \<times> nat \<times> nat"
  assumes lay: "laid_out n ring ranges N" "p < n" "chunks n ring ranges M p b"
    and step: "\<And>k b sent inbox T L xs. k < n - 1 \<Longrightarrow> sized N b \<Longrightarrow>
      length xs = snd (ranges ! (ring ! receive_index n off k p)) - fst (ranges ! (ring ! receive_index n off k p)) \<Longrightarrow>
      T + W < 2 ^ 64 \<Longrightarrow> L + 1 < 2 ^ 32 \<Longrightarrow>
      \<exists>b' T' L'. stp k ((sent, (pv, chunk_message dc enc channel me (tag k) xs) # inbox), b, T, L) =
        Inr ((sent @ [chunk_message dc enc channel nx (tag k) (part b (ranges ! (ring ! send_index n off k p)))], inbox), b', T', L') \<and>
        valid b' \<and> vals b' = copy_at (vals b) (fst (ranges ! (ring ! receive_index n off k p)))
          (combine_slices chunk_backend phase xs (part b (ranges ! (ring ! receive_index n off k p)))) \<and> T' \<le> T + W \<and> L' \<le> L + 1"
    and b: "sized N b" "T + (n - 1) * W < 2 ^ 64" "L + (n - 1) < 2 ^ 32"
  shows "\<exists>b' T' L'. fold_r stp [0..<n - 1]
      ((sent, map (Pair pv) (phase_out dc enc channel n off phase tag M me (ring_prev n p)) @ rest), b, T, L) =
      Inr ((sent @ phase_out dc enc channel n off phase tag M nx p, rest), b', T', L') \<and>
    phase_result n ring ranges N phase off M p b b' \<and> T' \<le> T + (n - 1) * W \<and> L' \<le> L + (n - 1)"
proof -
  have M: "chunk_sizes (\<lambda>q. snd (ranges ! (ring ! q)) - fst (ranges ! (ring ! q))) n M" "\<And>q. q < n \<Longrightarrow> part b (ranges ! (ring ! q)) = M ! p ! q"
    using lay(3) by (auto simp: chunks_def)
  have box: "map (Pair pv) (phase_out dc enc channel n off phase tag M me (ring_prev n p)) =
      map (\<lambda>k. (pv, chunk_message dc enc channel me (tag k) (sim_steps chunk_backend phase n off k M ! ring_prev n p ! receive_index n off k p))) [0..<n - 1]"
    by (simp add: phase_out_def receive_index_def comp_def)
  have "\<exists>b' T' L'. fold_r stp [0..<n - 1]
      ((sent, map (\<lambda>k. (pv, chunk_message dc enc channel me (tag k) (sim_steps chunk_backend phase n off k M ! ring_prev n p ! receive_index n off k p))) [0..<n - 1] @ rest), b, T, L) =
      Inr ((sent @ map (\<lambda>k. chunk_message dc enc channel nx (tag k) (sim_steps chunk_backend phase n off k M ! p ! send_index n off k p)) [0..<n - 1],
        map (\<lambda>k. (pv, chunk_message dc enc channel me (tag k) (sim_steps chunk_backend phase n off k M ! ring_prev n p ! receive_index n off k p))) [n - 1..<n - 1] @ rest), b', T', L') \<and>
    sized N b' \<and> (\<forall>q < n. part b' (ranges ! (ring ! q)) = sim_steps chunk_backend phase n off (n - 1) M ! p ! q) \<and>
    (\<forall>x < N. (\<forall>q < n. x < fst (ranges ! (ring ! q)) \<or> snd (ranges ! (ring ! q)) \<le> x) \<longrightarrow> vals b' ! x = vals b ! x) \<and>
    T' \<le> T + (n - 1) * W \<and> L' \<le> L + (n - 1)"
    by (rule ring_run[where msg = "\<lambda>dst k. chunk_message dc enc channel dst (tag k)" and rg = "\<lambda>q. ranges ! (ring ! q)" and W = W,
      OF lay(2) M(1) laid_outD(2,3)[OF lay(1)] step b(1) M(2) b(2,3) order.refl])
  then show ?thesis unfolding phase_result_def box
    by (simp only: phase_out_def upt_conv_Nil[OF order.refl] list.map append_Nil conj_assoc)
qed

lemma reduce_phase_run:
  assumes dc: "dc_execution dc = dv" "dc_session dc = script_session" "dc_collective_rail_order dc \<noteq> []"
    and lay: "laid_out n ring ranges N" "p < n" "chunks n ring ranges M p b"
    and idx: "\<And>k. k < n - 1 \<Longrightarrow> si k = send_index n off k p" "\<And>k. k < n - 1 \<Longrightarrow> ri k = receive_index n off k p"
    and b: "sized N b" "T + (n - 1) * (2 * (N * rd_element_size dv)) < 2 ^ 64" "L + (n - 1) < 2 ^ 32"
  shows "\<exists>b' T' L'. fold_r (\<lambda>k s. bind_r (index_f ring (si k)) (\<lambda>sc. bind_r (index_f ring (ri k)) (\<lambda>rc.
      ring_reduce_step name dc krn ranges sc rc nx pv channel (tag k) s))) [0..<n - 1]
      ((sent, map (Pair pv) (phase_out dc enc channel n off True tag M me (ring_prev n p)) @ rest), b, T, L) =
      Inr ((sent @ phase_out dc enc channel n off True tag M nx p, rest), b', T', L') \<and>
    phase_result n ring ranges N True off M p b b' \<and>
    T' \<le> T + (n - 1) * (2 * (N * rd_element_size dv)) \<and> L' \<le> L + (n - 1)"
proof (rule phase_run[OF lay _ b], goal_cases)
  case (1 k b sent inbox T L xs)
  have i: "send_index n off k p < n" "receive_index n off k p < n" using 1(1) by (simp_all add: receive_index_def send_index_def)
  have len: "length ring = n" "length ranges = n" using lay(1) by (auto simp: laid_out_def)
  note rng = laid_outD(1,2)[OF lay(1)]
  show ?case
    using reduce_step_ok[OF dc sizedD(1)[OF 1(2)], of "ring ! send_index n off k p" ranges "ring ! receive_index n off k p" xs T L name nx pv channel "tag k" sent me inbox]
      rng[OF i(1)] rng[OF i(2)] 1 sizedD(2)[OF 1(2)] i idx[OF 1(1)] by (simp add: index_f_def len combine_chunks)
qed

lemma copy_phase_run:
  assumes dc: "dc_execution dc = dv" "dc_session dc = script_session" "dc_collective_rail_order dc \<noteq> []"
    and lay: "laid_out n ring ranges N" "p < n" "chunks n ring ranges M p b"
    and idx: "\<And>k. k < n - 1 \<Longrightarrow> si k = send_index n off k p" "\<And>k. k < n - 1 \<Longrightarrow> ri k = receive_index n off k p"
    and b: "sized N b" "T + (n - 1) * (2 * (N * rd_element_size dv)) < 2 ^ 64" "L + (n - 1) < 2 ^ 32"
  shows "\<exists>b' T' L'. fold_r (\<lambda>k s. bind_r (index_f ring (si k)) (\<lambda>sc. bind_r (index_f ring (ri k)) (\<lambda>rc.
      ring_copy_step dc ranges sc rc nx pv channel (tag k) s))) [0..<n - 1]
      ((sent, map (Pair pv) (phase_out dc enc channel n off False tag M me (ring_prev n p)) @ rest), b, T, L) =
      Inr ((sent @ phase_out dc enc channel n off False tag M nx p, rest), b', T', L') \<and>
    phase_result n ring ranges N False off M p b b' \<and>
    T' \<le> T + (n - 1) * (2 * (N * rd_element_size dv)) \<and> L' \<le> L + (n - 1)"
proof (rule phase_run[OF lay _ b], goal_cases)
  case (1 k b sent inbox T L xs)
  have i: "send_index n off k p < n" "receive_index n off k p < n" using 1(1) by (simp_all add: receive_index_def send_index_def)
  have len: "length ring = n" "length ranges = n" using lay(1) by (auto simp: laid_out_def)
  note rng = laid_outD(1,2)[OF lay(1)]
  show ?case
    using copy_step_ok[OF dc sizedD(1)[OF 1(2)], of "ring ! send_index n off k p" ranges "ring ! receive_index n off k p" xs T nx pv channel "tag k" sent me inbox L]
      rng[OF i(1)] rng[OF i(2)] 1 sizedD(2)[OF 1(2)] i idx[OF 1(1)] by (auto simp: index_f_def len combine_chunks)
qed

text \<open>The chunks of all positions before a collective.\<close>

definition matrix :: "nat \<Rightarrow> nat list \<Rightarrow> (nat \<times> nat) list \<Rightarrow> (nat \<Rightarrow> 'b) \<Rightarrow> 'e list list list" where
  "matrix n ring ranges buf = map (\<lambda>p. map (\<lambda>q. part (buf (ring ! p)) (ranges ! (ring ! q))) [0..<n]) [0..<n]"

lemma matrix_nth: "p < n \<Longrightarrow> q < n \<Longrightarrow> matrix n ring ranges buf ! p ! q = part (buf (ring ! p)) (ranges ! (ring ! q))"
  by (simp add: matrix_def)

lemma matrix_chunks:
  assumes "laid_out n ring ranges N" "\<forall>r < n. sized N (buf r)" "p < n"
  shows "chunks n ring ranges (matrix n ring ranges buf) p (buf (ring ! p))"
proof -
  have "length (matrix n ring ranges buf ! p' ! q) = snd (ranges ! (ring ! q)) - fst (ranges ! (ring ! q))" if "p' < n" "q < n" for p' q
    using part_length[of "ranges ! (ring ! q)" "buf (ring ! p')"] laid_outD(1,2)[OF assms(1)] assms(2) that by (simp add: matrix_nth sized_def)
  then show ?thesis using assms(3) by (auto simp: chunks_def chunk_sizes_def square_def matrix_def)
qed

text \<open>Summing phases followed by spreading ones leave the sums in every range.\<close>

lemma part_nth: "snd r \<le> length (vals b) \<Longrightarrow> fst r \<le> x \<Longrightarrow> x < snd r \<Longrightarrow> part b r ! (x - fst r) = vals b ! x"
  by (simp add: part_def subslice_nth)

lemma all_reduce_values:
  assumes lay: "laid_out n ring ranges N" "\<forall>r < n. sized N (buf r)" "p < n"
    and res: "phase_result n ring ranges N False 1 (sim_steps chunk_backend True n 0 (n - 1) (matrix n ring ranges buf)) p b b'"
    and x: "c < n" "fst (ranges ! c) \<le> x" "x < snd (ranges ! c)"
  shows "vals b' ! x = (\<Sum>r < n. vals (buf r) ! x)"
proof -
  let ?M = "matrix n ring ranges buf" and ?i = "x - fst (ranges ! c)"
  have ring: "length ring = n" "distinct ring" "set ring = {..<n}" using lay(1) by (auto simp: laid_out_def)
  obtain q where q: "q < n" "c = ring ! q" using ring_find[OF ring(1,3) x(1)] by blast
  have sz: "chunk_sizes (\<lambda>q. snd (ranges ! (ring ! q)) - fst (ranges ! (ring ! q))) n ?M" using matrix_chunks[OF lay] by (simp add: chunks_def)
  have i: "?i < snd (ranges ! (ring ! q)) - fst (ranges ! (ring ! q))" using x q(2) by simp
  have N: "snd (ranges ! c) \<le> N" using laid_outD(2)[OF lay(1) q(1)] q(2) by simp
  have "vals b' ! x = part b' (ranges ! c) ! ?i" using part_nth[of "ranges ! c" b' x] x N res by (simp add: phase_result_def sized_def)
  also have "\<dots> = sim_steps chunk_backend False n 1 (n - 1) (sim_steps chunk_backend True n 0 (n - 1) ?M) ! p ! q ! ?i"
    using res q by (simp add: phase_result_def)
  also have "\<dots> = sim_steps chunk_backend True n 0 (n - 1) ?M ! ((q + (n - 1)) mod n) ! q ! ?i"
    using spread_steps[OF sim_steps_sizes[OF sz] _ q(1) i lay(3), of 1] lay(3) by simp
  also have "(q + (n - 1)) mod n = (q + (n - 0) + (n - 1)) mod n"
    using mod_add_self2[of "q + (n - 1)" n] by (simp add: algebra_simps)
  also have "sim_steps chunk_backend True n 0 (n - 1) ?M ! \<dots> ! q ! ?i = (\<Sum>p < n. ?M ! p ! q ! ?i)"
    using sum_steps[OF sz _ q(1) i, of 0] by simp
  also have "\<dots> = (\<Sum>p < n. vals (buf (ring ! p)) ! x)"
    using part_nth[of "ranges ! c" _ x] x N lay(2) laid_outD(1)[OF lay(1)] q by (intro sum.cong) (simp_all add: matrix_nth sized_def)
  also have "\<dots> = (\<Sum>r < n. vals (buf r) ! x)" by (rule sum_ring[OF ring])
  finally show ?thesis .
qed

lemma phase_chunks:
  "phase_result n ring ranges N phase off M p b b' \<Longrightarrow> chunks n ring ranges M p b \<Longrightarrow> 0 < n \<Longrightarrow>
    chunks n ring ranges (sim_steps chunk_backend phase n off (n - 1) M) p b'"
  unfolding chunks_def phase_result_def by (blast intro: sim_steps_sizes)

lemma phase_outside:
  assumes "phase_result n ring (channel_ranges crange n) N phase off M p b b'" "laid_out n ring (channel_ranges crange n) N"
    "fst crange \<le> snd crange" "x < N" "\<not> (fst crange \<le> x \<and> x < snd crange)"
  shows "vals b' ! x = vals b ! x"
proof -
  have "x < fst (channel_ranges crange n ! (ring ! q)) \<or> snd (channel_ranges crange n ! (ring ! q)) \<le> x" if "q < n" for q
    using channel_ranges_nth[OF laid_outD(1)[OF assms(2) that] assms(3)] assms(5) by linarith
  then show ?thesis using assms(1,4) by (simp add: phase_result_def)
qed

lemma channel_values:
  assumes lay: "laid_out n ring (channel_ranges crange n) N" "\<forall>r < n. sized N (buf r)" "p < n" "fst crange \<le> snd crange"
    and one: "phase_result n ring (channel_ranges crange n) N True 0 (matrix n ring (channel_ranges crange n) buf) p (buf (ring ! p)) b1"
    and two: "phase_result n ring (channel_ranges crange n) N False 1
      (sim_steps chunk_backend True n 0 (n - 1) (matrix n ring (channel_ranges crange n) buf)) p b1 b"
  shows "vals b = map (\<lambda>x. if fst crange \<le> x \<and> x < snd crange then \<Sum>r < n. vals (buf r) ! x else vals (buf (ring ! p)) ! x) [0..<N]"
proof (rule nth_equalityI)
  show len: "length (vals b) = length (map (\<lambda>x. if fst crange \<le> x \<and> x < snd crange then \<Sum>r < n. vals (buf r) ! x else vals (buf (ring ! p)) ! x) [0..<N])"
    using two by (simp add: phase_result_def sized_def)
  fix x assume "x < length (vals b)"
  then have x: "x < N" using len by simp
  have "vals b ! x = (\<Sum>r < n. vals (buf r) ! x)" if "fst crange \<le> x \<and> x < snd crange"
    using channel_ranges_cover[of crange x n] that lay(3) all_reduce_values[OF lay(1-3) two] by auto
  moreover have "vals b ! x = vals (buf (ring ! p)) ! x" if "\<not> (fst crange \<le> x \<and> x < snd crange)"
    using phase_outside[OF two lay(1,4) x that] phase_outside[OF one lay(1,4) x that] by simp
  ultimately show "vals b ! x = map (\<lambda>x. if fst crange \<le> x \<and> x < snd crange then \<Sum>r < n. vals (buf r) ! x else vals (buf (ring ! p)) ! x) [0..<N] ! x"
    using x by simp
qed

text \<open>The whole script of a ring all-reduce, by position.\<close>

definition all_reduce_out ::
  "('b, 'k, 'l, 'x, 's) device_collective \<Rightarrow> nat \<Rightarrow> nat \<Rightarrow> u64 \<Rightarrow> nat list \<Rightarrow> 'e list list list \<Rightarrow> nat \<Rightarrow> nat \<Rightarrow> ring_message list" where
  "all_reduce_out dc channel n operation ring M dst p =
     phase_out dc enc channel n 0 True (ring_data_tag operation 0 channel) M dst p @
     phase_out dc enc channel n 1 False (ring_data_tag operation 1 channel) (sim_steps chunk_backend True n 0 (n - 1) M) dst p"

lemma all_reduce_run:
  assumes dc: "dc_execution dc = dv" "ring_world dc channel n" and rg: "fst crange \<le> snd crange" "snd crange \<le> N"
    and buf: "\<forall>r < n. sized N (buf r)" and p: "p < n"
    and bounds: "2 * ((n - 1) * (2 * (N * rd_element_size dv))) < 2 ^ 64" "2 * (n - 1) < 2 ^ 32"
  defines "ring \<equiv> ring_order_for_channel (dc_tuning dc) channel"
  defines "M \<equiv> matrix n ring (channel_ranges crange n) buf"
  shows "\<exists>b T L. all_reduce_ring_channel (dc\<lparr>dc_rank := ring ! p\<rparr>) krn (buf (ring ! p)) crange operation channel
      ([], map (Pair (ring ! ring_prev n p)) (all_reduce_out dc channel n operation ring M (ring ! p) (ring_prev n p))) =
      Inr ((all_reduce_out dc channel n operation ring M (ring ! ((p + 1) mod n)) p, []), b, T, L) \<and>
    vals b = map (\<lambda>x. if fst crange \<le> x \<and> x < snd crange then \<Sum>r < n. vals (buf r) ! x else vals (buf (ring ! p)) ! x) [0..<N] \<and>
    T \<le> 4 * (n - 1) * (N * rd_element_size dv) \<and> L \<le> 2 * (n - 1)"
proof -
  let ?dc = "dc\<lparr>dc_rank := ring ! p\<rparr>" and ?rs = "channel_ranges crange n" and ?W = "2 * (N * rd_element_size dv)"
  let ?M1 = "sim_steps chunk_backend True n 0 (n - 1) M"
  have w: "dc_execution ?dc = dv" "dc_session ?dc = script_session" "dc_collective_rail_order ?dc \<noteq> []" "dc_world_size ?dc = n" "dc_tuning ?dc = dc_tuning dc"
    using dc by (auto simp: ring_world_def)
  have n: "0 < n" using p by simp
  have lay: "laid_out n ring ?rs N" unfolding ring_def by (rule channel_laid_out[OF dc(2) rg])
  have ch: "chunks n ring ?rs M p (buf (ring ! p))" unfolding M_def by (rule matrix_chunks[OF lay buf p])
  have r: "ring ! p < n" by (rule laid_outD(1)[OF lay p])
  obtain b1 T1 L1 where one: "fold_r (\<lambda>k s. bind_r (index_f ring ((p + n - k) mod n)) (\<lambda>sc. bind_r (index_f ring ((p + n - k - 1) mod n)) (\<lambda>rc.
      ring_reduce_step ''ring all-reduce'' ?dc krn ?rs sc rc (ring ! ((p + 1) mod n)) (ring ! ring_prev n p) channel (ring_data_tag operation 0 channel k) s))) [0..<n - 1]
      (([], map (Pair (ring ! ring_prev n p)) (all_reduce_out dc channel n operation ring M (ring ! p) (ring_prev n p))), buf (ring ! p), 0, 0) =
      Inr ((phase_out dc enc channel n 0 True (ring_data_tag operation 0 channel) M (ring ! ((p + 1) mod n)) p,
        map (Pair (ring ! ring_prev n p)) (phase_out dc enc channel n 1 False (ring_data_tag operation 1 channel) ?M1 (ring ! p) (ring_prev n p))), b1, T1, L1)"
    "phase_result n ring ?rs N True 0 M p (buf (ring ! p)) b1" "T1 \<le> (n - 1) * ?W" "L1 \<le> n - 1"
    using reduce_phase_run[OF w(1-3) lay p ch all_reduce_indices(1,2) buf[rule_format, OF r], of 0 0 "''ring all-reduce''" "ring ! ((p + 1) mod n)" "ring ! ring_prev n p" channel
      "ring_data_tag operation 0 channel" "[]" "ring ! p" "map (Pair (ring ! ring_prev n p)) (phase_out dc enc channel n 1 False (ring_data_tag operation 1 channel) ?M1 (ring ! p) (ring_prev n p))"] bounds
    by (auto simp: all_reduce_out_def)
  have N1: "sized N b1" using one(2) by (simp add: phase_result_def)
  have ch1: "chunks n ring ?rs ?M1 p b1" by (rule phase_chunks[OF one(2) ch n])
  have "T1 + (n - 1) * ?W < 2 ^ 64" "L1 + (n - 1) < 2 ^ 32" using one(3,4) bounds by linarith+
  from copy_phase_run[OF w(1-3) lay p ch1 all_reduce_indices(3,4) N1 this, of "ring ! ((p + 1) mod n)" "ring ! ring_prev n p" channel "ring_data_tag operation 1 channel"
      "phase_out dc enc channel n 0 True (ring_data_tag operation 0 channel) M (ring ! ((p + 1) mod n)) p" "ring ! p" "[]"]
  obtain b T L where two: "fold_r (\<lambda>k s. bind_r (index_f ring ((p + 1 + n - k) mod n)) (\<lambda>sc. bind_r (index_f ring ((p + n - k) mod n)) (\<lambda>rc.
      ring_copy_step ?dc ?rs sc rc (ring ! ((p + 1) mod n)) (ring ! ring_prev n p) channel (ring_data_tag operation 1 channel k) s))) [0..<n - 1]
      ((phase_out dc enc channel n 0 True (ring_data_tag operation 0 channel) M (ring ! ((p + 1) mod n)) p,
        map (Pair (ring ! ring_prev n p)) (phase_out dc enc channel n 1 False (ring_data_tag operation 1 channel) ?M1 (ring ! p) (ring_prev n p))), b1, T1, L1) =
      Inr ((all_reduce_out dc channel n operation ring M (ring ! ((p + 1) mod n)) p, []), b, T, L)"
    "phase_result n ring ?rs N False 1 ?M1 p b1 b" "T \<le> T1 + (n - 1) * ?W" "L \<le> L1 + (n - 1)"
    by (auto simp: all_reduce_out_def)
  obtain rs where rs: "balanced_ranges (snd crange - fst crange) n = Some rs" "map (\<lambda>(a, b). (a + fst crange, b + fst crange)) rs = ?rs"
    using channel_ranges_eq[OF n] by blast
  note look = ring_lookups[OF dc(2) p, folded ring_def]
  have "all_reduce_ring_channel ?dc krn (buf (ring ! p)) crange operation channel
      ([], map (Pair (ring ! ring_prev n p)) (all_reduce_out dc channel n operation ring M (ring ! p) (ring_prev n p))) =
      Inr ((all_reduce_out dc channel n operation ring M (ring ! ((p + 1) mod n)) p, []), b, T, L)"
    unfolding all_reduce_ring_channel_def Let_def w(4,5) ring_def[symmetric] look bind_r_simps rs ok_or_simps one(1) two(1) ..
  moreover have "T \<le> 4 * (n - 1) * (N * rd_element_size dv)" "L \<le> 2 * (n - 1)" using one(3,4) two(3,4) by simp_all
  ultimately show ?thesis using channel_values[OF lay buf p rg(1) one(2)[unfolded M_def] two(2)[unfolded M_def]] by blast
qed

lemma all_reduce_scripts:
  assumes dc: "dc_execution dc = dv" "ring_world dc channel n" and rg: "fst crange \<le> snd crange" "snd crange \<le> N"
    and buf: "\<forall>r < n. sized N (buf r)"
    and bounds: "2 * ((n - 1) * (2 * (N * rd_element_size dv))) < 2 ^ 64" "2 * (n - 1) < 2 ^ 32"
  shows "\<exists>sent out. \<forall>r < n. (\<exists>T L. all_reduce_ring_channel (dc\<lparr>dc_rank := r\<rparr>) krn (buf r) crange operation channel ([], delivered n sent r) =
      Inr ((sent r, []), out r, T, L) \<and> T \<le> 4 * (n - 1) * (N * rd_element_size dv) \<and> L \<le> 2 * (n - 1)) \<and>
    vals (out r) = map (\<lambda>x. if fst crange \<le> x \<and> x < snd crange then \<Sum>s < n. vals (buf s) ! x else vals (buf r) ! x) [0..<N]"
proof -
  define ring where "ring = ring_order_for_channel (dc_tuning dc) channel"
  define M where "M = matrix n ring (channel_ranges crange n) buf"
  define f where "f p = all_reduce_out dc channel n operation ring M (ring ! ((p + 1) mod n)) p" for p
  show ?thesis
  proof (rule scripts_exist[OF ring_worldD(1-3)[OF dc(2), folded ring_def], where f = f])
    fix p m assume "m \<in> set (f p)"
    then show "rm_destination m = ring ! ((p + 1) mod n)" by (auto simp: f_def all_reduce_out_def dest: phase_out_destination)
  next
    fix p assume p: "p < n"
    have f: "f (ring_prev n p) = all_reduce_out dc channel n operation ring M (ring ! p) (ring_prev n p)" by (simp only: f_def ring_prev_next(1)[OF p])
    from all_reduce_run[OF dc rg buf p bounds, where operation = operation, folded ring_def, folded M_def, folded f]
    show "\<exists>b. (\<exists>T L. all_reduce_ring_channel (dc\<lparr>dc_rank := ring ! p\<rparr>) krn (buf (ring ! p)) crange operation channel
        ([], map (Pair (ring ! ring_prev n p)) (f (ring_prev n p))) = Inr ((f p, []), b, T, L) \<and> T \<le> 4 * (n - 1) * (N * rd_element_size dv) \<and> L \<le> 2 * (n - 1)) \<and>
      vals b = map (\<lambda>x. if fst crange \<le> x \<and> x < snd crange then \<Sum>s < n. vals (buf s) ! x else vals (buf (ring ! p)) ! x) [0..<N]"
      unfolding f_def by blast
  qed
qed

lemma reduce_scatter_values:
  assumes lay: "laid_out n ring ranges N" "\<forall>r < n. sized N (buf r)" "p < n"
    and res: "phase_result n ring ranges N True (n - 1) (matrix n ring ranges buf) p b b'"
    and x: "fst (ranges ! (ring ! p)) \<le> x" "x < snd (ranges ! (ring ! p))"
  shows "vals b' ! x = (\<Sum>r < n. vals (buf r) ! x)"
proof -
  let ?M = "matrix n ring ranges buf" and ?i = "x - fst (ranges ! (ring ! p))"
  have ring: "length ring = n" "distinct ring" "set ring = {..<n}" using lay(1) by (auto simp: laid_out_def)
  have sz: "chunk_sizes (\<lambda>q. snd (ranges ! (ring ! q)) - fst (ranges ! (ring ! q))) n ?M" using matrix_chunks[OF lay] by (simp add: chunks_def)
  have i: "?i < snd (ranges ! (ring ! p)) - fst (ranges ! (ring ! p))" using x by simp
  have N: "snd (ranges ! (ring ! p)) \<le> N" using laid_outD(2)[OF lay(1,3)] by simp
  have owner: "(p + (n - (n - 1)) + (n - 1)) mod n = p" using lay(3) by simp
  have "vals b' ! x = part b' (ranges ! (ring ! p)) ! ?i" using part_nth[of "ranges ! (ring ! p)" b' x] x N res by (simp add: phase_result_def sized_def)
  also have "\<dots> = sim_steps chunk_backend True n (n - 1) (n - 1) ?M ! p ! p ! ?i" using res lay(3) by (simp add: phase_result_def)
  also have "\<dots> = (\<Sum>q < n. ?M ! q ! p ! ?i)" using sum_steps[OF sz _ lay(3) i, of "n - 1", unfolded owner] by simp
  also have "\<dots> = (\<Sum>q < n. vals (buf (ring ! q)) ! x)"
    using part_nth[of "ranges ! (ring ! p)" _ x] x N lay(2,3) laid_outD(1)[OF lay(1)] by (intro sum.cong) (simp_all add: matrix_nth sized_def)
  also have "\<dots> = (\<Sum>r < n. vals (buf r) ! x)" by (rule sum_ring[OF ring])
  finally show ?thesis .
qed

lemma reduce_scatter_run:
  fixes operation :: u64
  assumes dc: "dc_execution dc = dv" "ring_world dc channel n" and rg: "fst crange \<le> snd crange" "snd crange \<le> len"
    and buf: "\<forall>r < n. sized (n * len) (buf r)" and p: "p < n" and out: "sized len out"
    and bounds: "(n - 1) * (2 * (n * len * rd_element_size dv)) < 2 ^ 64" "n - 1 < 2 ^ 32"
  defines "ring \<equiv> ring_order_for_channel (dc_tuning dc) channel"
  defines "f \<equiv> phase_out dc enc channel n (n - 1) True (ring_data_tag operation 0 channel) (matrix n ring (block_ranges crange len n) buf)"
  shows "\<exists>w b T L. reduce_scatter_ring_channel (dc\<lparr>dc_rank := ring ! p\<rparr>) krn (buf (ring ! p)) out len crange operation channel
      ([], map (Pair (ring ! ring_prev n p)) (f (ring ! p) (ring_prev n p))) = Inr ((f (ring ! ((p + 1) mod n)) p, []), w, b, T, L) \<and>
    vals b = copy_at (vals out) (fst crange) (map (\<lambda>x. \<Sum>r < n. vals (buf r) ! (ring ! p * len + x)) [fst crange..<snd crange])"
proof -
  let ?dc = "dc\<lparr>dc_rank := ring ! p\<rparr>" and ?rs = "block_ranges crange len n" and ?N = "n * len"
  have w: "dc_execution ?dc = dv" "dc_session ?dc = script_session" "dc_collective_rail_order ?dc \<noteq> []" "dc_world_size ?dc = n" "dc_tuning ?dc = dc_tuning dc"
    "dc_rank ?dc = ring ! p" using dc by (auto simp: ring_world_def)
  have lay: "laid_out n ring ?rs ?N" unfolding ring_def by (rule block_laid_out[OF dc(2) rg])
  have r: "ring ! p < n" by (rule laid_outD(1)[OF lay p])
  obtain b1 T L where one: "fold_r (\<lambda>k s. bind_r (index_f ring ((p + n - 1 - k) mod n)) (\<lambda>sc. bind_r (index_f ring ((p + 2 * n - 2 - k) mod n)) (\<lambda>rc.
      ring_reduce_step ''ring reduce-scatter'' ?dc krn ?rs sc rc (ring ! ((p + 1) mod n)) (ring ! ring_prev n p) channel (ring_data_tag operation 0 channel k) s))) [0..<n - 1]
      (([], map (Pair (ring ! ring_prev n p)) (f (ring ! p) (ring_prev n p))), buf (ring ! p), 0, 0) = Inr ((f (ring ! ((p + 1) mod n)) p, []), b1, T, L)"
    "phase_result n ring ?rs ?N True (n - 1) (matrix n ring ?rs buf) p (buf (ring ! p)) b1"
    using reduce_phase_run[OF w(1-3) lay p matrix_chunks[OF lay buf p] reduce_scatter_indices buf[rule_format, OF r], of 0 0 "''ring reduce-scatter''" "ring ! ((p + 1) mod n)" "ring ! ring_prev n p" channel
      "ring_data_tag operation 0 channel" "[]" "ring ! p" "[]"] bounds
    by (auto simp: f_def)
  let ?s = "ring ! p * len + fst crange" and ?l = "snd crange - fst crange"
  have rs: "?rs ! (ring ! p) = (?s, ?s + ?l)" using r rg(1) by (simp add: block_ranges_def)
  have fits: "?s + ?l \<le> length (vals b1)" using laid_outD(2)[OF lay p] rs one(2) by (simp add: phase_result_def sized_def)
  let ?v = "map (\<lambda>x. \<Sum>r < n. vals (buf r) ! (ring ! p * len + x)) [fst crange..<snd crange]"
  have v: "subslice ?s (?s + ?l) (vals b1) = ?v"
  proof (rule nth_equalityI)
    fix i assume "i < length (subslice ?s (?s + ?l) (vals b1))"
    then have i: "i < ?l" using fits by (simp add: subslice_def)
    then have "subslice ?s (?s + ?l) (vals b1) ! i = vals b1 ! (?s + i)" using fits by (intro subslice_nth) simp_all
    also have "\<dots> = (\<Sum>r < n. vals (buf r) ! (?s + i))"
      using reduce_scatter_values[OF lay buf p one(2), of "?s + i"] rs i by simp
    finally show "subslice ?s (?s + ?l) (vals b1) ! i = ?v ! i" using i by (simp add: add.assoc)
  qed (use fits in \<open>simp add: subslice_def\<close>)
  have rd: "rd_copy_bytes_from_device_at dv b1 ?s ?l = Inr (enc ?v)" using copy_from[OF _ fits] one(2) v by (simp add: phase_result_def sized_def)
  obtain b where b: "rd_copy_bytes_to_device_at dv out (fst crange) (enc ?v) = Inr b" "vals b = copy_at (vals out) (fst crange) ?v"
    using copy_to[OF sizedD(1)[OF out], of "fst crange" ?v] sizedD(2)[OF out] rg by auto
  note look = ring_lookups[OF dc(2) p, folded ring_def]
  have "reduce_scatter_ring_channel ?dc krn (buf (ring ! p)) out len crange operation channel
      ([], map (Pair (ring ! ring_prev n p)) (f (ring ! p) (ring_prev n p))) = Inr ((f (ring ! ((p + 1) mod n)) p, []), b1, b, T, L)"
    unfolding reduce_scatter_ring_channel_def Let_def w(1,4,5,6) ring_def[symmetric] look bind_r_simps block_ranges_def[symmetric] one(1) prod.case rd b(1) by simp
  then show ?thesis using b(2) by blast
qed

lemma reduce_scatter_scripts:
  fixes operation :: u64
  assumes dc: "dc_execution dc = dv" "ring_world dc channel n" and rg: "fst crange \<le> snd crange" "snd crange \<le> len"
    and buf: "\<forall>r < n. sized (n * len) (buf r)" and out: "\<forall>r < n. sized len (out r)"
    and bounds: "(n - 1) * (2 * (n * len * rd_element_size dv)) < 2 ^ 64" "n - 1 < 2 ^ 32"
  shows "\<exists>sent res. \<forall>r < n. (\<exists>w T L. reduce_scatter_ring_channel (dc\<lparr>dc_rank := r\<rparr>) krn (buf r) (out r) len crange operation channel ([], delivered n sent r) =
      Inr ((sent r, []), w, res r, T, L)) \<and>
    vals (res r) = copy_at (vals (out r)) (fst crange) (map (\<lambda>x. \<Sum>s < n. vals (buf s) ! (r * len + x)) [fst crange..<snd crange])"
proof -
  define ring where "ring = ring_order_for_channel (dc_tuning dc) channel"
  define f where "f = phase_out dc enc channel n (n - 1) True (ring_data_tag operation 0 channel) (matrix n ring (block_ranges crange len n) buf)"
  show ?thesis
  proof (rule scripts_exist[OF ring_worldD(1-3)[OF dc(2), folded ring_def], where f = "\<lambda>p. f (ring ! ((p + 1) mod n)) p"])
    fix p m assume "m \<in> set (f (ring ! ((p + 1) mod n)) p)"
    then show "rm_destination m = ring ! ((p + 1) mod n)" unfolding f_def by (rule phase_out_destination)
  next
    fix p assume p: "p < n"
    have o: "sized len (out (ring ! p))" using out laid_outD(1)[OF block_laid_out[OF dc(2) rg] p] by (simp add: ring_def)
    from reduce_scatter_run[OF dc rg buf p o bounds, where operation = operation, folded ring_def, folded f_def]
    show "\<exists>b. (\<exists>w T L. reduce_scatter_ring_channel (dc\<lparr>dc_rank := ring ! p\<rparr>) krn (buf (ring ! p)) (out (ring ! p)) len crange operation channel
        ([], map (Pair (ring ! ring_prev n p)) (f (ring ! ((ring_prev n p + 1) mod n)) (ring_prev n p))) = Inr ((f (ring ! ((p + 1) mod n)) p, []), w, b, T, L)) \<and>
      vals b = copy_at (vals (out (ring ! p))) (fst crange) (map (\<lambda>x. \<Sum>s < n. vals (buf s) ! (ring ! p * len + x)) [fst crange..<snd crange])"
      unfolding ring_prev_next(1)[OF p] by blast
  qed
qed

lemma gather_step_ok:
  assumes dc: "dc_execution dc = dv" "dc_session dc = script_session" "dc_collective_rail_order dc \<noteq> []"
    and rg: "fst crange \<le> snd crange" "snd crange \<le> len" "sc < n" "rc < n"
    and b: "sized (n * len) b" "length xs = snd crange - fst crange" "T + 2 * (n * len * rd_element_size dv) < 2 ^ 64"
  defines "rs \<equiv> block_ranges crange len n"
  shows "\<exists>b' T'. all_gather_step dc len crange sc rc nx pv channel tag ((sent, (pv, chunk_message dc enc channel me tag xs) # inbox), b, T) =
      Inr ((sent @ [chunk_message dc enc channel nx tag (part b (rs ! sc))], inbox), b', T') \<and>
      valid b' \<and> vals b' = copy_at (vals b) (fst (rs ! rc)) xs \<and> T' \<le> T + 2 * (n * len * rd_element_size dv)"
proof -
  note v = sizedD[OF b(1)]
  have N: "n * len < 2 ^ 63" using sized_bounds(2)[OF v(1)] v(2) by simp
  have o: "Option.bind (checked_mul 64 c len) (\<lambda>start. checked_add 64 start (fst crange)) = Some (fst (rs ! c))"
    "fst (rs ! c) + (snd crange - fst crange) = snd (rs ! c)" "snd (rs ! c) \<le> n * len" "fst (rs ! c) \<le> snd (rs ! c)" if "c < n" for c
    using block_end[OF that rg(2)] that rg(1) N by (auto simp: rs_def block_ranges_def checked_mul_def checked_add_def)
  have "length xs \<le> n * len" using b(2) o(3)[OF rg(3)] o(2)[OF rg(3)] by simp
  then have le: "length xs * rd_element_size dv \<le> n * len * rd_element_size dv" by (rule mult_le_mono1)
  then have "length xs * rd_element_size dv < 2 ^ 64" using b(3) by linarith
  note ex = exchange_ok[OF dc v(1) _ _ this, of "rs ! sc" nx pv channel tag sent me inbox]
  obtain b' where b': "rd_copy_bytes_to_device_at dv b (fst (rs ! rc)) (enc xs) = Inr b'" "valid b'" "vals b' = copy_at (vals b) (fst (rs ! rc)) xs"
    using copy_to[OF v(1), of "fst (rs ! rc)" xs] v(2) b(2) o(2,3)[OF rg(4)] by auto
  have "saturating_mul 64 (length (enc xs)) 2 \<le> 2 * (n * len * rd_element_size dv)" using le by (simp only: saturating_mul_def enc_len)
  then show ?thesis using ex b' dc(1) o[OF rg(3)] o[OF rg(4)] v(2) b(2,3)
    by (simp add: all_gather_step_def part_def checked_add_def)
qed

lemma all_gather_values:
  assumes lay: "laid_out n ring ranges N" "\<forall>r < n. sized N (buf r)" "p < n"
    and res: "phase_result n ring ranges N False 0 (matrix n ring ranges buf) p b b'"
    and x: "c < n" "fst (ranges ! c) \<le> x" "x < snd (ranges ! c)"
  shows "vals b' ! x = vals (buf c) ! x"
proof -
  let ?M = "matrix n ring ranges buf" and ?i = "x - fst (ranges ! c)"
  have ring: "length ring = n" "set ring = {..<n}" using lay(1) by (auto simp: laid_out_def)
  obtain q where q: "q < n" "c = ring ! q" using ring_find[OF ring x(1)] by blast
  have sz: "chunk_sizes (\<lambda>q. snd (ranges ! (ring ! q)) - fst (ranges ! (ring ! q))) n ?M" using matrix_chunks[OF lay] by (simp add: chunks_def)
  have i: "?i < snd (ranges ! (ring ! q)) - fst (ranges ! (ring ! q))" using x q(2) by simp
  have N: "snd (ranges ! c) \<le> N" using laid_outD(2)[OF lay(1) q(1)] q(2) by simp
  have "vals b' ! x = part b' (ranges ! c) ! ?i" using part_nth[of "ranges ! c" b' x] x N res by (simp add: phase_result_def sized_def)
  also have "\<dots> = sim_steps chunk_backend False n 0 (n - 1) ?M ! p ! q ! ?i" using res q by (simp add: phase_result_def)
  also have "\<dots> = ?M ! q ! q ! ?i" using spread_steps[OF sz _ q(1) i lay(3), of 0] q(1) by simp
  also have "\<dots> = vals (buf c) ! x" using part_nth[of "ranges ! c" "buf c" x] x N lay(2) q by (simp add: matrix_nth sized_def)
  finally show ?thesis .
qed

lemma all_gather_run:
  fixes operation :: u64
  assumes dc: "dc_execution dc = dv" "ring_world dc channel n" and rg: "fst crange \<le> snd crange" "snd crange \<le> len"
    and buf: "\<forall>r < n. sized (n * len) (buf r)" and p: "p < n"
    and bounds: "(n - 1) * (2 * (n * len * rd_element_size dv)) < 2 ^ 64" "n - 1 < 2 ^ 32"
  defines "ring \<equiv> ring_order_for_channel (dc_tuning dc) channel"
  defines "f \<equiv> phase_out dc enc channel n 0 False (ring_data_tag operation 0 channel) (matrix n ring (block_ranges crange len n) buf)"
  shows "\<exists>b T. all_gather_ring_channel (dc\<lparr>dc_rank := ring ! p\<rparr>) (buf (ring ! p)) len crange operation channel
      ([], map (Pair (ring ! ring_prev n p)) (f (ring ! p) (ring_prev n p))) = Inr ((f (ring ! ((p + 1) mod n)) p, []), b, T) \<and>
    phase_result n ring (block_ranges crange len n) (n * len) False 0 (matrix n ring (block_ranges crange len n) buf) p (buf (ring ! p)) b"
proof -
  let ?dc = "dc\<lparr>dc_rank := ring ! p\<rparr>" and ?rs = "block_ranges crange len n" and ?N = "n * len" and ?W = "2 * (n * len * rd_element_size dv)"
  have w: "dc_execution ?dc = dv" "dc_session ?dc = script_session" "dc_collective_rail_order ?dc \<noteq> []" "dc_world_size ?dc = n" "dc_tuning ?dc = dc_tuning dc"
    using dc by (auto simp: ring_world_def)
  have lay: "laid_out n ring ?rs ?N" unfolding ring_def by (rule block_laid_out[OF dc(2) rg])
  have r: "ring ! p < n" by (rule laid_outD(1)[OF lay p])
  define g where "g k s = bind_r (index_f ring ((p + n - k) mod n)) (\<lambda>sc. bind_r (index_f ring ((p + n - k - 1) mod n)) (\<lambda>rc.
      all_gather_step ?dc len crange sc rc (ring ! ((p + 1) mod n)) (ring ! ring_prev n p) channel (ring_data_tag operation 0 channel k) s))" for k s
  have "\<exists>b' T' L'. fold_r (\<lambda>k (st, b, T, L). bind_r (g k (st, b, T)) (\<lambda>(st, b, T). Inr (st, b, T, L))) [0..<n - 1]
      (([], map (Pair (ring ! ring_prev n p)) (phase_out ?dc enc channel n 0 False (ring_data_tag operation 0 channel) (matrix n ring ?rs buf) (ring ! p) (ring_prev n p)) @ []), buf (ring ! p), 0, 0) =
      Inr (([] @ phase_out ?dc enc channel n 0 False (ring_data_tag operation 0 channel) (matrix n ring ?rs buf) (ring ! ((p + 1) mod n)) p, []), b', T', L') \<and>
    phase_result n ring ?rs ?N False 0 (matrix n ring ?rs buf) p (buf (ring ! p)) b' \<and> T' \<le> 0 + (n - 1) * ?W \<and> L' \<le> 0 + (n - 1)"
  proof (rule phase_run[OF lay p matrix_chunks[OF lay buf p] _ buf[rule_format, OF r]], goal_cases)
    case (1 k b sent inbox T L xs)
    have i: "ring ! send_index n 0 k p < n" "ring ! receive_index n 0 k p < n" "send_index n 0 k p < n" "receive_index n 0 k p < n"
      using 1(1) laid_outD(1)[OF lay] by (simp_all add: receive_index_def send_index_def)
    have l: "length xs = snd crange - fst crange" using 1(3) i(2) by (simp add: block_ranges_def)
    have "length ring = n" using lay by (simp add: laid_out_def)
    then have g: "g k s = all_gather_step ?dc len crange (ring ! send_index n 0 k p) (ring ! receive_index n 0 k p) (ring ! ((p + 1) mod n)) (ring ! ring_prev n p)
        channel (ring_data_tag operation 0 channel k) s" for s
      unfolding g_def all_reduce_indices(1,2)[OF 1(1)] using i(3,4) by (simp add: index_f_def)
    obtain b' T' where st: "g k ((sent, (ring ! ring_prev n p, chunk_message ?dc enc channel (ring ! p) (ring_data_tag operation 0 channel k) xs) # inbox), b, T) =
        Inr ((sent @ [chunk_message ?dc enc channel (ring ! ((p + 1) mod n)) (ring_data_tag operation 0 channel k) (part b (?rs ! (ring ! send_index n 0 k p)))], inbox), b', T')"
      "valid b'" "vals b' = copy_at (vals b) (fst (?rs ! (ring ! receive_index n 0 k p))) xs" "T' \<le> T + ?W"
      unfolding g using gather_step_ok[OF w(1-3) rg i(1,2) 1(2) l 1(4)] by blast
    show ?case unfolding prod.case st(1) bind_r_simps using st(2-4) by (simp add: combine_chunks)
  qed (use bounds in simp_all)
  then obtain b T L where run: "bind_r (fold_r g [0..<n - 1] (([], map (Pair (ring ! ring_prev n p)) (f (ring ! p) (ring_prev n p))), buf (ring ! p), 0))
      (\<lambda>(st, b, T). Inr (st, b, T, 0 :: nat)) = Inr ((f (ring ! ((p + 1) mod n)) p, []), b, T, L)"
    "phase_result n ring ?rs ?N False 0 (matrix n ring ?rs buf) p (buf (ring ! p)) b"
    unfolding fold_r_extra f_def by auto
  then have "fold_r g [0..<n - 1] (([], map (Pair (ring ! ring_prev n p)) (f (ring ! p) (ring_prev n p))), buf (ring ! p), 0) =
      Inr ((f (ring ! ((p + 1) mod n)) p, []), b, T)" by (auto simp: bind_r_eq_Inr)
  note run' = this[unfolded g_def]
  note look = ring_lookups[OF dc(2) p, folded ring_def]
  have "all_gather_ring_channel ?dc (buf (ring ! p)) len crange operation channel
      ([], map (Pair (ring ! ring_prev n p)) (f (ring ! p) (ring_prev n p))) = Inr ((f (ring ! ((p + 1) mod n)) p, []), b, T)"
    unfolding all_gather_ring_channel_def Let_def w(4,5) ring_def[symmetric] look bind_r_simps run' ..
  then show ?thesis using run(2) by blast
qed

lemma all_gather_scripts:
  fixes operation :: u64
  assumes dc: "dc_execution dc = dv" "ring_world dc channel n" and rg: "fst crange \<le> snd crange" "snd crange \<le> len"
    and buf: "\<forall>r < n. sized (n * len) (buf r)"
    and bounds: "(n - 1) * (2 * (n * len * rd_element_size dv)) < 2 ^ 64" "n - 1 < 2 ^ 32"
  shows "\<exists>sent out. \<forall>r < n. (\<exists>T. all_gather_ring_channel (dc\<lparr>dc_rank := r\<rparr>) (buf r) len crange operation channel ([], delivered n sent r) =
      Inr ((sent r, []), out r, T)) \<and>
    vals (out r) = map (\<lambda>x. if fst crange \<le> x mod len \<and> x mod len < snd crange then vals (buf (x div len)) ! x else vals (buf r) ! x) [0..<n * len]"
proof -
  define ring where "ring = ring_order_for_channel (dc_tuning dc) channel"
  let ?rs = "block_ranges crange len n"
  define f where "f = phase_out dc enc channel n 0 False (ring_data_tag operation 0 channel) (matrix n ring ?rs buf)"
  have lay: "laid_out n ring ?rs (n * len)" unfolding ring_def by (rule block_laid_out[OF dc(2) rg])
  have val: "vals b = map (\<lambda>x. if fst crange \<le> x mod len \<and> x mod len < snd crange then vals (buf (x div len)) ! x else vals (buf (ring ! p)) ! x) [0..<n * len]"
    if p: "p < n" and res: "phase_result n ring ?rs (n * len) False 0 (matrix n ring ?rs buf) p (buf (ring ! p)) b" for p b
  proof (rule nth_equalityI)
    have len: "length (vals b) = n * len" using res by (simp add: phase_result_def sized_def)
    then show "length (vals b) = length (map (\<lambda>x. if fst crange \<le> x mod len \<and> x mod len < snd crange then vals (buf (x div len)) ! x else vals (buf (ring ! p)) ! x) [0..<n * len])" by simp
    fix x assume "x < length (vals b)"
    then have x: "x < n * len" using len by simp
    then have c: "x div len < n" by (simp add: less_mult_imp_div_less)
    have "vals b ! x = vals (buf (x div len)) ! x" if "fst crange \<le> x mod len \<and> x mod len < snd crange"
      using all_gather_values[OF lay buf p res c] block_index[OF x c rg(2)] that by blast
    moreover have "vals b ! x = vals (buf (ring ! p)) ! x" if no: "\<not> (fst crange \<le> x mod len \<and> x mod len < snd crange)"
    proof -
      have "x < fst (?rs ! (ring ! q)) \<or> snd (?rs ! (ring ! q)) \<le> x" if "q < n" for q
        using block_index[OF x laid_outD(1)[OF lay that] rg(2)] no by linarith
      then show ?thesis using res x by (simp add: phase_result_def)
    qed
    ultimately show "vals b ! x = map (\<lambda>x. if fst crange \<le> x mod len \<and> x mod len < snd crange then vals (buf (x div len)) ! x else vals (buf (ring ! p)) ! x) [0..<n * len] ! x"
      using x by simp
  qed
  show ?thesis
  proof (rule scripts_exist[OF ring_worldD(1-3)[OF dc(2), folded ring_def], where f = "\<lambda>p. f (ring ! ((p + 1) mod n)) p"])
    fix p m assume "m \<in> set (f (ring ! ((p + 1) mod n)) p)"
    then show "rm_destination m = ring ! ((p + 1) mod n)" unfolding f_def by (rule phase_out_destination)
  next
    fix p assume p: "p < n"
    from all_gather_run[OF dc rg buf p bounds, where operation = operation, folded ring_def, folded f_def] val[OF p]
    show "\<exists>b. (\<exists>T. all_gather_ring_channel (dc\<lparr>dc_rank := ring ! p\<rparr>) (buf (ring ! p)) len crange operation channel
        ([], map (Pair (ring ! ring_prev n p)) (f (ring ! ((ring_prev n p + 1) mod n)) (ring_prev n p))) = Inr ((f (ring ! ((p + 1) mod n)) p, []), b, T)) \<and>
      vals b = map (\<lambda>x. if fst crange \<le> x mod len \<and> x mod len < snd crange then vals (buf (x div len)) ! x else vals (buf (ring ! p)) ! x) [0..<n * len]"
      unfolding ring_prev_next(1)[OF p] by blast
  qed
qed

end

end
