(* ===== verification/Host_Exchange.thy ===== *)
theory Host_Exchange
  imports Coordinator_Routing Device_Ring
begin

text \<open>
  The rank's side of a collective through the coordinator: \<open>exchange_with_options\<close>, \<open>exchange\<close> and \<open>barrier\<close> of the session
  in \<^verbatim>\<open>src/rank/network.rs\<close>, the host-staged collectives of \<^verbatim>\<open>src/rank/host/exchange.rs\<close> and the statistics of
  \<^verbatim>\<open>src/rank/stats.rs\<close>. The stream is a parameter \<open>net\<close>: what \<open>write_frame\<close> followed by \<open>read_frame\<close> returns for a request.
  The state of a transport is threaded; a failed operation returns no state.
\<close>

section \<open>Sessions\<close>

record tcp_session =
  ts_unique_id :: bytes
  ts_rank :: u32
  ts_world_size :: u32
  ts_transport :: collective_transport
  ts_next_sequence :: u64

definition validate_response :: "frame \<Rightarrow> bytes \<Rightarrow> u32 \<Rightarrow> u32 \<Rightarrow> u64 \<Rightarrow> network_error + unit" where
  "validate_response frame uid rank world_size seqn =
     (let h = f_header frame
      in if fh_unique_id h \<noteq> uid \<or> fh_world_size h \<noteq> world_size then Inl WrongSession
         else if fh_destination_rank h \<noteq> rank then Inl (WrongDestination rank (fh_destination_rank h))
         else if fh_sequence h \<noteq> seqn then Inl (Protocol (SequenceMismatch seqn (fh_sequence h)))
         else Inr ())"

definition session_request ::
  "(bytes \<Rightarrow> u32) \<Rightarrow> tcp_session \<Rightarrow> opcode \<Rightarrow> element_type \<Rightarrow> exchange_options \<Rightarrow> bytes \<Rightarrow> network_error + frame" where
  "session_request crc s opc et options payload =
     (let header = collective_header crc (ts_unique_id s) opc et (ts_rank s) (xo_root_rank options) (ts_world_size s)
            (ts_next_sequence s) (xo_element_count options)
      in map_err Protocol (frame_new crc (header\<lparr> fh_flags := fh_flags header OR xo_flags options, fh_tag := xo_tag options \<rparr>) payload))"

definition exchange_with_options ::
  "(bytes \<Rightarrow> u32) \<Rightarrow> (frame \<Rightarrow> network_error + frame option) \<Rightarrow> opcode \<Rightarrow> element_type \<Rightarrow> exchange_options \<Rightarrow> bytes \<Rightarrow> tcp_session
     \<Rightarrow> network_error + frame \<times> tcp_session" where
  "exchange_with_options crc net opc et options payload s =
     bind_r (session_request crc s opc et options payload) (\<lambda>request.
     bind_r (net request) (\<lambda>answer.
     bind_r (ok_or answer (invalid_configuration ''coordinator closed before collective response'' [])) (\<lambda>response.
     bind_r (validate_response response (ts_unique_id s) (ts_rank s) (ts_world_size s) (ts_next_sequence s)) (\<lambda>_.
       if fh_opcode (f_header response) = Abort then Inl (RemoteAbort (Msg ''{}'' [ABytes (f_payload response)]))
       else bind_r (ok_or (checked_add 64 (unat (ts_next_sequence s)) 1) (Protocol SequenceOverflow)) (\<lambda>next_sequence.
         Inr (response, s\<lparr> ts_next_sequence := of_nat next_sequence \<rparr>))))))"

section \<open>The transport interface\<close>

text \<open>What the host-staged and device collectives use of \<open>RankTransport\<close>.\<close>

record 's rank_transport =
  rt_rank :: u32
  rt_world_size :: u32
  rt_kind :: collective_transport
  rt_exchange_with_options :: "opcode \<Rightarrow> element_type \<Rightarrow> exchange_options \<Rightarrow> bytes \<Rightarrow> 's \<Rightarrow> network_error + frame \<times> 's"
  rt_p2p :: "'s p2p_session"

definition tcp_transport ::
  "(bytes \<Rightarrow> u32) \<Rightarrow> (frame \<Rightarrow> network_error + frame option) \<Rightarrow> tcp_session p2p_session \<Rightarrow> tcp_session \<Rightarrow> tcp_session rank_transport" where
  "tcp_transport crc net p2p s =
     \<lparr> rt_rank = ts_rank s, rt_world_size = ts_world_size s, rt_kind = ts_transport s,
       rt_exchange_with_options = exchange_with_options crc net, rt_p2p = p2p \<rparr>"

definition exchange ::
  "'s rank_transport \<Rightarrow> opcode \<Rightarrow> element_type \<Rightarrow> u32 \<Rightarrow> u64 \<Rightarrow> bytes \<Rightarrow> 's \<Rightarrow> network_error + frame \<times> 's" where
  "exchange tr opc et root_rank element_count payload =
     rt_exchange_with_options tr opc et (exchange_options_new root_rank element_count) payload"

definition session_barrier :: "'s rank_transport \<Rightarrow> 's \<Rightarrow> network_error + 's" where
  "session_barrier tr st =
     bind_r (exchange tr Barrier ElemNone ANY_RANK 0 [] st) (\<lambda>(response, st).
       if fh_opcode (f_header response) \<noteq> Barrier \<or> f_payload response \<noteq> []
       then Inl (invalid_configuration ''invalid barrier response'' []) else Inr st)"

section \<open>Host-staged collectives\<close>

record collective_stats =
  cs_algorithm :: collective_algorithm
  cs_transport :: collective_transport
  cs_steps :: nat
  cs_transferred_bytes :: u64
  cs_reduction_kernel_launches :: nat

definition host_stats :: "'s rank_transport \<Rightarrow> collective_algorithm \<Rightarrow> nat \<Rightarrow> nat \<Rightarrow> nat \<Rightarrow> rank_error + collective_stats" where
  "host_stats tr algorithm steps transferred_bytes launches =
     bind_r (ok_or (u64_try_from transferred_bytes) (Overflow ''TCP transferred bytes'')) (\<lambda>bytes.
       Inr \<lparr> cs_algorithm = algorithm, cs_transport = rt_kind tr, cs_steps = steps, cs_transferred_bytes = bytes,
             cs_reduction_kernel_launches = launches \<rparr>)"

definition validate_root :: "'s rank_transport \<Rightarrow> u32 \<Rightarrow> rank_error + unit" where
  "validate_root tr root_rank =
     (if root_rank \<ge> rt_world_size tr then Inl (RankRankOutOfRange (unat root_rank) (unat (rt_world_size tr))) else Inr ())"

definition all_gather_host_staged ::
  "'s rank_transport \<Rightarrow> element_type \<Rightarrow> nat \<Rightarrow> bytes \<Rightarrow> 's \<Rightarrow> rank_error + (bytes \<times> collective_stats) \<times> 's" where
  "all_gather_host_staged tr et element_count payload st =
     bind_r (validate_host_reduction_payload et element_count payload) (\<lambda>rank_bytes.
     bind_r (map_err Network (exchange tr AllGather et ANY_RANK (of_nat element_count) payload st)) (\<lambda>(response, st).
     bind_r (ok_or (checked_mul 64 rank_bytes (unat (rt_world_size tr))) (Overflow ''host all-gather response bytes'')) (\<lambda>expected.
     bind_r (validate_host_reduction_response ''all-gather'' (f_payload response) expected) (\<lambda>_.
     bind_r (ok_or (checked_add 64 rank_bytes expected) (Overflow ''host all-gather transferred bytes'')) (\<lambda>transferred.
     bind_r (host_stats tr AlgDirect (unat (rt_world_size tr) - 1) transferred 0) (\<lambda>stats.
       Inr ((f_payload response, stats), st)))))))"

text \<open>The common middle of the three reductions: the exchange, the size of the response, the statistics.\<close>

definition reduction_exchange ::
  "'s rank_transport \<Rightarrow> string \<Rightarrow> opcode \<Rightarrow> element_type \<Rightarrow> nat \<Rightarrow> u32 \<Rightarrow> reduction_operation \<Rightarrow> nat \<Rightarrow> (unit \<Rightarrow> rank_error + nat) \<Rightarrow> bytes \<Rightarrow> 's
     \<Rightarrow> rank_error + (bytes \<times> collective_stats) \<times> 's" where
  "reduction_exchange tr name opc et element_count root_rank operation rank_bytes expected payload st =
     bind_r (map_err Network (rt_exchange_with_options tr opc et
         (reduction_exchange_options root_rank element_count (reduction_code operation)) payload st)) (\<lambda>(response, st).
     bind_r (expected ()) (\<lambda>expected.
     bind_r (validate_host_reduction_response name (f_payload response) expected) (\<lambda>_.
     bind_r (ok_or (checked_add 64 rank_bytes (length (f_payload response))) (Overflow (''host '' @ name @ '' transferred bytes''))) (\<lambda>transferred.
     bind_r (host_stats tr AlgDirect (unat (rt_world_size tr) - 1) transferred 0) (\<lambda>stats.
       Inr ((f_payload response, stats), st))))))"

definition all_reduce_host_staged ::
  "'s rank_transport \<Rightarrow> element_type \<Rightarrow> nat \<Rightarrow> bytes \<Rightarrow> reduction_operation \<Rightarrow> 's \<Rightarrow> rank_error + (bytes \<times> collective_stats) \<times> 's" where
  "all_reduce_host_staged tr et element_count payload operation st =
     bind_r (validate_host_reduction_payload et element_count payload) (\<lambda>rank_bytes.
       reduction_exchange tr ''all-reduce'' AllReduce et element_count ANY_RANK operation rank_bytes
         (\<lambda>_. ok_or (checked_mul 64 rank_bytes (unat (rt_world_size tr))) (Overflow ''host all-reduce response bytes'')) payload st)"

definition reduce_host_staged ::
  "'s rank_transport \<Rightarrow> element_type \<Rightarrow> nat \<Rightarrow> bytes \<Rightarrow> u32 \<Rightarrow> reduction_operation \<Rightarrow> 's
     \<Rightarrow> rank_error + (bytes option \<times> collective_stats) \<times> 's" where
  "reduce_host_staged tr et element_count payload root_rank operation st =
     bind_r (validate_root tr root_rank) (\<lambda>_.
     bind_r (validate_host_reduction_payload et element_count payload) (\<lambda>rank_bytes.
     bind_r (reduction_exchange tr ''reduce'' Reduce et element_count root_rank operation rank_bytes
         (\<lambda>_. if rt_rank tr = root_rank
               then ok_or (checked_mul 64 rank_bytes (unat (rt_world_size tr))) (Overflow ''host reduce response bytes'')
               else Inr 0) payload st) (\<lambda>((response, stats), st).
       Inr ((if rt_rank tr = root_rank then Some response else None, stats), st))))"

definition reduce_scatter_host_staged ::
  "'s rank_transport \<Rightarrow> element_type \<Rightarrow> nat \<Rightarrow> bytes \<Rightarrow> reduction_operation \<Rightarrow> 's \<Rightarrow> rank_error + (bytes \<times> collective_stats) \<times> 's" where
  "reduce_scatter_host_staged tr et element_count payload operation st =
     (if element_count mod unat (rt_world_size tr) \<noteq> 0
      then Inl (InvalidLength ''host reduce-scatter input length must be divisible by world size'')
      else bind_r (validate_host_reduction_payload et element_count payload) (\<lambda>rank_bytes.
        reduction_exchange tr ''reduce-scatter'' ReduceScatter et element_count ANY_RANK operation rank_bytes (\<lambda>_. Inr rank_bytes) payload st))"

definition exchange_host_payload ::
  "'s rank_transport \<Rightarrow> nat list \<Rightarrow> element_type \<Rightarrow> bytes \<Rightarrow> nat \<Rightarrow> nat \<Rightarrow> nat \<Rightarrow> nat \<Rightarrow> u64 \<Rightarrow> 's \<Rightarrow> rank_error fault + bytes \<times> 's" where
  "exchange_host_payload tr rails et payload receive_bytes destination src rail_hint tag st =
     (let element_bytes = byte_width et
      in if element_bytes = 0 \<or> length payload mod element_bytes \<noteq> 0 \<or> receive_bytes mod element_bytes \<noteq> 0
         then Inl (Fault (InvalidLength ''pairwise host payload does not align to its element type''))
         else if rails = [] then Inl (Panic ''remainder with a divisor of zero'')
         else bind_r (index_f rails (rail_hint mod length rails)) (\<lambda>rail.
           bind_r (map_err (\<lambda>e. Fault (Network e)) (ps_send_on_rail (rt_p2p tr)
             \<lparr> rm_rail = rail, rm_destination = destination, rm_tag = tag, rm_element_type = et,
               rm_element_count = length payload div element_bytes, rm_payload = payload \<rparr> st)) (\<lambda>st.
           bind_r (map_err (\<lambda>e. Fault (Network e)) (ps_receive_on_rail (rt_p2p tr)
             \<lparr> rr_rail = rail, rr_source = src, rr_tag = tag, rr_element_type = et,
               rr_element_count = receive_bytes div element_bytes \<rparr> st)) (\<lambda>(response, st).
             if length response \<noteq> receive_bytes
             then Inl (Fault (Network (invalid_configuration ''pairwise host response has {} bytes, expected {}''
                    [ANat (length response), ANat receive_bytes])))
             else Inr (response, st)))))"

definition host_barrier :: "'s rank_transport \<Rightarrow> 's \<Rightarrow> rank_error + collective_stats \<times> 's" where
  "host_barrier tr st =
     bind_r (map_err Network (session_barrier tr st)) (\<lambda>st.
     bind_r (host_stats tr AlgDirect (if rt_world_size tr > 1 then 1 else 0) 0 0) (\<lambda>stats. Inr (stats, st)))"

section \<open>One round of sessions and coordinator\<close>

text \<open>The request that a session builds for payload of the announced size.\<close>

lemma session_request_ok:
  assumes "p \<noteq> []" "length p \<le> 2 ^ 30" "length p = unat (xo_element_count options) * byte_width et" "et \<noteq> ElemNone"
    "xo_flags options = 0" "xo_root_rank options = ANY_RANK" "ts_rank s < ts_world_size s"
  shows "\<exists>f. session_request crc s opc et options p = Inr f \<and> f_payload f = p \<and> fh_opcode (f_header f) = opc \<and>
    fh_element_type (f_header f) = et \<and> fh_source_rank (f_header f) = ts_rank s \<and> fh_root_rank (f_header f) = ANY_RANK \<and>
    fh_world_size (f_header f) = ts_world_size s \<and> fh_tag (f_header f) = xo_tag options \<and>
    fh_element_count (f_header f) = xo_element_count options \<and> fh_unique_id (f_header f) = ts_unique_id s \<and>
    (unique_id_ok (ts_unique_id s) \<longrightarrow> frame_wf crc f)"
proof -
  let ?g = "(collective_header crc (ts_unique_id s) opc et (ts_rank s) (xo_root_rank options) (ts_world_size s)
            (ts_next_sequence s) (xo_element_count options))\<lparr> fh_tag := xo_tag options \<rparr>"
  let ?h = "?g\<lparr> fh_flags := FLAG_PAYLOAD, fh_payload_bytes := of_nat (length p), fh_payload_checksum := crc p \<rparr>"
  have c: "unat (of_nat (length p) :: u64) = length p" using assms(2) by (simp add: unat_of_nat take_bit_nat_eq_self)
  then have ne: "(of_nat (length p) :: u64) \<noteq> 0" using assms(1) by (metis length_0_conv unat_0)
  have "header_wf ?h"
    unfolding header_wf_def collective_header_def using assms c ne by (simp add: FLAG_PAYLOAD_def)
  then have "validate crc ?h None = Inr ()" by (simp add: validate_ok_iff)
  then have "is_ok (frame_new crc ?g p)"
    using assms(1,2) by (simp add: frame_new_def with_payload_def MAX_FRAME_PAYLOAD_BYTES_def collective_header_def)
  then obtain f where f: "frame_new crc ?g p = Inr f" by (auto simp: is_ok_iff)
  then have "session_request crc s opc et options p = Inr f"
    using assms(5) by (simp add: session_request_def collective_header_def)
  with frame_new_fields[OF f] frame_new_wf[OF f] assms(6) show ?thesis by (simp add: collective_header_def)
qed

text \<open>The connection of rank \<open>r\<close> during a round: its request is answered by the response that the coordinator routes to it.\<close>

definition round_net :: "frame list \<Rightarrow> frame list \<Rightarrow> nat \<Rightarrow> frame \<Rightarrow> network_error + frame option" where
  "round_net requests responses r f = (if f = requests ! r then Inr (Some (responses ! r)) else Inl (Io ''unexpected request''))"

definition round_sessions :: "bytes \<Rightarrow> u64 \<Rightarrow> nat \<Rightarrow> (nat \<Rightarrow> tcp_session) \<Rightarrow> bool" where
  "round_sessions uid seqn n s \<longleftrightarrow> (\<forall>r < n. ts_unique_id (s r) = uid \<and> ts_rank (s r) = of_nat r \<and> ts_world_size (s r) = of_nat n \<and>
     ts_next_sequence (s r) = seqn)"

text \<open>What a session sends in a round: a well-formed request of its rank, for the common options.\<close>

definition round_request ::
  "(bytes \<Rightarrow> u32) \<Rightarrow> bytes \<Rightarrow> nat \<Rightarrow> opcode \<Rightarrow> element_type \<Rightarrow> exchange_options \<Rightarrow> tcp_session \<Rightarrow> bytes \<Rightarrow> frame \<Rightarrow> bool" where
  "round_request crc uid n opc et options s p f \<longleftrightarrow> session_request crc s opc et options p = Inr f \<and> f_payload f = p \<and>
     fh_opcode (f_header f) = opc \<and> fh_element_type (f_header f) = et \<and> fh_source_rank (f_header f) = ts_rank s \<and>
     fh_root_rank (f_header f) = ANY_RANK \<and> fh_world_size (f_header f) = of_nat n \<and> fh_tag (f_header f) = xo_tag options \<and>
     fh_element_count (f_header f) = xo_element_count options \<and> fh_unique_id (f_header f) = uid \<and> frame_wf crc f"

lemma answered_exchange:
  assumes "session_request crc s opc et options p = Inr f" "net f = Inr (Some response)"
    "response_for crc (ts_unique_id s) opc (ts_next_sequence s) n (unat (ts_rank s)) response" "of_nat n = ts_world_size s"
    "opc \<noteq> Abort" "unat (ts_next_sequence s) + 1 < 2 ^ 64"
  shows "exchange_with_options crc net opc et options p s = Inr (response, s\<lparr> ts_next_sequence := ts_next_sequence s + 1 \<rparr>)"
  using assms by (simp add: exchange_with_options_def response_for_def validate_response_def checked_add_def)

lemma gathered_exchange:
  assumes agreement: "agreement_inv a" "voted_ranks a = {}" "ca_world_size a = n" "ca_next_sequence a = seqn" "unat seqn + 1 < 2 ^ 64"
    and sessions: "round_sessions uid seqn n s" "unique_id_ok uid" "0 < n" "n < 2 ^ 32"
    and op: "opc = AllGather \<or> opc = AllReduce" "et \<noteq> ElemNone" "xo_flags options = 0" "xo_root_rank options = ANY_RANK"
    and cnt: "unat (xo_element_count options) = cnt" "0 < cnt" "n * (cnt * byte_width et) \<le> 2 ^ 30"
    and payloads: "\<forall>r < n. length (p r) = cnt * byte_width et"
  shows "\<exists>requests responses a'. length requests = n \<and> validate_and_route crc a uid seqn requests = (Inr responses, a') \<and>
    agreement_inv a' \<and> voted_ranks a' = {} \<and> ca_next_sequence a' = seqn + 1 \<and>
    (\<forall>r < n. session_request crc (s r) opc et options (p r) = Inr (requests ! r) \<and>
      exchange_with_options crc (round_net requests responses r) opc et options (p r) (s r) =
        Inr (responses ! r, (s r)\<lparr> ts_next_sequence := seqn + 1 \<rparr>) \<and> f_payload (responses ! r) = concat (map p [0..<n]))"
proof -
  have s: "ts_unique_id (s r) = uid" "ts_rank (s r) = of_nat r" "ts_world_size (s r) = of_nat n" "ts_next_sequence (s r) = seqn"
    "unat (of_nat r :: u32) = r" "unat (of_nat n :: u32) = n" "length (p r) = cnt * byte_width et" if "r < n" for r
    using sessions payloads that by (simp_all add: round_sessions_def unat_of_nat take_bit_nat_eq_self)
  have bw: "0 < byte_width et" using op(2) byte_width_pos_iff by blast
  have "1 * (cnt * byte_width et) \<le> n * (cnt * byte_width et)" using sessions(3) by (intro mult_le_mono1) simp
  then have small: "cnt * byte_width et \<le> 2 ^ 30" using cnt(3) by linarith
  define req where "req r = projr (session_request crc (s r) opc et options (p r))" for r
  have req: "round_request crc uid n opc et options (s r) (p r) (req r)" if "r < n" for r
    using session_request_ok[of "p r" options et "s r" crc opc] s[OF that] small cnt(1,2) bw op sessions(2,4) that
    by (auto simp: req_def round_request_def word_less_nat_alt simp flip: length_0_conv)
  note req = req[unfolded round_request_def]
  let ?q = "map req [0..<n]"
  have q: "?q \<noteq> []" "length ?q = n" "hd ?q = req 0" "map f_payload ?q = map p [0..<n]" using sessions(3) req by (auto simp: hd_map)
  have wf: "\<forall>f \<in> set ?q. frame_wf crc f" using req by auto
  have "\<exists>responses a'. validate_and_route crc a uid seqn ?q = (Inr responses, a')"
    by (rule gathered_round_succeeds[where cnt = cnt and opc = opc and et = et and tag = "xo_tag options" and root = ANY_RANK])
       (use agreement sessions op cnt req s in \<open>auto simp: q\<close>)
  then obtain responses a' where r: "validate_and_route crc a uid seqn ?q = (Inr responses, a')" by blast
  have len: "length ?q = ca_world_size a" "seqn = ca_next_sequence a" using agreement by simp_all
  note answers = round_answers[OF agreement(1,2) len agreement(5) sessions(2) wf r]
  note a' = round_agreement[OF agreement(1,2) len agreement(5) answers(2)]
  have resp: "response_for crc uid opc seqn n rank (responses ! rank) \<and> f_payload (responses ! rank) = concat (map p [0..<n])" if "rank < n" for rank
    using answers(1) req[OF sessions(3)] op(1) that unfolding q(2,3,4) by (auto simp: responses_ok_def route_spec_def)
  have "exchange_with_options crc (round_net ?q responses rank) opc et options (p rank) (s rank) =
      Inr (responses ! rank, (s rank)\<lparr> ts_next_sequence := seqn + 1 \<rparr>)" if "rank < n" for rank
    using answered_exchange[of crc "s rank" opc et options "p rank" "req rank" "round_net ?q responses rank" "responses ! rank" n]
      req[OF that] resp[OF that] s[OF that] that op(1) agreement(5) by (auto simp: round_net_def)
  then have each: "session_request crc (s rank) opc et options (p rank) = Inr (?q ! rank) \<and>
      exchange_with_options crc (round_net ?q responses rank) opc et options (p rank) (s rank) =
        Inr (responses ! rank, (s rank)\<lparr> ts_next_sequence := seqn + 1 \<rparr>) \<and> f_payload (responses ! rank) = concat (map p [0..<n])" if "rank < n" for rank
    using req[OF that] resp[OF that] that by simp
  show ?thesis by (rule exI[of _ ?q], rule exI[of _ responses], rule exI[of _ a']) (use r a' q(2) each in simp)
qed

end
