(* ===== verification/Tensor_Device.thy ===== *)
theory Tensor_Device
  imports Device_Ring Host_Reduction
begin

text \<open>
  The tensor device of \<^verbatim>\<open>src/tensor_device\<close> (\<^verbatim>\<open>mod.rs\<close>, \<^verbatim>\<open>storage.rs\<close>, \<^verbatim>\<open>element.rs\<close>,
  \<^verbatim>\<open>reduction.rs\<close>, \<^verbatim>\<open>device.rs\<close>), which implements the rank device on a tensor backend, and the ring collectives on it.
  The backend (the crate \<open>ruda_tensor\<close>) is a parameter: a record of its operations on floating and on integer tensors.
  \<open>DType\<close> is identified with the wire element type of the same name. A buffer is a value: a lock is never poisoned, and an
  operation that writes returns the written buffer; whether two handles share one storage is an argument of \<open>reduce\<close>.
\<close>

section \<open>Backend and elements\<close>

record ('t, 'd, 'a, 'm, 'x) tensor_ops =
  to_dtype :: "'t \<Rightarrow> element_type"
  to_shape :: "'t \<Rightarrow> nat list"
  to_device :: "'t \<Rightarrow> 'd"
  to_slice :: "'t \<Rightarrow> nat \<times> nat \<Rightarrow> 't"
  to_slice_assign :: "'t \<Rightarrow> nat \<times> nat \<Rightarrow> 't \<Rightarrow> 't"
  to_empty :: "nat \<Rightarrow> 'd \<Rightarrow> element_type \<Rightarrow> 't"
  to_from_data :: "'a \<Rightarrow> 'd \<Rightarrow> 't"
  to_into_data :: "'t \<Rightarrow> 'x + 'a"
  to_add :: "'t \<Rightarrow> 't \<Rightarrow> 't"
  to_mul :: "'t \<Rightarrow> 't \<Rightarrow> 't"
  to_lower :: "'t \<Rightarrow> 't \<Rightarrow> 'm"
  to_mask_where :: "'t \<Rightarrow> 'm \<Rightarrow> 't \<Rightarrow> 't"

record ('f, 'i, 'd, 'a, 'm, 'x, 'v) tensor_backend =
  tk_float :: "('f, 'd, 'a, 'm, 'x) tensor_ops"
  tk_int :: "('i, 'd, 'a, 'm, 'x) tensor_ops"
  tk_supports_dtype :: "'d \<Rightarrow> element_type \<Rightarrow> bool"
  tk_sync :: "'d \<Rightarrow> 'x + unit"
  tk_bitwise_and :: "'i \<Rightarrow> 'i \<Rightarrow> 'i"
  tk_bitwise_or :: "'i \<Rightarrow> 'i \<Rightarrow> 'i"
  tk_bitwise_xor :: "'i \<Rightarrow> 'i \<Rightarrow> 'i"
  tk_data_new :: "'v list \<Rightarrow> nat list \<Rightarrow> 'a"
  tk_into_vec :: "'a \<Rightarrow> string + 'v list"

text \<open>\<open>TensorElement\<close>: its dtype, its width and its wire format.\<close>

record 'v tensor_element =
  el_dtype :: element_type
  el_size :: nat
  el_append_le :: "'v \<Rightarrow> bytes"
  el_read_le :: "bytes \<Rightarrow> 'v"

datatype 'x tensor_device_error =
    UnsupportedDType element_type
  | DTypeMismatch element_type element_type
  | DeviceMismatch
  | InvalidBuffer string
  | InvalidOperation string
  | DataError string
  | PoisonedBuffer
  | ExecutionError 'x

datatype ('f, 'i) primitive = PrimFloat 'f | PrimInt 'i

record ('f, 'i, 'd) tensor_buffer =
  tb_value :: "('f, 'i) primitive option"
  tb_device :: 'd
  tb_length :: nat

record tensor_reduction_launch =
  tl_length :: nat
  tl_destination_offset :: nat

text \<open>The implementations for \<open>u8\<close>, \<open>u32\<close>, \<open>i32\<close>, \<open>i64\<close> and, through their bits, \<open>f32\<close>, \<open>f16\<close> and \<open>bf16\<close>.\<close>

definition wire_element :: "element_type \<Rightarrow> 'w::len word tensor_element" where
  "wire_element dt =
     \<lparr> el_dtype = dt, el_size = LENGTH('w) div 8, el_append_le = le_bytes (LENGTH('w) div 8), el_read_le = from_le_bytes \<rparr>"

section \<open>Definitions\<close>

definition encode_elements :: "'v tensor_element \<Rightarrow> 'v list \<Rightarrow> bytes" where
  "encode_elements el values = fold (\<lambda>v bytes. bytes @ el_append_le el v) values []"

definition decode_elements :: "'v tensor_element \<Rightarrow> bytes \<Rightarrow> 'x tensor_device_error fault + 'v list" where
  "decode_elements el bytes =
     (if length bytes mod el_size el \<noteq> 0 then Inl (Fault (InvalidBuffer ''incomplete wire element''))
      else Inr (map (el_read_le el) (chunks_exact (el_size el) bytes)))"

definition checked_length :: "'v tensor_element \<Rightarrow> nat \<Rightarrow> 'x tensor_device_error fault + unit" where
  "checked_length el len =
     bind_r (ok_or (checked_mul 64 len (el_size el)) (Fault (InvalidBuffer ''collective buffer byte length overflow''))) (\<lambda>bytes.
       if bytes > 2 ^ 63 - 1 then Inl (Fault (InvalidBuffer ''collective buffer exceeds addressable size'')) else Inr ())"

definition checked_range :: "nat \<Rightarrow> nat \<Rightarrow> nat \<Rightarrow> 'x tensor_device_error fault + nat \<times> nat" where
  "checked_range tot offset len =
     bind_r (ok_or (checked_add 64 offset len) (Fault (InvalidBuffer ''collective element range overflow''))) (\<lambda>fin.
       if fin > tot then Inl (Fault (InvalidBuffer ''collective element range out of bounds'')) else Inr (offset, fin))"

fun primitive_slice :: "('f, 'i, 'd, 'a, 'm, 'x, 'v) tensor_backend \<Rightarrow> ('f, 'i) primitive \<Rightarrow> nat \<times> nat \<Rightarrow> ('f, 'i) primitive" where
  "primitive_slice be (PrimFloat value) r = PrimFloat (to_slice (tk_float be) value r)"
| "primitive_slice be (PrimInt value) r = PrimInt (to_slice (tk_int be) value r)"

fun primitive_assign ::
  "('f, 'i, 'd, 'a, 'm, 'x, 'v) tensor_backend \<Rightarrow> ('f, 'i) primitive \<Rightarrow> nat \<times> nat \<Rightarrow> ('f, 'i) primitive
     \<Rightarrow> 'x tensor_device_error fault + ('f, 'i) primitive" where
  "primitive_assign be (PrimFloat tensor) r (PrimFloat value) = Inr (PrimFloat (to_slice_assign (tk_float be) tensor r value))"
| "primitive_assign be (PrimInt tensor) r (PrimInt value) = Inr (PrimInt (to_slice_assign (tk_int be) tensor r value))"
| "primitive_assign be _ r _ = Inl (Panic ''typed collective buffer storage kind'')"

definition validate_type ::
  "('f, 'i, 'd, 'a, 'm, 'x, 'v) tensor_backend \<Rightarrow> 'd \<Rightarrow> 'v tensor_element \<Rightarrow> 'x tensor_device_error fault + unit" where
  "validate_type be d el =
     (if \<not> tk_supports_dtype be d (el_dtype el) then Inl (Fault (UnsupportedDType (el_dtype el))) else Inr ())"

definition validate_import ::
  "('t, 'd, 'a, 'm, 'x) tensor_ops \<Rightarrow> 'd \<Rightarrow> 'v tensor_element \<Rightarrow> 't \<Rightarrow> 'x tensor_device_error fault + unit" where
  "validate_import ops d el value =
     (if to_dtype ops value \<noteq> el_dtype el then Inl (Fault (DTypeMismatch (el_dtype el) (to_dtype ops value)))
      else if to_device ops value \<noteq> d then Inl (Fault DeviceMismatch)
      else if length (to_shape ops value) \<noteq> 1 then Inl (Fault (InvalidBuffer ''collective tensors must have rank one''))
      else checked_length el (to_shape ops value ! 0))"

definition validate_buffer :: "'d \<Rightarrow> ('f, 'i, 'd) tensor_buffer \<Rightarrow> 'x tensor_device_error fault + unit" where
  "validate_buffer d buffer = (if tb_device buffer \<noteq> d then Inl (Fault DeviceMismatch) else Inr ())"

definition wrap_buffer :: "'d \<Rightarrow> ('f, 'i) primitive \<Rightarrow> nat \<Rightarrow> ('f, 'i, 'd) tensor_buffer" where
  "wrap_buffer d value len = \<lparr> tb_value = Some value, tb_device = d, tb_length = len \<rparr>"

definition import_float ::
  "('f, 'i, 'd, 'a, 'm, 'x, 'v) tensor_backend \<Rightarrow> 'd \<Rightarrow> 'v tensor_element \<Rightarrow> 'f \<Rightarrow> 'x tensor_device_error fault + ('f, 'i, 'd) tensor_buffer" where
  "import_float be d el value =
     (if el_dtype el \<in> {U8, I32, I64} then Inl (Fault (InvalidBuffer ''integer elements require import_int''))
      else bind_r (validate_type be d el) (\<lambda>_.
        bind_r (validate_import (tk_float be) d el value) (\<lambda>_.
          Inr (wrap_buffer d (PrimFloat value) (to_shape (tk_float be) value ! 0)))))"

definition import_int ::
  "('f, 'i, 'd, 'a, 'm, 'x, 'v) tensor_backend \<Rightarrow> 'd \<Rightarrow> 'v tensor_element \<Rightarrow> 'i \<Rightarrow> 'x tensor_device_error fault + ('f, 'i, 'd) tensor_buffer" where
  "import_int be d el value =
     (if el_dtype el \<notin> {U8, U32, I32, I64} then Inl (Fault (InvalidBuffer ''floating elements require import_float''))
      else bind_r (validate_type be d el) (\<lambda>_.
        bind_r (validate_import (tk_int be) d el value) (\<lambda>_.
          Inr (wrap_buffer d (PrimInt value) (to_shape (tk_int be) value ! 0)))))"

definition from_values :: "('f, 'i, 'd, 'a, 'm, 'x, 'v) tensor_backend \<Rightarrow> 'd \<Rightarrow> 'v tensor_element \<Rightarrow> 'v list \<Rightarrow> ('f, 'i) primitive" where
  "from_values be d el values =
     (let data = tk_data_new be values [length values] in
      if el_dtype el \<in> {U8, U32, I32, I64} then PrimInt (to_from_data (tk_int be) data d)
      else PrimFloat (to_from_data (tk_float be) data d))"

definition upload ::
  "('f, 'i, 'd, 'a, 'm, 'x, 'v) tensor_backend \<Rightarrow> 'd \<Rightarrow> 'v tensor_element \<Rightarrow> 'v list \<Rightarrow> 'x tensor_device_error fault + ('f, 'i, 'd) tensor_buffer" where
  "upload be d el values =
     bind_r (validate_type be d el) (\<lambda>_.
     bind_r (checked_length el (length values)) (\<lambda>_.
       Inr (wrap_buffer d (from_values be d el values) (length values))))"

definition synchronize :: "('f, 'i, 'd, 'a, 'm, 'x, 'v) tensor_backend \<Rightarrow> 'd \<Rightarrow> 'x tensor_device_error fault + unit" where
  "synchronize be d = map_err (\<lambda>e. Fault (ExecutionError e)) (tk_sync be d)"

definition snapshot :: "('f, 'i, 'd) tensor_buffer \<Rightarrow> 'x tensor_device_error fault + ('f, 'i) primitive" where
  "snapshot buffer = ok_or (tb_value buffer) (Fault PoisonedBuffer)"

definition update_buffer ::
  "('f, 'i, 'd) tensor_buffer \<Rightarrow> (('f, 'i) primitive \<Rightarrow> 'x tensor_device_error fault + ('f, 'i) primitive)
     \<Rightarrow> 'x tensor_device_error fault + ('f, 'i, 'd) tensor_buffer" where
  "update_buffer buffer up =
     bind_r (ok_or (tb_value buffer) (Fault PoisonedBuffer)) (\<lambda>previous.
     bind_r (up previous) (\<lambda>value. Inr (buffer\<lparr>tb_value := Some value\<rparr>)))"

definition float_tensor :: "('f, 'i, 'd) tensor_buffer \<Rightarrow> 'x tensor_device_error fault + 'f" where
  "float_tensor buffer = bind_r (snapshot buffer) (\<lambda>p.
     case p of PrimFloat value \<Rightarrow> Inr value | PrimInt _ \<Rightarrow> Inl (Fault (InvalidBuffer ''expected a floating tensor'')))"

definition int_tensor :: "('f, 'i, 'd) tensor_buffer \<Rightarrow> 'x tensor_device_error fault + 'i" where
  "int_tensor buffer = bind_r (snapshot buffer) (\<lambda>p.
     case p of PrimInt value \<Rightarrow> Inr value | PrimFloat _ \<Rightarrow> Inl (Fault (InvalidBuffer ''expected an integer tensor'')))"

definition allocate ::
  "('f, 'i, 'd, 'a, 'm, 'x, 'v) tensor_backend \<Rightarrow> 'd \<Rightarrow> 'v tensor_element \<Rightarrow> nat \<Rightarrow> 'x tensor_device_error fault + ('f, 'i, 'd) tensor_buffer" where
  "allocate be d el len =
     bind_r (validate_type be d el) (\<lambda>_.
     bind_r (checked_length el len) (\<lambda>_.
       if el_dtype el \<in> {F32, F16, BF16} then Inr (wrap_buffer d (PrimFloat (to_empty (tk_float be) len d (el_dtype el))) len)
       else if el_dtype el \<in> {I32, I64, U8, U32} then Inr (wrap_buffer d (PrimInt (to_empty (tk_int be) len d (el_dtype el))) len)
       else Inl (Panic ''sealed collective element type'')))"

definition write_at ::
  "('f, 'i, 'd, 'a, 'm, 'x, 'v) tensor_backend \<Rightarrow> 'd \<Rightarrow> 'v tensor_element \<Rightarrow> ('f, 'i, 'd) tensor_buffer \<Rightarrow> nat \<Rightarrow> 'v list
     \<Rightarrow> 'x tensor_device_error fault + ('f, 'i, 'd) tensor_buffer" where
  "write_at be d el buffer offset values =
     bind_r (validate_buffer d buffer) (\<lambda>_.
     bind_r (checked_range (tb_length buffer) offset (length values)) (\<lambda>(start, fin).
       if \<not> start < fin then Inr buffer
       else (let incoming = from_values be d el values in
         update_buffer buffer (\<lambda>current.
           if start = 0 \<and> fin = tb_length buffer then Inr incoming else primitive_assign be current (start, fin) incoming))))"

definition write_buffer ::
  "('f, 'i, 'd, 'a, 'm, 'x, 'v) tensor_backend \<Rightarrow> 'd \<Rightarrow> 'v tensor_element \<Rightarrow> ('f, 'i, 'd) tensor_buffer \<Rightarrow> 'v list
     \<Rightarrow> 'x tensor_device_error fault + ('f, 'i, 'd) tensor_buffer" where
  "write_buffer be d el buffer values =
     (if length values \<noteq> tb_length buffer then Inl (Fault (InvalidBuffer ''collective full write length mismatch''))
      else write_at be d el buffer 0 values)"

fun read_primitive :: "('f, 'i, 'd, 'a, 'm, 'x, 'v) tensor_backend \<Rightarrow> ('f, 'i) primitive \<Rightarrow> 'x + 'a" where
  "read_primitive be (PrimFloat value) = to_into_data (tk_float be) value"
| "read_primitive be (PrimInt value) = to_into_data (tk_int be) value"

definition download_at ::
  "('f, 'i, 'd, 'a, 'm, 'x, 'v) tensor_backend \<Rightarrow> 'd \<Rightarrow> ('f, 'i, 'd) tensor_buffer \<Rightarrow> nat \<Rightarrow> nat
     \<Rightarrow> 'x tensor_device_error fault + 'v list" where
  "download_at be d buffer offset len =
     bind_r (validate_buffer d buffer) (\<lambda>_.
     bind_r (checked_range (tb_length buffer) offset len) (\<lambda>(start, fin).
       if \<not> start < fin then Inr []
       else bind_r (snapshot buffer) (\<lambda>value.
         let value = (if start \<noteq> 0 \<or> fin \<noteq> tb_length buffer then primitive_slice be value (start, fin) else value) in
         bind_r (map_err (\<lambda>e. Fault (ExecutionError e)) (read_primitive be value)) (\<lambda>data.
           map_err (\<lambda>e. Fault (DataError e)) (tk_into_vec be data)))))"

definition download ::
  "('f, 'i, 'd, 'a, 'm, 'x, 'v) tensor_backend \<Rightarrow> 'd \<Rightarrow> ('f, 'i, 'd) tensor_buffer \<Rightarrow> 'x tensor_device_error fault + 'v list" where
  "download be d buffer = download_at be d buffer 0 (tb_length buffer)"

definition reduction_kernel ::
  "('f, 'i, 'd, 'a, 'm, 'x, 'v) tensor_backend \<Rightarrow> 'd \<Rightarrow> 'v tensor_element \<Rightarrow> reduction_operation
     \<Rightarrow> 'x tensor_device_error fault + reduction_operation" where
  "reduction_kernel be d el operation =
     bind_r (validate_type be d el) (\<lambda>_.
       if el_dtype el \<notin> {I32, I64} \<and> operation \<in> {BitAnd, BitOr, BitXor}
       then Inl (Fault (InvalidOperation ''bitwise reductions require I32 or I64 elements'')) else Inr operation)"

definition prepare :: "'v tensor_element \<Rightarrow> nat \<Rightarrow> nat \<Rightarrow> 'x tensor_device_error fault + tensor_reduction_launch" where
  "prepare el len destination_offset =
     bind_r (ok_or (checked_add 64 destination_offset len) (Fault (InvalidBuffer ''collective reduction range overflow''))) (\<lambda>fin.
     bind_r (checked_length el fin) (\<lambda>_. Inr \<lparr> tl_length = len, tl_destination_offset = destination_offset \<rparr>))"

text \<open>Unordered and equal values keep the destination.\<close>

definition select_by :: "('t, 'd, 'a, 'm, 'x) tensor_ops \<Rightarrow> reduction_operation \<Rightarrow> 't \<Rightarrow> 't \<Rightarrow> 't" where
  "select_by ops operation destination src =
     to_mask_where ops destination (if operation = Minimum then to_lower ops src destination else to_lower ops destination src) src"

fun reduce_primitives ::
  "('f, 'i, 'd, 'a, 'm, 'x, 'v) tensor_backend \<Rightarrow> reduction_operation \<Rightarrow> ('f, 'i) primitive \<Rightarrow> ('f, 'i) primitive
     \<Rightarrow> 'x tensor_device_error fault + ('f, 'i) primitive" where
  "reduce_primitives be operation (PrimFloat destination) (PrimFloat src) =
     (case operation of
        Sum \<Rightarrow> Inr (PrimFloat (to_add (tk_float be) destination src))
      | Product \<Rightarrow> Inr (PrimFloat (to_mul (tk_float be) destination src))
      | Minimum \<Rightarrow> Inr (PrimFloat (select_by (tk_float be) operation destination src))
      | Maximum \<Rightarrow> Inr (PrimFloat (select_by (tk_float be) operation destination src))
      | _ \<Rightarrow> Inl (Panic ''validated floating reduction''))"
| "reduce_primitives be operation (PrimInt destination) (PrimInt src) =
     Inr (PrimInt (case operation of
        Sum \<Rightarrow> to_add (tk_int be) destination src
      | Product \<Rightarrow> to_mul (tk_int be) destination src
      | Minimum \<Rightarrow> select_by (tk_int be) operation destination src
      | Maximum \<Rightarrow> select_by (tk_int be) operation destination src
      | BitAnd \<Rightarrow> tk_bitwise_and be destination src
      | BitOr \<Rightarrow> tk_bitwise_or be destination src
      | BitXor \<Rightarrow> tk_bitwise_xor be destination src))"
| "reduce_primitives be operation _ _ = Inl (Panic ''typed collective buffer storage kind'')"

definition reduce_buffers ::
  "('f, 'i, 'd, 'a, 'm, 'x, 'v) tensor_backend \<Rightarrow> 'd \<Rightarrow> 'v tensor_element \<Rightarrow> reduction_operation \<Rightarrow> tensor_reduction_launch \<Rightarrow> bool
     \<Rightarrow> ('f, 'i, 'd) tensor_buffer \<Rightarrow> ('f, 'i, 'd) tensor_buffer \<Rightarrow> 'x tensor_device_error fault + ('f, 'i, 'd) tensor_buffer" where
  "reduce_buffers be d el operation launch shared src destination =
     bind_r (validate_buffer d src) (\<lambda>_.
     bind_r (validate_buffer d destination) (\<lambda>_.
     bind_r (reduction_kernel be d el operation) (\<lambda>_.
     bind_r (checked_range (tb_length src) 0 (tl_length launch)) (\<lambda>source_range.
     bind_r (checked_range (tb_length destination) (tl_destination_offset launch) (tl_length launch)) (\<lambda>target_range.
       if tl_length launch = 0 then Inr destination
       else (let app = (\<lambda>current incoming.
               if fst target_range = 0 \<and> snd target_range = tb_length destination then reduce_primitives be operation current incoming
               else bind_r (reduce_primitives be operation (primitive_slice be current target_range) incoming) (\<lambda>reduced.
                 primitive_assign be current target_range reduced)) in
         if shared then update_buffer destination (\<lambda>current. app current (primitive_slice be current source_range))
         else bind_r (snapshot src) (\<lambda>incoming.
           let incoming = (if tl_length launch \<noteq> tb_length src then primitive_slice be incoming source_range else incoming) in
           update_buffer destination (\<lambda>current. app current incoming))))))))"

text \<open>\<open>impl RankDevice for TensorDevice\<close>: writes and launches wait for the backend. Collectives reduce from a fresh scratch
  buffer, which shares no storage with the destination.\<close>

definition copy_bytes_to_device_at ::
  "('f, 'i, 'd, 'a, 'm, 'x, 'v) tensor_backend \<Rightarrow> 'd \<Rightarrow> 'v tensor_element \<Rightarrow> ('f, 'i, 'd) tensor_buffer \<Rightarrow> nat \<Rightarrow> bytes
     \<Rightarrow> 'x tensor_device_error fault + ('f, 'i, 'd) tensor_buffer" where
  "copy_bytes_to_device_at be d el buffer element_offset values =
     bind_r (decode_elements el values) (\<lambda>decoded.
     bind_r (write_at be d el buffer element_offset decoded) (\<lambda>buffer.
     bind_r (synchronize be d) (\<lambda>_. Inr buffer)))"

definition copy_to_device ::
  "('f, 'i, 'd, 'a, 'm, 'x, 'v) tensor_backend \<Rightarrow> 'd \<Rightarrow> 'v tensor_element \<Rightarrow> ('f, 'i, 'd) tensor_buffer \<Rightarrow> 'v list
     \<Rightarrow> 'x tensor_device_error fault + ('f, 'i, 'd) tensor_buffer" where
  "copy_to_device be d el buffer values =
     bind_r (write_buffer be d el buffer values) (\<lambda>buffer. bind_r (synchronize be d) (\<lambda>_. Inr buffer))"

definition launch_reduction ::
  "('f, 'i, 'd, 'a, 'm, 'x, 'v) tensor_backend \<Rightarrow> 'd \<Rightarrow> 'v tensor_element \<Rightarrow> reduction_operation \<Rightarrow> tensor_reduction_launch
     \<Rightarrow> ('f, 'i, 'd) tensor_buffer \<Rightarrow> ('f, 'i, 'd) tensor_buffer \<Rightarrow> 'x tensor_device_error fault + ('f, 'i, 'd) tensor_buffer" where
  "launch_reduction be d el krn launch src destination =
     bind_r (reduce_buffers be d el krn launch False src destination) (\<lambda>destination. bind_r (synchronize be d) (\<lambda>_. Inr destination))"

definition tensor_rank_device ::
  "('f, 'i, 'd, 'a, 'm, 'x, 'v) tensor_backend \<Rightarrow> 'd \<Rightarrow> 'v tensor_element
     \<Rightarrow> (('f, 'i, 'd) tensor_buffer, reduction_operation, tensor_reduction_launch, 'x tensor_device_error fault) rank_device" where
  "tensor_rank_device be d el =
     \<lparr> rd_element_size = el_size el, rd_buffer_len = tb_length, rd_alloc = allocate be d el,
       rd_copy_bytes_to_device_at = copy_bytes_to_device_at be d el,
       rd_copy_bytes_from_device_at = (\<lambda>buffer offset len. map_sum id (encode_elements el) (download_at be d buffer offset len)),
       rd_prepare_reduction = prepare el, rd_launch_reduction = launch_reduction be d el \<rparr>"

section \<open>Integer tensors\<close>

text \<open>The elements of an integer buffer, and the buffers that this device made and checked.\<close>

definition buffer_values :: "('i \<Rightarrow> 'v list) \<Rightarrow> ('f, 'i, 'd) tensor_buffer \<Rightarrow> 'v list" where
  "buffer_values tvals b = (case tb_value b of Some (PrimInt t) \<Rightarrow> tvals t | _ \<Rightarrow> [])"

definition buffer_valid :: "('i \<Rightarrow> 'v list) \<Rightarrow> 'd \<Rightarrow> 'v tensor_element \<Rightarrow> ('f, 'i, 'd) tensor_buffer \<Rightarrow> bool" where
  "buffer_valid tvals d el b \<longleftrightarrow> tb_device b = d \<and>
     (case tb_value b of Some (PrimInt t) \<Rightarrow> length (tvals t) = tb_length b | _ \<Rightarrow> False) \<and> tb_length b * el_size el < 2 ^ 63"

lemma buffer_validE:
  assumes "buffer_valid tvals d el b"
  obtains t where "tb_value b = Some (PrimInt t)" "length (tvals t) = tb_length b" "tb_device b = d" "tb_length b * el_size el < 2 ^ 63"
    "buffer_values tvals b = tvals t"
  using assms by (auto simp: buffer_valid_def buffer_values_def split: option.splits primitive.splits)

lemma encode_elements_eq: "encode_elements el vs = concat (map (el_append_le el) vs)"
proof -
  have "fold (\<lambda>v bytes. bytes @ el_append_le el v) vs bs = bs @ concat (map (el_append_le el) vs)" for bs
    by (induction vs arbitrary: bs) simp_all
  then show ?thesis by (simp add: encode_elements_def)
qed

lemma checked_length_ok: "len * el_size el < 2 ^ 63 \<Longrightarrow> checked_length el len = Inr ()"
  by (simp add: checked_length_def checked_mul_def)

lemma checked_range_ok: "off + len \<le> tot \<Longrightarrow> tot < 2 ^ 64 \<Longrightarrow> checked_range tot off len = Inr (off, off + len)"
  by (simp add: checked_range_def checked_add_def)

text \<open>What the device relies on of a backend: rank-one integer tensors hold the elements of their data, slices and assignments
  are those of the elements, adding is elementwise, work completes, and an element's wire format has its width and reads back.\<close>

locale integer_tensors =
  fixes be :: "('f, 'i, 'd, 'a, 'm, 'x, 'v :: comm_monoid_add) tensor_backend" and d :: 'd and el :: "'v tensor_element" and tvals :: "'i \<Rightarrow> 'v list"
  assumes supports: "tk_supports_dtype be d (el_dtype el)"
    and sync: "tk_sync be d = Inr ()"
    and kind: "el_dtype el \<in> {U8, U32, I32, I64}"
    and width: "0 < el_size el"
    and append_length: "length (el_append_le el v) = el_size el"
    and read_append: "el_read_le el (el_append_le el v) = v"
    and slice: "i \<le> j \<Longrightarrow> j \<le> length (tvals t) \<Longrightarrow> tvals (to_slice (tk_int be) t (i, j)) = subslice i j (tvals t)"
    and assign: "i + length (tvals u) \<le> length (tvals t) \<Longrightarrow>
      tvals (to_slice_assign (tk_int be) t (i, i + length (tvals u)) u) = copy_at (tvals t) i (tvals u)"
    and empty: "length (tvals (to_empty (tk_int be) l d (el_dtype el))) = l"
    and from_data: "tvals (to_from_data (tk_int be) (tk_data_new be vs [length vs]) d) = vs"
    and into_data: "\<exists>data. to_into_data (tk_int be) t = Inr data \<and> tk_into_vec be data = Inr (tvals t)"
    and add: "length (tvals t) = length (tvals u) \<Longrightarrow> tvals (to_add (tk_int be) t u) = map2 (+) (tvals t) (tvals u)"
begin

abbreviation valid where "valid \<equiv> buffer_valid tvals d el"

abbreviation vals where "vals \<equiv> buffer_values tvals"

lemma sync_ok: "synchronize be d = Inr ()"
  by (simp add: synchronize_def sync)

lemma validate_ok: "validate_type be d el = Inr ()"
  by (simp add: validate_type_def supports)

lemma decode_encode: "decode_elements el (encode_elements el vs) = Inr vs"
  using concat_map_chunks[of "el_append_le el" "el_size el" vs] width
  by (simp add: decode_elements_def encode_elements_eq append_length read_append comp_def)

lemma encode_length: "length (encode_elements el vs) = length vs * el_size el"
  using concat_map_chunks(2)[of "el_append_le el" "el_size el" vs] width by (simp add: encode_elements_eq append_length mult.commute)

lemma length_bound: "tb_length b * el_size el < 2 ^ 63 \<Longrightarrow> tb_length b < 2 ^ 64"
proof -
  assume "tb_length b * el_size el < 2 ^ 63"
  moreover have "tb_length b \<le> tb_length b * el_size el" using width by simp
  moreover have "(2 :: nat) ^ 63 < 2 ^ 64" by simp
  ultimately show ?thesis by linarith
qed

lemma from_values_int: "from_values be d el vs = PrimInt (to_from_data (tk_int be) (tk_data_new be vs [length vs]) d)"
  using kind by (auto simp: from_values_def Let_def)

lemma allocate_ok:
  assumes "l * el_size el < 2 ^ 63"
  shows "\<exists>b. allocate be d el l = Inr b \<and> valid b \<and> length (vals b) = l"
  using kind assms validate_ok
  by (auto simp: allocate_def checked_length_ok wrap_buffer_def buffer_valid_def buffer_values_def empty)

lemma write_at_ok:
  assumes "valid b" "off + length vs \<le> length (vals b)"
  shows "\<exists>b'. write_at be d el b off vs = Inr b' \<and> valid b' \<and> vals b' = copy_at (vals b) off vs"
  using assms(1)
proof (cases rule: buffer_validE)
  case (1 t)
  have fits: "off + length vs \<le> tb_length b" using assms(2) 1(2,5) by simp
  note r = checked_range_ok[OF fits length_bound[OF 1(4)]]
  define u where "u = to_from_data (tk_int be) (tk_data_new be vs [length vs]) d"
  have u: "tvals u = vs" by (simp add: u_def from_data)
  have w: "tvals (to_slice_assign (tk_int be) t (off, off + length vs) u) = copy_at (tvals t) off vs"
    using assign[of off u t] u fits 1(2) by simp
  have l: "length (copy_at (tvals t) off vs) = tb_length b" using length_copy_at[of off vs "tvals t"] fits 1(2) by simp
  have full: "copy_at (tvals t) off vs = vs" if "off = 0" "length vs = tb_length b" using that 1(2) by (simp add: copy_at_def)
  show ?thesis
  proof (cases "vs = []")
    case True
    then show ?thesis using assms(1) 1(3) by (simp add: write_at_def r[unfolded True list.size add_0_right] validate_buffer_def)
  next
    case False
    define v where "v = (if off = 0 \<and> off + length vs = tb_length b then u else to_slice_assign (tk_int be) t (off, off + length vs) u)"
    have "write_at be d el b off vs = Inr (b\<lparr>tb_value := Some (PrimInt v)\<rparr>)"
      using 1(1,3) False by (simp add: write_at_def r validate_buffer_def update_buffer_def from_values_int u_def[symmetric] v_def)
    moreover have "tvals v = copy_at (tvals t) off vs" using u w full by (auto simp: v_def)
    ultimately show ?thesis using 1(3-5) l by (simp add: buffer_valid_def buffer_values_def)
  qed
qed

lemma download_at_ok:
  assumes "valid b" "off + l \<le> length (vals b)"
  shows "download_at be d b off l = Inr (subslice off (off + l) (vals b))"
  using assms(1)
proof (cases rule: buffer_validE)
  case (1 t)
  have fits: "off + l \<le> tb_length b" using assms(2) 1(2,5) by simp
  note r = checked_range_ok[OF fits length_bound[OF 1(4)]]
  have sl: "tvals (to_slice (tk_int be) t (off, off + l)) = subslice off (off + l) (tvals t)" using slice[of off "off + l" t] fits 1(2) by simp
  obtain data1 where d1: "to_into_data (tk_int be) (to_slice (tk_int be) t (off, off + l)) = Inr data1" "tk_into_vec be data1 = Inr (subslice off (off + l) (tvals t))"
    using into_data[of "to_slice (tk_int be) t (off, off + l)"] sl by auto
  obtain data2 where d2: "to_into_data (tk_int be) t = Inr data2" "tk_into_vec be data2 = Inr (tvals t)" using into_data[of t] by auto
  have full: "subslice off (off + l) (tvals t) = tvals t" if "off = 0" "l = tb_length b" using that 1(2) by (simp add: subslice_def)
  show ?thesis
  proof (cases "l = 0")
    case True
    then show ?thesis using 1 by (simp add: download_at_def r[unfolded True add_0_right] validate_buffer_def subslice_def)
  next
    case False
    then show ?thesis using 1 d1 d2 full by (auto simp: download_at_def r validate_buffer_def snapshot_def Let_def)
  qed
qed

lemma reduce_ok:
  assumes "valid src" "valid dst" "length (vals src) = l" "off + l \<le> length (vals dst)"
  shows "\<exists>ln b. prepare el l off = Inr ln \<and> launch_reduction be d el Sum ln src dst = Inr b \<and> valid b \<and>
    vals b = copy_at (vals dst) off (map2 (+) (subslice off (off + l) (vals dst)) (vals src))"
proof -
  obtain s where s: "tb_value src = Some (PrimInt s)" "length (tvals s) = tb_length src" "tb_device src = d" "tb_length src * el_size el < 2 ^ 63" "vals src = tvals s"
    using assms(1) by (rule buffer_validE)
  obtain t where t: "tb_value dst = Some (PrimInt t)" "length (tvals t) = tb_length dst" "tb_device dst = d" "tb_length dst * el_size el < 2 ^ 63" "vals dst = tvals t"
    using assms(2) by (rule buffer_validE)
  have fits: "off + l \<le> tb_length dst" and l: "tb_length src = l" using assms(3,4) s t by simp_all
  note r = checked_range_ok[OF fits length_bound[OF t(4)]]
  have "0 + l \<le> tb_length src" using l by simp
  note r0 = checked_range_ok[OF this length_bound[OF s(4)], unfolded add_0 l]
  have k: "reduction_kernel be d el Sum = Inr Sum" by (simp add: reduction_kernel_def validate_ok)
  have "(off + l) * el_size el < 2 ^ 63" using mult_le_mono1[OF fits, of "el_size el"] t(4) by linarith
  then have p: "prepare el l off = Inr \<lparr>tl_length = l, tl_destination_offset = off\<rparr>"
    using fits length_bound[OF t(4)] by (simp add: prepare_def checked_add_def checked_length_ok)
  let ?sl = "to_slice (tk_int be) t (off, off + l)"
  have sl: "tvals ?sl = subslice off (off + l) (tvals t)" using slice[of off "off + l" t] fits t(2) by simp
  have sum: "tvals (to_add (tk_int be) ?sl s) = map2 (+) (subslice off (off + l) (tvals t)) (tvals s)"
    using add[of ?sl s] sl fits t(2) s(2) l by (simp add: subslice_def)
  then have lsum: "length (tvals (to_add (tk_int be) ?sl s)) = l" using fits t(2) s(2) l by (simp add: subslice_def)
  have asg: "tvals (to_slice_assign (tk_int be) t (off, off + l) (to_add (tk_int be) ?sl s)) =
      copy_at (tvals t) off (map2 (+) (subslice off (off + l) (tvals t)) (tvals s))"
    using assign[of off "to_add (tk_int be) ?sl s" t] lsum sum fits t(2) by simp
  have len: "length (copy_at (tvals t) off (map2 (+) (subslice off (off + l) (tvals t)) (tvals s))) = tb_length dst"
    using length_copy_at[of off "map2 (+) (subslice off (off + l) (tvals t)) (tvals s)" "tvals t"] fits t(2) s(2) l by (simp add: subslice_def)
  have full: "tvals (to_add (tk_int be) t s) = copy_at (tvals t) off (map2 (+) (subslice off (off + l) (tvals t)) (tvals s))"
    if "off = 0" "l = tb_length dst" using that add[of t s] s(2) t(2) l by (simp add: copy_at_def subslice_def)
  have nil: "copy_at (tvals t) off (map2 (+) (subslice off (off + l) (tvals t)) (tvals s)) = tvals t" if "l = 0" using that by (simp add: subslice_def copy_at_def)
  have "\<exists>b. reduce_buffers be d el Sum \<lparr>tl_length = l, tl_destination_offset = off\<rparr> False src dst = Inr b \<and> valid b \<and>
      vals b = copy_at (tvals t) off (map2 (+) (subslice off (off + l) (tvals t)) (tvals s))"
  proof (cases "l = 0")
    case True
    have "reduce_buffers be d el Sum \<lparr>tl_length = l, tl_destination_offset = off\<rparr> False src dst = Inr dst"
      using s(3) t(3) l k True by (simp add: reduce_buffers_def r[unfolded True] r0[unfolded True] validate_buffer_def)
    then show ?thesis using assms(2) t(5) nil[OF True] by simp
  next
    case False
    define v where "v = (if off = 0 \<and> off + l = tb_length dst then to_add (tk_int be) t s
      else to_slice_assign (tk_int be) t (off, off + l) (to_add (tk_int be) ?sl s))"
    have "reduce_buffers be d el Sum \<lparr>tl_length = l, tl_destination_offset = off\<rparr> False src dst = Inr (dst\<lparr>tb_value := Some (PrimInt v)\<rparr>)"
      using s(1,3) t(1,3) l k False by (simp add: reduce_buffers_def r r0 validate_buffer_def snapshot_def update_buffer_def v_def)
    moreover have "tvals v = copy_at (tvals t) off (map2 (+) (subslice off (off + l) (tvals t)) (tvals s))"
      using full asg by (auto simp: v_def)
    ultimately show ?thesis using t(3,4) len by (simp add: buffer_valid_def buffer_values_def)
  qed
  then show ?thesis using p s(5) t(5) by (auto simp: launch_reduction_def sync_ok)
qed

end

sublocale integer_tensors \<subseteq> dev: device_buffers "tensor_rank_device be d el" "buffer_valid tvals d el" "buffer_values tvals" "encode_elements el" Sum
proof unfold_locales
  show "0 < rd_element_size (tensor_rank_device be d el)" by (simp add: tensor_rank_device_def width)
  fix b s l xs src dst off
  show "valid b \<Longrightarrow> rd_buffer_len (tensor_rank_device be d el) b = length (vals b)"
    by (auto simp: tensor_rank_device_def elim: buffer_validE)
  show "valid b \<Longrightarrow> length (vals b) * rd_element_size (tensor_rank_device be d el) < 2 ^ 63"
    by (auto simp: tensor_rank_device_def elim: buffer_validE)
  show "length (encode_elements el xs) = length xs * rd_element_size (tensor_rank_device be d el)"
    by (simp add: tensor_rank_device_def encode_length)
  show "valid b \<Longrightarrow> s + l \<le> length (vals b) \<Longrightarrow>
      rd_copy_bytes_from_device_at (tensor_rank_device be d el) b s l = Inr (encode_elements el (subslice s (s + l) (vals b)))"
    by (simp add: tensor_rank_device_def download_at_ok)
  show "valid b \<Longrightarrow> s + length xs \<le> length (vals b) \<Longrightarrow>
      \<exists>b'. rd_copy_bytes_to_device_at (tensor_rank_device be d el) b s (encode_elements el xs) = Inr b' \<and> valid b' \<and> vals b' = copy_at (vals b) s xs"
    using write_at_ok[of b s xs] by (auto simp: tensor_rank_device_def copy_bytes_to_device_at_def decode_encode sync_ok)
  show "l * rd_element_size (tensor_rank_device be d el) < 2 ^ 63 \<Longrightarrow> \<exists>b. rd_alloc (tensor_rank_device be d el) l = Inr b \<and> valid b \<and> length (vals b) = l"
    using allocate_ok[of l] by (simp add: tensor_rank_device_def)
  show "valid src \<Longrightarrow> valid dst \<Longrightarrow> length (vals src) = l \<Longrightarrow> off + l \<le> length (vals dst) \<Longrightarrow>
      \<exists>ln d'. rd_prepare_reduction (tensor_rank_device be d el) l off = Inr ln \<and>
        rd_launch_reduction (tensor_rank_device be d el) Sum ln src dst = Inr d' \<and> valid d' \<and>
        vals d' = copy_at (vals dst) off (map2 (+) (subslice off (off + l) (vals dst)) (vals src))"
    using reduce_ok[of src dst l off] by (simp add: tensor_rank_device_def)
qed

context integer_tensors
begin

text \<open>The ring collectives of one channel on this device.\<close>

lemma dev_sized: "dev.sized N b \<longleftrightarrow> valid b \<and> length (vals b) = N"
  by (rule dev.sized_def)

lemma dev_size: "rd_element_size (tensor_rank_device be d el) = el_size el"
  by (simp add: tensor_rank_device_def)

lemmas ring_all_reduce = dev.all_reduce_scripts[unfolded dev_sized dev_size]
lemmas ring_reduce_scatter = dev.reduce_scatter_scripts[unfolded dev_sized dev_size]
lemmas ring_all_gather = dev.all_gather_scripts[unfolded dev_sized dev_size]

lemma contract: "device_buffers (tensor_rank_device be d el) (buffer_valid tvals d el) (buffer_values tvals) (encode_elements el) Sum"
  by (rule dev.device_buffers_axioms)

lemma download_ok: "valid b \<Longrightarrow> download be d b = Inr (vals b)"
proof -
  assume b: "valid b"
  then have "tb_length b = length (vals b)" by (auto elim: buffer_validE)
  then show ?thesis using download_at_ok[OF b, of 0 "tb_length b"] by (simp add: download_def subslice_def)
qed

lemma upload_ok:
  assumes "length vs * el_size el < 2 ^ 63"
  shows "\<exists>b. upload be d el vs = Inr b \<and> valid b \<and> vals b = vs"
  using assms validate_ok
  by (simp add: upload_def checked_length_ok wrap_buffer_def from_values_int buffer_valid_def buffer_values_def from_data)

end

section \<open>Tensors as lists of words\<close>

text \<open>A backend whose tensors are the lists of their elements.\<close>

definition list_ops :: "('w::len word list, unit, 'w word list, bool list, string) tensor_ops" where
  "list_ops = \<lparr> to_dtype = (\<lambda>t. I64), to_shape = (\<lambda>t. [length t]), to_device = (\<lambda>t. ()), to_slice = (\<lambda>t (i, j). subslice i j t),
     to_slice_assign = (\<lambda>t (i, j) u. copy_at t i u), to_empty = (\<lambda>n d dt. replicate n 0), to_from_data = (\<lambda>a d. a), to_into_data = Inr,
     to_add = map2 (+), to_mul = map2 (*), to_lower = map2 (<), to_mask_where = (\<lambda>t m u. map2 (\<lambda>x (c, y). if c then y else x) t (zip m u)) \<rparr>"

definition list_backend ::
  "('w::len word list, 'w word list, unit, 'w word list, bool list, string, 'w word) tensor_backend" where
  "list_backend = \<lparr> tk_float = list_ops, tk_int = list_ops, tk_supports_dtype = (\<lambda>d dt. dt \<in> {U8, U32, I32, I64}), tk_sync = (\<lambda>d. Inr ()),
     tk_bitwise_and = map2 (AND), tk_bitwise_or = map2 (OR), tk_bitwise_xor = map2 (XOR), tk_data_new = (\<lambda>vs shape. vs), tk_into_vec = Inr \<rparr>"

lemma list_tensors:
  assumes "LENGTH('w) = 8 * n" "dt \<in> {U8, U32, I32, I64}"
  shows "integer_tensors list_backend () (wire_element dt :: 'w::len word tensor_element) id"
proof -
  have "0 < n" using assms(1) len_gt_0[where ?'a = 'w] by simp
  moreover have "from_le_bytes (le_bytes n v) = v" for v :: "'w word" using assms(1) by (rule from_le_bytes_le_bytes)
  ultimately show ?thesis using assms by unfold_locales (auto simp: list_backend_def list_ops_def wire_element_def)
qed

interpretation u8_tensors: integer_tensors list_backend "()" "wire_element U8 :: 8 word tensor_element" id
  by (rule list_tensors[of 1]) simp_all
interpretation u32_tensors: integer_tensors list_backend "()" "wire_element U32 :: 32 word tensor_element" id
  by (rule list_tensors[of 4]) simp_all
interpretation i32_tensors: integer_tensors list_backend "()" "wire_element I32 :: 32 word tensor_element" id
  by (rule list_tensors[of 4]) simp_all
interpretation i64_tensors: integer_tensors list_backend "()" "wire_element I64 :: 64 word tensor_element" id
  by (rule list_tensors[of 8]) simp_all

section \<open>Properties\<close>

text \<open>Three ranks on a ring that is not the identity.\<close>

definition sample_collective ::
  "((64 word list, 64 word list, unit) tensor_buffer, reduction_operation, tensor_reduction_launch, string tensor_device_error fault, script) device_collective" where
  "sample_collective =
     \<lparr> dc_execution = tensor_rank_device list_backend () (wire_element I64), dc_session = script_session,
       dc_tuning = sample_tuning\<lparr>tu_ring_orders := [[2, 0, 1]]\<rparr>, dc_collective_rail_order = [1, 0], dc_element_type = I64,
       dc_rank = 0, dc_world_size = 3 \<rparr>"

definition sample_buffer :: "64 word list \<Rightarrow> (64 word list, 64 word list, unit) tensor_buffer" where
  "sample_buffer vs = wrap_buffer () (PrimInt vs) (length vs)"

lemma sample_collective_world: "ring_world sample_collective 5 3" "dc_execution sample_collective = tensor_rank_device list_backend () (wire_element I64)"
  by (auto simp: sample_collective_def ring_world_def ring_order_for_channel_def lessThan_nat_numeral lessThan_Suc)

lemma i64_width: "el_size (wire_element I64 :: 64 word tensor_element) = 8"
  by (simp add: wire_element_def)

lemma sample_buffer_ok:
  "length vs < 2 ^ 60 \<Longrightarrow> buffer_valid id () (wire_element I64) (sample_buffer vs)" "buffer_values id (sample_buffer vs) = vs"
  by (simp_all add: sample_buffer_def wrap_buffer_def buffer_valid_def buffer_values_def wire_element_def)

text \<open>C36. The tensor device keeps the contract of a rank device for integer elements, whatever backend: sizes and encodings agree,
  copies in and out of a valid buffer return its elements and change exactly the named range, an allocation that
  fits the address space succeeds, the summing kernel adds elementwise, and buffers stay valid.\<close>

theorem tensor_device_contract:
  assumes "integer_tensors be d el tvals"
  shows "device_buffers (tensor_rank_device be d el) (buffer_valid tvals d el) (buffer_values tvals) (encode_elements el) Sum \<and>
    (\<forall>vs. decode_elements el (encode_elements el vs) = Inr vs) \<and>
    (\<forall>vs. length vs * el_size el < 2 ^ 63 \<longrightarrow> (\<exists>b. upload be d el vs = Inr b \<and> buffer_valid tvals d el b \<and> download be d b = Inr vs))"
proof (intro conjI allI impI)
  show "device_buffers (tensor_rank_device be d el) (buffer_valid tvals d el) (buffer_values tvals) (encode_elements el) Sum"
    by (rule integer_tensors.contract[OF assms])
  fix vs
  show "decode_elements el (encode_elements el vs) = Inr vs" by (rule integer_tensors.decode_encode[OF assms])
  assume "length vs * el_size el < 2 ^ 63"
  then show "\<exists>b. upload be d el vs = Inr b \<and> buffer_valid tvals d el b \<and> download be d b = Inr vs"
    using integer_tensors.upload_ok[OF assms, of vs] integer_tensors.download_ok[OF assms] by fastforce
qed

theorem tensor_device_contract_witness:
  "\<exists>b. upload list_backend () (wire_element I64) [7, -1 :: 64 word] = Inr b \<and> download list_backend () b = Inr [7, -1]"
proof -
  have "length [7, -1 :: 64 word] * el_size (wire_element I64 :: 64 word tensor_element) < 2 ^ 63" by (simp add: wire_element_def)
  then show ?thesis using tensor_device_contract[OF i64_tensors.integer_tensors_axioms] by blast
qed

text \<open>C8. Ring all-reduce. On every rank of a ring, whatever the order of the ring, one channel of the all-reduce completes when
  each rank receives, in order, exactly the messages that the others address to it; every rank then holds the
  sum of all ranks in the channel's range and its own elements elsewhere, no message is left over, and at most
  \<open>2 (n - 1)\<close> kernels were launched.\<close>

theorem ring_all_reduce_sums:
  assumes "integer_tensors be d el tvals" "dc_execution dc = tensor_rank_device be d el" "ring_world dc channel n"
    "fst crange \<le> snd crange" "snd crange \<le> N"
    "\<forall>r < n. buffer_valid tvals d el (buf r) \<and> length (buffer_values tvals (buf r)) = N"
    "2 * ((n - 1) * (2 * (N * el_size el))) < 2 ^ 64" "2 * (n - 1) < 2 ^ 32"
  shows "\<exists>sent out. \<forall>r < n. (\<exists>T L. all_reduce_ring_channel (dc\<lparr>dc_rank := r\<rparr>) Sum (buf r) crange operation channel ([], delivered n sent r) =
      Inr ((sent r, []), out r, T, L) \<and> T \<le> 4 * (n - 1) * (N * el_size el) \<and> L \<le> 2 * (n - 1)) \<and>
    buffer_values tvals (out r) = map (\<lambda>x. if fst crange \<le> x \<and> x < snd crange then \<Sum>s < n. buffer_values tvals (buf s) ! x
      else buffer_values tvals (buf r) ! x) [0..<N]"
  by (rule integer_tensors.ring_all_reduce[OF assms])

theorem ring_all_reduce_sums_witness:
  "\<exists>sent out. \<forall>r < 3. (\<exists>T L. all_reduce_ring_channel (sample_collective\<lparr>dc_rank := r\<rparr>) Sum (sample_buffer [of_nat r, 2, -1, 5]) (1, 4) 9 5
      ([], delivered 3 sent r) = Inr ((sent r, []), out r, T, L)) \<and> buffer_values id (out r) = [of_nat r, 6, -3, 15]"
proof -
  have "\<exists>sent out. \<forall>r < 3. (\<exists>T L. all_reduce_ring_channel (sample_collective\<lparr>dc_rank := r\<rparr>) Sum (sample_buffer [of_nat r, 2, -1, 5]) (1, 4) 9 5
      ([], delivered 3 sent r) = Inr ((sent r, []), out r, T, L) \<and> T \<le> 4 * (3 - 1) * (4 * el_size (wire_element I64 :: 64 word tensor_element)) \<and> L \<le> 2 * (3 - 1)) \<and>
    buffer_values id (out r) = map (\<lambda>x. if fst (1 :: nat, 4 :: nat) \<le> x \<and> x < snd (1 :: nat, 4 :: nat) then \<Sum>s < 3. buffer_values id (sample_buffer [of_nat s, 2, -1, 5]) ! x
      else buffer_values id (sample_buffer [of_nat r, 2, -1, 5]) ! x) [0..<4]"
    by (rule ring_all_reduce_sums[OF i64_tensors.integer_tensors_axioms sample_collective_world(2,1)]) (simp_all add: sample_buffer_ok i64_width)
  moreover have "map (\<lambda>x. if fst (1 :: nat, 4 :: nat) \<le> x \<and> x < snd (1 :: nat, 4 :: nat) then \<Sum>s < 3. buffer_values id (sample_buffer [of_nat s, 2, -1, 5]) ! x
      else buffer_values id (sample_buffer [of_nat r, 2, -1, 5]) ! x) [0..<4] = [of_nat r, 6, -3, 15]" for r
    by (simp add: sample_buffer_ok upt_rec)
  ultimately show ?thesis by (simp only:) blast
qed

text \<open>C37. Ring reduce-scatter. Every rank of the ring completes its channel with the messages addressed to it and writes into the
  channel's range of its output the sum over all ranks of the elements of its own block; the rest of the output
  is unchanged.\<close>

theorem ring_reduce_scatter_sums:
  assumes "integer_tensors be d el tvals" "dc_execution dc = tensor_rank_device be d el" "ring_world dc channel n"
    "fst crange \<le> snd crange" "snd crange \<le> len"
    "\<forall>r < n. buffer_valid tvals d el (buf r) \<and> length (buffer_values tvals (buf r)) = n * len"
    "\<forall>r < n. buffer_valid tvals d el (out r) \<and> length (buffer_values tvals (out r)) = len"
    "(n - 1) * (2 * (n * len * el_size el)) < 2 ^ 64" "n - 1 < 2 ^ 32"
  shows "\<exists>sent res. \<forall>r < n. (\<exists>w T L. reduce_scatter_ring_channel (dc\<lparr>dc_rank := r\<rparr>) Sum (buf r) (out r) len crange operation channel ([], delivered n sent r) =
      Inr ((sent r, []), w, res r, T, L)) \<and>
    buffer_values tvals (res r) = copy_at (buffer_values tvals (out r)) (fst crange)
      (map (\<lambda>x. \<Sum>s < n. buffer_values tvals (buf s) ! (r * len + x)) [fst crange..<snd crange])"
  by (rule integer_tensors.ring_reduce_scatter[OF assms])

theorem ring_reduce_scatter_sums_witness:
  "\<exists>sent res. \<forall>r < 3. (\<exists>w T L. reduce_scatter_ring_channel (sample_collective\<lparr>dc_rank := r\<rparr>) Sum (sample_buffer [1, 2, 3, 4, 5, of_nat r]) (sample_buffer [0, 0])
      2 (1, 2) 9 5 ([], delivered 3 sent r) = Inr ((sent r, []), w, res r, T, L)) \<and> buffer_values id (res r) = [0, [6, 12, 3] ! r]"
proof -
  have "\<exists>sent res. \<forall>r < 3. (\<exists>w T L. reduce_scatter_ring_channel (sample_collective\<lparr>dc_rank := r\<rparr>) Sum (sample_buffer [1, 2, 3, 4, 5, of_nat r]) (sample_buffer [0, 0])
      2 (1, 2) 9 5 ([], delivered 3 sent r) = Inr ((sent r, []), w, res r, T, L)) \<and>
    buffer_values id (res r) = copy_at (buffer_values id (sample_buffer [0, 0])) (fst (1 :: nat, 2 :: nat))
      (map (\<lambda>x. \<Sum>s < 3. buffer_values id (sample_buffer [1, 2, 3, 4, 5, of_nat s]) ! (r * 2 + x)) [fst (1 :: nat, 2 :: nat)..<snd (1 :: nat, 2 :: nat)])"
    by (rule ring_reduce_scatter_sums[OF i64_tensors.integer_tensors_axioms sample_collective_world(2,1)]) (simp_all add: sample_buffer_ok i64_width)
  moreover have "copy_at (buffer_values id (sample_buffer [0, 0])) (fst (1 :: nat, 2 :: nat))
      (map (\<lambda>x. \<Sum>s < 3. buffer_values id (sample_buffer [1, 2, 3, 4, 5, of_nat s]) ! (r * 2 + x)) [fst (1 :: nat, 2 :: nat)..<snd (1 :: nat, 2 :: nat)]) =
      [0, [6, 12, 3] ! r]" if "r < 3" for r
  proof -
    have "r = 0 \<or> r = 1 \<or> r = 2" using that by linarith
    then show ?thesis by (auto simp: sample_buffer_ok copy_at_def upt_rec numeral_3_eq_3)
  qed
  ultimately show ?thesis by (simp cong: conj_cong imp_cong) 
qed

text \<open>C38. Ring all-gather. Every rank of the ring completes its channel with the messages addressed to it; afterwards the channel's
  range of every block holds what the rank of that block had there, and all other elements are unchanged.\<close>

theorem ring_all_gather_collects:
  assumes "integer_tensors be d el tvals" "dc_execution dc = tensor_rank_device be d el" "ring_world dc channel n"
    "fst crange \<le> snd crange" "snd crange \<le> len"
    "\<forall>r < n. buffer_valid tvals d el (buf r) \<and> length (buffer_values tvals (buf r)) = n * len"
    "(n - 1) * (2 * (n * len * el_size el)) < 2 ^ 64" "n - 1 < 2 ^ 32"
  shows "\<exists>sent out. \<forall>r < n. (\<exists>T. all_gather_ring_channel (dc\<lparr>dc_rank := r\<rparr>) (buf r) len crange operation channel ([], delivered n sent r) =
      Inr ((sent r, []), out r, T)) \<and>
    buffer_values tvals (out r) = map (\<lambda>x. if fst crange \<le> x mod len \<and> x mod len < snd crange then buffer_values tvals (buf (x div len)) ! x
      else buffer_values tvals (buf r) ! x) [0..<n * len]"
  by (rule integer_tensors.ring_all_gather[OF assms])

theorem ring_all_gather_collects_witness:
  "\<exists>sent out. \<forall>r < 3. (\<exists>T. all_gather_ring_channel (sample_collective\<lparr>dc_rank := r\<rparr>) (sample_buffer (replicate 3 (of_nat r))) 1 (0, 1) 9 5
      ([], delivered 3 sent r) = Inr ((sent r, []), out r, T)) \<and> buffer_values id (out r) = [0, 1, 2]"
proof -
  have "\<exists>sent out. \<forall>r < 3. (\<exists>T. all_gather_ring_channel (sample_collective\<lparr>dc_rank := r\<rparr>) (sample_buffer (replicate 3 (of_nat r))) 1 (0, 1) 9 5
      ([], delivered 3 sent r) = Inr ((sent r, []), out r, T)) \<and>
    buffer_values id (out r) = map (\<lambda>x. if fst (0 :: nat, 1 :: nat) \<le> x mod 1 \<and> x mod 1 < snd (0 :: nat, 1 :: nat) then buffer_values id (sample_buffer (replicate 3 (of_nat (x div 1)))) ! x
      else buffer_values id (sample_buffer (replicate 3 (of_nat r))) ! x) [0..<3 * 1]"
    by (rule ring_all_gather_collects[OF i64_tensors.integer_tensors_axioms sample_collective_world(2,1)]) (simp_all add: sample_buffer_ok i64_width)
  then show ?thesis by (simp add: sample_buffer_ok upt_rec)
qed

end
