(* ===== verification/Device_Direct.thy ===== *)
theory Device_Direct
  imports Host_Exchange Tensor_Device
begin

text \<open>
  The direct device collectives, which go through the coordinator: \<^verbatim>\<open>src/rank/device_collective/direct.rs\<close>, the direct
  branches of \<^verbatim>\<open>reduce_dispatch.rs\<close> and \<open>reduce_concatenated\<close>, \<open>reduce_values_into\<close> of \<^verbatim>\<open>reduction.rs\<close>. A collective reads its
  buffer, exchanges the encoded values, and writes or reduces the response on the device. The locale
  \<open>value_buffers\<close> is the contract of the device with its operations on values; the property puts devices, sessions and
  the coordinator together.
\<close>

section \<open>Definitions\<close>

text \<open>The operations of \<open>RankDevice\<close> on values, beside those on bytes.\<close>

record ('b, 'x, 'e) value_ops =
  vo_buffer_bytes :: "'b \<Rightarrow> nat"
  vo_encode :: "'e list \<Rightarrow> bytes"
  vo_decode :: "bytes \<Rightarrow> 'x + 'e list"
  vo_copy_to_device :: "'b \<Rightarrow> 'e list \<Rightarrow> 'x + 'b"
  vo_copy_from_device :: "'b \<Rightarrow> 'x + 'e list"

abbreviation own :: "'x + 'a \<Rightarrow> 'x device_error fault + 'a" where
  "own \<equiv> map_err (\<lambda>e. Fault (OwnError e))"

abbreviation of_rank :: "rank_error + 'a \<Rightarrow> 'x device_error fault + 'a" where
  "of_rank \<equiv> map_err (\<lambda>e. Fault (FromRank e))"

abbreviation of_net :: "network_error + 'a \<Rightarrow> 'x device_error fault + 'a" where
  "of_net \<equiv> map_err (\<lambda>e. Fault (FromNetwork e))"

definition decode_values :: "nat \<Rightarrow> ('b, 'x, 'e) value_ops \<Rightarrow> bytes \<Rightarrow> nat \<Rightarrow> 'x device_error fault + 'e list" where
  "decode_values element_size vo payload expected_elements =
     decode_exact (\<lambda>e. Fault (FromRank e)) (\<lambda>bytes. own (vo_decode vo bytes)) payload expected_elements element_size"

definition direct_stats :: "'s rank_transport \<Rightarrow> nat \<Rightarrow> nat \<Rightarrow> nat \<Rightarrow> 'x device_error fault + collective_stats" where
  "direct_stats tr steps transferred launches = of_rank (host_stats tr AlgDirect steps transferred launches)"

definition one_step :: "'s rank_transport \<Rightarrow> nat" where
  "one_step tr = (if rt_world_size tr > 1 then 1 else 0)"

definition encode_buffer :: "('b, 'x, 'e) value_ops \<Rightarrow> 'b \<Rightarrow> 'x device_error fault + bytes" where
  "encode_buffer vo buffer = bind_r (own (vo_copy_from_device vo buffer)) (\<lambda>values. Inr (vo_encode vo values))"

text \<open>One iteration of the loop: the row of rank \<open>src\<close> goes to the scratch buffer and is reduced into the output.\<close>

definition reduce_row ::
  "('b, 'k, 'l, 'x) rank_device \<Rightarrow> ('b, 'x, 'e) value_ops \<Rightarrow> 'k \<Rightarrow> 'l \<Rightarrow> nat \<Rightarrow> bytes \<Rightarrow> nat \<Rightarrow> 'b \<times> 'b \<Rightarrow> 'x device_error fault + 'b \<times> 'b" where
  "reduce_row dv vo krn launch rank_bytes payload src buffers =
     bind_r (slice_f (src * rank_bytes) (src * rank_bytes + rank_bytes) payload) (\<lambda>bytes.
     bind_r (own (vo_decode vo bytes)) (\<lambda>values.
     bind_r (own (vo_copy_to_device vo (fst buffers) values)) (\<lambda>scratch.
     bind_r (own (rd_launch_reduction dv krn launch scratch (snd buffers))) (\<lambda>out. Inr (scratch, out)))))"

definition reduce_concatenated ::
  "('b, 'k, 'l, 'x) rank_device \<Rightarrow> ('b, 'x, 'e) value_ops \<Rightarrow> nat \<Rightarrow> bytes \<Rightarrow> 'b \<Rightarrow> nat \<Rightarrow> 'k \<Rightarrow> 'x device_error fault + 'b \<times> nat" where
  "reduce_concatenated dv vo world_size payload out len krn =
     bind_r (ok_or (checked_mul 64 len (rd_element_size dv)) (Fault (FromRank (Overflow ''TCP reduction rank bytes'')))) (\<lambda>rank_bytes.
     bind_r (ok_or (checked_mul 64 rank_bytes world_size) (Fault (FromRank (Overflow ''TCP reduction response bytes'')))) (\<lambda>expected.
       if length payload \<noteq> expected
       then Inl (Fault (FromNetwork (invalid_configuration ''TCP reduction response has {} bytes, expected {}''
              [ANat (length payload), ANat expected])))
       else bind_r (slice_f 0 rank_bytes payload) (\<lambda>first.
         bind_r (own (vo_decode vo first)) (\<lambda>first.
         bind_r (own (vo_copy_to_device vo out first)) (\<lambda>out.
           if len = 0 \<or> world_size = 1 then Inr (out, 0)
           else bind_r (own (rd_alloc dv len)) (\<lambda>scratch.
             bind_r (own (rd_prepare_reduction dv len 0)) (\<lambda>launch.
             bind_r (fold_r (reduce_row dv vo krn launch rank_bytes payload) [1..<world_size] (scratch, out)) (\<lambda>(scratch, out).
               Inr (out, world_size - 1)))))))))"

definition reduce_values_into ::
  "('b, 'k, 'l, 'x) rank_device \<Rightarrow> ('b, 'x, 'e) value_ops \<Rightarrow> 'k \<Rightarrow> 'b \<Rightarrow> nat \<Rightarrow> 'e list \<Rightarrow> 'x device_error fault + 'b \<times> nat" where
  "reduce_values_into dv vo krn destination destination_offset values =
     reduce_bytes_into dv krn destination destination_offset (length values) (vo_encode vo values)"

definition direct_broadcast ::
  "('b, 'k, 'l, 'x) rank_device \<Rightarrow> ('b, 'x, 'e) value_ops \<Rightarrow> 's rank_transport \<Rightarrow> element_type \<Rightarrow> 'b \<Rightarrow> u32 \<Rightarrow> 's
     \<Rightarrow> 'x device_error fault + ('b \<times> collective_stats) \<times> 's" where
  "direct_broadcast dv vo tr et buffer root_rank st =
     bind_r (of_rank (validate_root tr root_rank)) (\<lambda>_.
     bind_r (if rt_rank tr = root_rank then encode_buffer vo buffer else Inr []) (\<lambda>payload.
     bind_r (of_net (exchange tr Broadcast et root_rank (of_nat (rd_buffer_len dv buffer)) payload st)) (\<lambda>(response, st).
     bind_r (decode_values (rd_element_size dv) vo (f_payload response) (rd_buffer_len dv buffer)) (\<lambda>values.
     bind_r (own (vo_copy_to_device vo buffer values)) (\<lambda>buffer.
     bind_r (direct_stats tr (one_step tr) (vo_buffer_bytes vo buffer) 0) (\<lambda>stats.
       Inr ((buffer, stats), st)))))))"

text \<open>Gathering a response of one row per rank into a new buffer.\<close>

definition gathered_output ::
  "('b, 'k, 'l, 'x) rank_device \<Rightarrow> ('b, 'x, 'e) value_ops \<Rightarrow> 's rank_transport \<Rightarrow> string \<Rightarrow> 'b \<Rightarrow> bytes \<Rightarrow> 'x device_error fault + 'b" where
  "gathered_output dv vo tr name input payload =
     bind_r (ok_or (checked_mul 64 (rd_buffer_len dv input) (unat (rt_world_size tr))) (Fault (FromRank (Overflow name)))) (\<lambda>output_length.
     bind_r (decode_values (rd_element_size dv) vo payload output_length) (\<lambda>values.
     bind_r (own (rd_alloc dv output_length)) (\<lambda>out. own (vo_copy_to_device vo out values))))"

definition direct_all_gather ::
  "('b, 'k, 'l, 'x) rank_device \<Rightarrow> ('b, 'x, 'e) value_ops \<Rightarrow> 's rank_transport \<Rightarrow> element_type \<Rightarrow> 'b \<Rightarrow> 's
     \<Rightarrow> 'x device_error fault + ('b \<times> collective_stats) \<times> 's" where
  "direct_all_gather dv vo tr et input st =
     bind_r (encode_buffer vo input) (\<lambda>payload.
     bind_r (of_net (exchange tr AllGather et ANY_RANK (of_nat (rd_buffer_len dv input)) payload st)) (\<lambda>(response, st).
     bind_r (gathered_output dv vo tr ''TCP all-gather output length'' input (f_payload response)) (\<lambda>out.
     bind_r (direct_stats tr (one_step tr) (vo_buffer_bytes vo input + length (f_payload response)) 0) (\<lambda>stats.
       Inr ((out, stats), st)))))"

definition direct_gather ::
  "('b, 'k, 'l, 'x) rank_device \<Rightarrow> ('b, 'x, 'e) value_ops \<Rightarrow> 's rank_transport \<Rightarrow> element_type \<Rightarrow> 'b \<Rightarrow> u32 \<Rightarrow> 's
     \<Rightarrow> 'x device_error fault + ('b option \<times> collective_stats) \<times> 's" where
  "direct_gather dv vo tr et input root_rank st =
     bind_r (of_rank (validate_root tr root_rank)) (\<lambda>_.
     bind_r (encode_buffer vo input) (\<lambda>payload.
     bind_r (of_net (exchange tr Gather et root_rank (of_nat (rd_buffer_len dv input)) payload st)) (\<lambda>(response, st).
     bind_r (if rt_rank tr = root_rank
             then bind_r (gathered_output dv vo tr ''TCP gather output length'' input (f_payload response)) (\<lambda>out. Inr (Some out))
             else if f_payload response \<noteq> []
             then Inl (Fault (FromNetwork (invalid_configuration ''non-root gather response contains data'' [])))
             else Inr None) (\<lambda>out.
     bind_r (direct_stats tr (one_step tr) (vo_buffer_bytes vo input + length (f_payload response)) 0) (\<lambda>stats.
       Inr ((out, stats), st))))))"

definition direct_scatter ::
  "('b, 'k, 'l, 'x) rank_device \<Rightarrow> ('b, 'x, 'e) value_ops \<Rightarrow> 's rank_transport \<Rightarrow> element_type \<Rightarrow> 'b option \<Rightarrow> u32 \<Rightarrow> nat \<Rightarrow> 's
     \<Rightarrow> 'x device_error fault + ('b \<times> collective_stats) \<times> 's" where
  "direct_scatter dv vo tr et root_input root_rank output_length st =
     bind_r (of_rank (validate_root tr root_rank)) (\<lambda>_.
     bind_r (ok_or (checked_mul 64 output_length (unat (rt_world_size tr))) (Fault (FromRank (Overflow ''TCP scatter input length'')))) (\<lambda>total_length.
     bind_r (if rt_rank tr = root_rank
             then (case root_input of
                     Some input \<Rightarrow>
                       if rd_buffer_len dv input = total_length then encode_buffer vo input
                       else Inl (Fault (FromRank (InvalidLength ''TCP scatter root input has the wrong length'')))
                   | None \<Rightarrow> Inl (Fault (FromRank (InvalidLength ''TCP scatter root must provide the input buffer''))))
             else (case root_input of
                     None \<Rightarrow> Inr []
                   | Some _ \<Rightarrow> Inl (Fault (FromRank (InvalidLength ''non-root TCP scatter rank cannot provide the input buffer''))))) (\<lambda>payload.
     bind_r (of_net (exchange tr Scatter et root_rank (of_nat total_length) payload st)) (\<lambda>(response, st).
     bind_r (decode_values (rd_element_size dv) vo (f_payload response) output_length) (\<lambda>values.
     bind_r (own (rd_alloc dv output_length)) (\<lambda>out.
     bind_r (own (vo_copy_to_device vo out values)) (\<lambda>out.
     bind_r (direct_stats tr (one_step tr)
         (length (f_payload response) + (case root_input of None \<Rightarrow> 0 | Some buffer \<Rightarrow> vo_buffer_bytes vo buffer)) 0) (\<lambda>stats.
       Inr ((out, stats), st)))))))))"

definition direct_all_reduce ::
  "('b, 'k, 'l, 'x) rank_device \<Rightarrow> ('b, 'x, 'e) value_ops \<Rightarrow> 's rank_transport \<Rightarrow> element_type \<Rightarrow> 'b \<Rightarrow> reduction_operation \<Rightarrow> 'k \<Rightarrow> 's
     \<Rightarrow> 'x device_error fault + ('b \<times> collective_stats) \<times> 's" where
  "direct_all_reduce dv vo tr et buffer operation krn st =
     bind_r (encode_buffer vo buffer) (\<lambda>payload.
     bind_r (of_net (rt_exchange_with_options tr AllReduce et
         (reduction_exchange_options ANY_RANK (rd_buffer_len dv buffer) (reduction_code operation)) payload st)) (\<lambda>(response, st).
     bind_r (reduce_concatenated dv vo (unat (rt_world_size tr)) (f_payload response) buffer (rd_buffer_len dv buffer) krn) (\<lambda>(buffer, launches).
     bind_r (direct_stats tr (unat (rt_world_size tr) - 1) (length payload + length (f_payload response)) launches) (\<lambda>stats.
       Inr ((buffer, stats), st)))))"

definition direct_reduce ::
  "('b, 'k, 'l, 'x) rank_device \<Rightarrow> ('b, 'x, 'e) value_ops \<Rightarrow> 's rank_transport \<Rightarrow> element_type \<Rightarrow> 'b \<Rightarrow> u32 \<Rightarrow> reduction_operation \<Rightarrow> 'k \<Rightarrow> 's
     \<Rightarrow> 'x device_error fault + ('b option \<times> collective_stats) \<times> 's" where
  "direct_reduce dv vo tr et input root_rank operation krn st =
     bind_r (of_rank (validate_root tr root_rank)) (\<lambda>_.
     bind_r (encode_buffer vo input) (\<lambda>payload.
     bind_r (of_net (rt_exchange_with_options tr Reduce et
         (reduction_exchange_options root_rank (rd_buffer_len dv input) (reduction_code operation)) payload st)) (\<lambda>(response, st).
     bind_r (if rt_rank tr = root_rank
             then bind_r (own (rd_alloc dv (rd_buffer_len dv input))) (\<lambda>out.
               bind_r (reduce_concatenated dv vo (unat (rt_world_size tr)) (f_payload response) out (rd_buffer_len dv input) krn) (\<lambda>(out, launches).
                 Inr (Some out, launches)))
             else if f_payload response \<noteq> []
             then Inl (Fault (FromNetwork (invalid_configuration ''non-root reduce response contains data'' [])))
             else Inr (None, 0)) (\<lambda>(out, launches).
     bind_r (direct_stats tr (unat (rt_world_size tr) - 1) (length payload + length (f_payload response)) launches) (\<lambda>stats.
       Inr ((out, stats), st))))))"

definition direct_reduce_scatter ::
  "('b, 'k, 'l, 'x) rank_device \<Rightarrow> ('b, 'x, 'e) value_ops \<Rightarrow> 's rank_transport \<Rightarrow> element_type \<Rightarrow> 'b \<Rightarrow> reduction_operation \<Rightarrow> 'k \<Rightarrow> 's
     \<Rightarrow> 'x device_error fault + ('b \<times> collective_stats) \<times> 's" where
  "direct_reduce_scatter dv vo tr et input operation krn st =
     (if rd_buffer_len dv input mod unat (rt_world_size tr) \<noteq> 0
      then Inl (Fault (FromRank (InvalidLength ''TCP reduce-scatter input length must be divisible by world size'')))
      else if rt_world_size tr = 0 then Inl (Panic ''attempt to divide by zero'')
      else let output_length = rd_buffer_len dv input div unat (rt_world_size tr) in
        bind_r (encode_buffer vo input) (\<lambda>payload.
        bind_r (of_net (rt_exchange_with_options tr ReduceScatter et
            (reduction_exchange_options ANY_RANK (rd_buffer_len dv input) (reduction_code operation)) payload st)) (\<lambda>(response, st).
        bind_r (own (rd_alloc dv output_length)) (\<lambda>out.
        bind_r (reduce_concatenated dv vo (unat (rt_world_size tr)) (f_payload response) out output_length krn) (\<lambda>(out, launches).
        bind_r (direct_stats tr (unat (rt_world_size tr) - 1) (length payload + length (f_payload response)) launches) (\<lambda>stats.
          Inr ((out, stats), st)))))))"

text \<open>The value operations of the tensor device.\<close>

definition tensor_value_ops ::
  "('f, 'i, 'd, 'a, 'm, 'x, 'v) tensor_backend \<Rightarrow> 'd \<Rightarrow> 'v tensor_element
     \<Rightarrow> (('f, 'i, 'd) tensor_buffer, 'x tensor_device_error fault, 'v) value_ops" where
  "tensor_value_ops be d el =
     \<lparr> vo_buffer_bytes = (\<lambda>buffer. tb_length buffer * el_size el), vo_encode = encode_elements el, vo_decode = decode_elements el,
       vo_copy_to_device = copy_to_device be d el, vo_copy_from_device = download be d \<rparr>"

section \<open>Reducing the rows of a response\<close>

lemma subslice_concat_rows:
  "\<forall>x \<in> set xs. length x = n \<Longrightarrow> i < length xs \<Longrightarrow> subslice (i * n) (i * n + n) (concat xs) = xs ! i"
proof (induction xs arbitrary: i)
  case (Cons x xs)
  then show ?case by (cases i) (simp_all add: subslice_def)
qed simp

text \<open>The contract of a device with its operations on values.\<close>

locale value_buffers = device_buffers dv valid vals enc krn
  for dv :: "('b, 'k, 'l, 'x) rank_device" and valid and vals :: "'b \<Rightarrow> 'e :: comm_monoid_add list" and enc krn +
  fixes vo :: "('b, 'x, 'e) value_ops"
  assumes encode: "vo_encode vo xs = enc xs"
    and decode: "vo_decode vo (enc xs) = Inr xs"
    and buffer_bytes: "valid b \<Longrightarrow> vo_buffer_bytes vo b = length (vals b) * rd_element_size dv"
    and copy_to_device: "valid b \<Longrightarrow> length xs = length (vals b) \<Longrightarrow> \<exists>b'. vo_copy_to_device vo b xs = Inr b' \<and> valid b' \<and> vals b' = xs"
    and copy_from_device: "valid b \<Longrightarrow> vo_copy_from_device vo b = Inr (vals b)"
begin

lemma encode_buffer_ok: "valid b \<Longrightarrow> encode_buffer vo b = Inr (enc (vals b))"
  by (simp add: encode_buffer_def copy_from_device encode)

lemma rows_length:
  "\<forall>row \<in> set rows. length row = len \<Longrightarrow> length (concat (map enc rows)) = length rows * (len * rd_element_size dv)"
  by (induction rows) (simp_all add: enc_len)

lemma reduce_row_ok:
  assumes "valid scratch" "length (vals scratch) = len" "valid out" "length (vals out) = len" "rd_prepare_reduction dv len 0 = Inr launch"
    and rows: "\<forall>row \<in> set rows. length row = len" and "r < length rows"
  shows "\<exists>scratch' out'. reduce_row dv vo krn launch (len * rd_element_size dv) (concat (map enc rows)) r (scratch, out) = Inr (scratch', out') \<and>
    valid scratch' \<and> length (vals scratch') = len \<and> valid out' \<and> vals out' = map2 (+) (vals out) (rows ! r)"
proof -
  have len: "length (rows ! r) = len" using assms(7) rows by simp
  have row: "subslice (r * (len * rd_element_size dv)) (r * (len * rd_element_size dv) + len * rd_element_size dv) (concat (map enc rows)) = enc (rows ! r)"
    using subslice_concat_rows[of "map enc rows" "len * rd_element_size dv" r] rows assms(7) by (auto simp: enc_len)
  have fits: "r * (len * rd_element_size dv) + len * rd_element_size dv \<le> length (concat (map enc rows))"
    using mult_le_mono1[of "Suc r" "length rows" "len * rd_element_size dv"] assms(7) rows_length[OF rows] by simp
  obtain s1 where s1: "vo_copy_to_device vo scratch (rows ! r) = Inr s1" "valid s1" "vals s1 = rows ! r"
    using copy_to_device[OF assms(1), of "rows ! r"] assms(2) len by auto
  obtain o1 where o1: "rd_launch_reduction dv krn launch s1 out = Inr o1" "valid o1" "vals o1 = map2 (+) (vals out) (rows ! r)"
    using reduce[OF s1(2) assms(3), of len 0] s1(3) len assms(4,5) by (auto simp: subslice_def copy_at_def)
  show ?thesis using s1 o1 fits by (simp add: reduce_row_def slice_f_def row decode len)
qed

lemma reduce_rows:
  assumes "valid scratch" "length (vals scratch) = len" "valid out" "length (vals out) = len" "rd_prepare_reduction dv len 0 = Inr launch"
    and rows: "\<forall>row \<in> set rows. length row = len"
    and "k \<le> m" "m \<le> length rows"
  shows "\<exists>scratch' out'. fold_r (reduce_row dv vo krn launch (len * rd_element_size dv) (concat (map enc rows))) [k..<m] (scratch, out) = Inr (scratch', out') \<and>
    valid scratch' \<and> length (vals scratch') = len \<and> valid out' \<and>
    vals out' = map (\<lambda>x. vals out ! x + (\<Sum>r \<in> {k..<m}. rows ! r ! x)) [0..<len]"
  using assms(7,8)
proof (induction m rule: dec_induct)
  case base
  then show ?case using assms(1-4) by (auto intro!: nth_equalityI)
next
  case (step m)
  obtain s1 o1 where IH: "fold_r (reduce_row dv vo krn launch (len * rd_element_size dv) (concat (map enc rows))) [k..<m] (scratch, out) = Inr (s1, o1)"
    "valid s1" "length (vals s1) = len" "valid o1" "vals o1 = map (\<lambda>x. vals out ! x + (\<Sum>r \<in> {k..<m}. rows ! r ! x)) [0..<len]"
    using step.IH step.prems by auto
  have lo: "length (vals o1) = len" using IH(5) by simp
  have m: "m < length rows" using step.prems by simp
  obtain s2 o2 where o2: "reduce_row dv vo krn launch (len * rd_element_size dv) (concat (map enc rows)) m (s1, o1) = Inr (s2, o2)"
    "valid s2" "length (vals s2) = len" "valid o2" "vals o2 = map2 (+) (vals o1) (rows ! m)"
    using reduce_row_ok[OF IH(2-4) lo assms(5) rows m] by blast
  have "vals o2 = map (\<lambda>x. vals out ! x + (\<Sum>r \<in> {k..<Suc m}. rows ! r ! x)) [0..<len]"
    using o2(5) IH(5) rows m step.hyps(1) by (intro nth_equalityI) (auto simp: sum.atLeastLessThan_Suc add.assoc)
  with o2 IH(1) step.hyps(1) show ?case by (simp add: upt_Suc_append)
qed

text \<open>The whole reduction: the rows of all ranks, summed, with one launch for every rank after the first.\<close>

lemma reduce_concatenated_ok:
  assumes "valid out" "length (vals out) = len" "\<forall>row \<in> set rows. length row = len" "rows \<noteq> []"
    "len * rd_element_size dv * length rows < 2 ^ 64"
  shows "\<exists>out' launches. reduce_concatenated dv vo (length rows) (concat (map enc rows)) out len krn = Inr (out', launches) \<and> valid out' \<and>
    vals out' = map (\<lambda>x. \<Sum>r < length rows. rows ! r ! x) [0..<len] \<and> launches \<le> length rows - 1"
proof -
  let ?b = "len * rd_element_size dv"
  have w: "0 < length rows" using assms(4) by simp
  have total_len: "length (concat (map enc rows)) = ?b * length rows"
    using rows_length[OF assms(3)] by simp
  have "?b \<le> ?b * length rows" using w by (cases "length rows") simp_all
  then have small: "?b < 2 ^ 64" using assms(5) by linarith
  have first: "slice_f 0 ?b (concat (map enc rows)) = Inr (enc (rows ! 0) :: bytes)"
    using subslice_concat_rows[of "map enc rows" ?b 0] assms(3) w total_len \<open>?b \<le> ?b * length rows\<close>
    by (auto simp: slice_f_def enc_len)
  have l0: "length (rows ! 0) = len" using assms(3) w by simp
  obtain o0 where o0: "vo_copy_to_device vo out (rows ! 0) = Inr o0" "valid o0" "vals o0 = rows ! 0"
    using copy_to_device[OF assms(1), of "rows ! 0"] assms(2) l0 by auto
  show ?thesis
  proof (cases "len = 0 \<or> length rows = 1")
    case True
    then have "rows ! 0 = map (\<lambda>x. \<Sum>r < length rows. rows ! r ! x) [0..<len]" using l0 by (auto intro!: nth_equalityI)
    then show ?thesis using True o0 total_len assms(5) small
      by (auto simp: reduce_concatenated_def checked_mul_def first decode)
  next
    case False
    obtain scratch where scratch: "rd_alloc dv len = Inr scratch" "valid scratch" "length (vals scratch) = len"
      using alloc[of len] addressable[OF assms(1)] assms(2) by auto
    have lo: "length (vals o0) = len" using o0(3) l0 by simp
    obtain launch where launch: "rd_prepare_reduction dv len 0 = Inr launch"
      using reduce[OF scratch(2) o0(2) scratch(3), of 0] lo by auto
    obtain s2 o2 where o2: "fold_r (reduce_row dv vo krn launch ?b (concat (map enc rows))) [1..<length rows] (scratch, o0) = Inr (s2, o2)" "valid o2"
      "vals o2 = map (\<lambda>x. vals o0 ! x + (\<Sum>r \<in> {1..<length rows}. rows ! r ! x)) [0..<len]"
      using reduce_rows[OF scratch(2,3) o0(2) lo launch assms(3), of 1 "length rows"] w by auto
    have "vals o2 = map (\<lambda>x. \<Sum>r < length rows. rows ! r ! x) [0..<len]"
      using o2(3) o0(3) w by (simp add: lessThan_atLeast0 sum.atLeast_Suc_lessThan)
    then show ?thesis using False o0 o2 scratch launch total_len assms(5) small
      by (auto simp: reduce_concatenated_def checked_mul_def first decode)
  qed
qed

text \<open>A round of the direct all-reduce: sessions, coordinator and devices together.\<close>

lemma direct_all_reduce_rounds:
  assumes buffers: "\<forall>r < n. valid (buf r) \<and> length (vals (buf r)) = N"
    and width: "byte_width et = rd_element_size dv" "0 < N" "n * (N * rd_element_size dv) \<le> 2 ^ 30"
    and agreement: "agreement_inv a" "voted_ranks a = {}" "ca_world_size a = n" "ca_next_sequence a = seqn" "unat seqn + 1 < 2 ^ 64"
    and sessions: "round_sessions uid seqn n s" "unique_id_ok uid" "0 < n" "n < 2 ^ 32"
  shows "\<exists>requests responses a'. length requests = n \<and> validate_and_route crc a uid seqn requests = (Inr responses, a') \<and>
    agreement_inv a' \<and> voted_ranks a' = {} \<and> ca_next_sequence a' = seqn + 1 \<and>
    (\<forall>r < n. \<exists>out stats. direct_all_reduce dv vo (tcp_transport crc (round_net requests responses r) (p2p r) (s r)) et (buf r) Sum krn (s r) =
        Inr ((out, stats), (s r)\<lparr> ts_next_sequence := seqn + 1 \<rparr>) \<and> valid out \<and>
      vals out = map (\<lambda>x. \<Sum>q < n. vals (buf q) ! x) [0..<N] \<and> cs_reduction_kernel_launches stats \<le> n - 1)"
proof -
  let ?o = "reduction_exchange_options ANY_RANK N (reduction_code Sum)" and ?p = "\<lambda>r. enc (vals (buf r))"
  let ?rows = "map (\<lambda>r. vals (buf r)) [0..<n]"
  have es: "0 < rd_element_size dv" by (rule element_size)
  have "N * 1 \<le> N * rd_element_size dv" "1 * (N * rd_element_size dv) \<le> n * (N * rd_element_size dv)"
    using es sessions(3) by (intro mult_le_mono; simp)+
  then have N: "N \<le> 2 ^ 30" "N * rd_element_size dv \<le> 2 ^ 30" using width(3) by linarith+
  then have cnt: "unat (of_nat N :: u64) = N" by (simp add: unat_of_nat take_bit_nat_eq_self)
  have et: "et \<noteq> ElemNone" using width(1) es by (metis byte_width_pos_iff)
  obtain requests responses a' where round: "length requests = n" "validate_and_route crc a uid seqn requests = (Inr responses, a')"
    "agreement_inv a'" "voted_ranks a' = {}" "ca_next_sequence a' = seqn + 1"
    "\<forall>r < n. exchange_with_options crc (round_net requests responses r) AllReduce et ?o (?p r) (s r) =
        Inr (responses ! r, (s r)\<lparr> ts_next_sequence := seqn + 1 \<rparr>) \<and> f_payload (responses ! r) = concat (map ?p [0..<n])"
    using gathered_exchange[OF agreement sessions, of AllReduce et ?o N ?p crc] et cnt width buffers
    by (auto simp: reduction_exchange_options_def enc_len)
  have "\<exists>out stats. direct_all_reduce dv vo (tcp_transport crc (round_net requests responses r) (p2p r) (s r)) et (buf r) Sum krn (s r) =
        Inr ((out, stats), (s r)\<lparr> ts_next_sequence := seqn + 1 \<rparr>) \<and> valid out \<and>
      vals out = map (\<lambda>x. \<Sum>q < n. vals (buf q) ! x) [0..<N] \<and> cs_reduction_kernel_launches stats \<le> n - 1" if r: "r < n" for r
  proof -
    have b: "valid (buf r)" "length (vals (buf r)) = N" "rd_buffer_len dv (buf r) = N" using buffers r by (simp_all add: buffer_len)
    have payload: "f_payload (responses ! r) = concat (map enc ?rows)" using round(6) r by (simp add: comp_def)
    have plen: "length (concat (map enc ?rows)) = n * (N * rd_element_size dv)"
      using rows_length[of ?rows N] buffers by simp
    obtain out launches where out: "reduce_concatenated dv vo n (concat (map enc ?rows)) (buf r) N krn = Inr (out, launches)" "valid out"
      "vals out = map (\<lambda>x. \<Sum>q < n. vals (buf q) ! x) [0..<N]" "launches \<le> n - 1"
      using reduce_concatenated_ok[OF b(1,2), of ?rows] buffers sessions(3) width(3) by (auto simp: mult.commute)
    have w: "unat (ts_world_size (s r)) = n" using sessions r by (simp add: round_sessions_def unat_of_nat take_bit_nat_eq_self)
    show ?thesis
      using out round(6) r b payload plen N(2) width(3)
      by (simp add: direct_all_reduce_def encode_buffer_ok tcp_transport_def w direct_stats_def host_stats_def u64_try_from_def enc_len)
  qed
  then show ?thesis using round(1-5) by blast
qed

end

sublocale integer_tensors \<subseteq> vdev: value_buffers "tensor_rank_device be d el" "buffer_valid tvals d el" "buffer_values tvals" "encode_elements el" Sum
  "tensor_value_ops be d el"
proof unfold_locales
  fix xs b
  show "vo_encode (tensor_value_ops be d el) xs = encode_elements el xs" by (simp add: tensor_value_ops_def)
  show "vo_decode (tensor_value_ops be d el) (encode_elements el xs) = Inr xs" by (simp add: tensor_value_ops_def decode_encode)
  show "valid b \<Longrightarrow> vo_buffer_bytes (tensor_value_ops be d el) b = length (vals b) * rd_element_size (tensor_rank_device be d el)"
    by (auto simp: tensor_value_ops_def tensor_rank_device_def elim: buffer_validE)
  show "valid b \<Longrightarrow> length xs = length (vals b) \<Longrightarrow> \<exists>b'. vo_copy_to_device (tensor_value_ops be d el) b xs = Inr b' \<and> valid b' \<and> vals b' = xs"
    using write_at_ok[of b 0 xs] by (auto simp: tensor_value_ops_def copy_to_device_def write_buffer_def sync_ok copy_at_def elim: buffer_validE)
  show "valid b \<Longrightarrow> vo_copy_from_device (tensor_value_ops be d el) b = Inr (vals b)" by (simp add: tensor_value_ops_def download_ok)
qed

context integer_tensors
begin

lemmas direct_all_reduce = vdev.direct_all_reduce_rounds[unfolded dev_size]

end

section \<open>Properties\<close>

text \<open>C9. Direct all-reduce, end to end. When the sessions of all ranks stand at the sequence number of the coordinator and their
  buffers hold equally many elements, every rank's session builds a request, the coordinator accepts the requests and answers them,
  and each rank's all-reduce over its answer completes: all ranks hold the sum over all ranks, with at most \<open>n - 1\<close> kernel
  launches, and sessions and coordinator have both advanced to the next sequence number.\<close>

theorem direct_all_reduce_round:
  assumes "integer_tensors be d el tvals"
    "\<forall>r < n. buffer_valid tvals d el (buf r) \<and> length (buffer_values tvals (buf r)) = N"
    "byte_width et = el_size el" "0 < N" "n * (N * el_size el) \<le> 2 ^ 30"
    "agreement_inv a" "voted_ranks a = {}" "ca_world_size a = n" "ca_next_sequence a = seqn" "unat seqn + 1 < 2 ^ 64"
    "round_sessions uid seqn n s" "unique_id_ok uid" "0 < n" "n < 2 ^ 32"
  shows "\<exists>requests responses a'. length requests = n \<and> validate_and_route crc a uid seqn requests = (Inr responses, a') \<and>
    agreement_inv a' \<and> voted_ranks a' = {} \<and> ca_next_sequence a' = seqn + 1 \<and>
    (\<forall>r < n. \<exists>out stats. direct_all_reduce (tensor_rank_device be d el) (tensor_value_ops be d el)
        (tcp_transport crc (round_net requests responses r) (p2p r) (s r)) et (buf r) Sum Sum (s r) =
        Inr ((out, stats), (s r)\<lparr> ts_next_sequence := seqn + 1 \<rparr>) \<and> buffer_valid tvals d el out \<and>
      buffer_values tvals out = map (\<lambda>x. \<Sum>q < n. buffer_values tvals (buf q) ! x) [0..<N] \<and> cs_reduction_kernel_launches stats \<le> n - 1)"
  by (rule integer_tensors.direct_all_reduce[OF assms])

definition sample_session :: "nat \<Rightarrow> tcp_session" where
  "sample_session r = \<lparr> ts_unique_id = replicate 16 0, ts_rank = of_nat r, ts_world_size = 2, ts_transport = TcpHostStaged, ts_next_sequence = 0 \<rparr>"

theorem direct_all_reduce_round_witness:
  "\<exists>requests responses a'. validate_and_route (\<lambda>_. 0) sample_agreement (replicate 16 0) 0 requests = (Inr responses, a') \<and>
    (\<forall>r < 2. \<exists>out stats. direct_all_reduce (tensor_rank_device list_backend () (wire_element I64)) (tensor_value_ops list_backend () (wire_element I64))
        (tcp_transport (\<lambda>_. 0) (round_net requests responses r) \<lparr> ps_send_on_rail = (\<lambda>_. Inr), ps_receive_on_rail = (\<lambda>_ _. Inl (Io ''closed'')) \<rparr>
          (sample_session r)) I64 (sample_buffer [of_nat r, 5, -1]) Sum Sum (sample_session r) =
        Inr ((out, stats), (sample_session r)\<lparr> ts_next_sequence := 1 \<rparr>) \<and> buffer_values id out = [1, 10, -2])"
proof -
  let ?buf = "\<lambda>r :: nat. sample_buffer [of_nat r, 5, -1]"
  have uid: "round_sessions (replicate 16 0) 0 2 sample_session" "unique_id_ok (replicate 16 0)"
    by (simp_all add: round_sessions_def sample_session_def unique_id_ok_def)
  have sums: "map (\<lambda>x. \<Sum>q < 2. buffer_values id (?buf q) ! x) [0..<3] = [1, 10, -2]"
    by (simp add: sample_buffer_ok upt_rec numeral_2_eq_2)
  have bufs: "\<forall>r < 2. buffer_valid id () (wire_element I64) (?buf r) \<and> length (buffer_values id (?buf r)) = 3"
    by (simp add: sample_buffer_ok)
  show ?thesis
    using direct_all_reduce_round[OF i64_tensors.integer_tensors_axioms bufs, of I64 sample_agreement 0 "replicate 16 0" sample_session "\<lambda>_. 0"
        "\<lambda>_. \<lparr> ps_send_on_rail = (\<lambda>_. Inr), ps_receive_on_rail = (\<lambda>_ _. Inl (Io ''closed'')) \<rparr>"]
      sample_agreement_ok uid unfolding sums by (simp add: i64_width sample_agreement_def) blast
qed

end
