(* ===== verification/Spec2Isabelle.thy ===== *)
theory Spec2Isabelle
  imports Coordinator_Loop Tuning_Environment Rooted_Tree Orchestrator Local_Server Device_Direct
begin

text \<open>
  \<^bold>\<open>ruCCL: collective communication between ranks, between the devices of a node, and between nodes\<close>

  The crate connects the ranks of a job to a coordinator process over TCP. Every collective is a
  round: each rank sends one frame, the coordinator checks that the frames describe one operation,
  routes the payloads and answers every rank. Point-to-point traffic and heartbeats run on separate
  connections. Above the transport, a planner chooses the algorithm, rings, rails and groups of a
  collective from a model of the links, and device collectives move chunks of device buffers along
  the chosen rings. Beside the ranks there is a second, tensor-level interface: a server thread
  collects the calls of the devices of one node and runs the collective between them, and an
  orchestrator lets several nodes agree on a collective before they exchange tensors along a tree.

  \<^bold>\<open>Theories, from the bottom\<close>

  \<^item> \<open>Rank_Prelude\<close>: machine integers, \<open>Result\<close> as a sum, checked and saturating arithmetic, byte
    codecs, FNV-1a.
  \<^item> \<open>Wire_Protocol\<close>, \<open>Frame_Stream\<close> (\<^verbatim>\<open>src/rank/protocol.rs\<close>, \<open>write_frame\<close>, \<open>read_frame\<close> and the reader
    threads of \<^verbatim>\<open>src/rank/network.rs\<close>): the 80-byte header, validation, encoding and decoding with
    both round trips, and delivery of a stream of frames. The checksum function is a parameter.
  \<^item> \<open>Agreement\<close> (\<open>CollectiveAgreement\<close> of \<^verbatim>\<open>src/rank/protocol.rs\<close>): one descriptor per rank and
    sequence number; a refinement of the specification that knows only who voted for what.
  \<^item> \<open>Rank_Layout\<close>, \<open>Rank_Payload\<close>, \<open>Host_Reduction\<close> (\<^verbatim>\<open>src/rank/layout.rs\<close>, \<^verbatim>\<open>tags.rs\<close>, \<^verbatim>\<open>payload.rs\<close>,
    \<^verbatim>\<open>host/reduction.rs\<close>): balanced ranges, tags, count prefixes and the reduction of rank-ordered
    payloads for every element type; floating-point addition and multiplication are parameters.
  \<^item> \<open>Coordinator_Routing\<close>, \<open>Coordinator_Loop\<close>, \<open>P2p_Router\<close> (\<open>validate_and_route\<close>, \<open>run_collective_loop\<close>
    and \<open>run_p2p_loop\<close> of \<^verbatim>\<open>src/rank/network.rs\<close>): what a round answers, the event loop with its
    invariant and its independence of the order of arrival, the matching of sends and receives, and
    the heartbeat leases. Sockets are a parameter that says which writes fail; time is an argument.
  \<^item> \<open>Topology\<close>, \<open>Topology_Parse\<close>, \<open>Shortest_Path\<close>, \<open>Ring_Search\<close>, \<open>Hierarchy\<close>, \<open>Planner\<close>, \<open>Tuning_Environment\<close>
    (\<^verbatim>\<open>src/rank/topology.rs\<close>): the link matrices, the textual forms, Dijkstra's search over saturating
    64-bit costs, the exhaustive and greedy ring searches, the inference of groups, the tuning
    record with its builders, fingerprints, measured profiles and plans, and its construction from
    the environment; the file system and the JSON library are parameters.
  \<^item> \<open>Device_Ring\<close> (\<^verbatim>\<open>src/rank/device_collective\<close>: \<^verbatim>\<open>ring.rs\<close>, \<^verbatim>\<open>reduce_scatter.rs\<close>, \<^verbatim>\<open>all_gather.rs\<close>,
    \<^verbatim>\<open>reduction.rs\<close> and the helpers of \<^verbatim>\<open>mod.rs\<close>): what one rank does on one channel of a ring collective. The
    locale \<open>device_buffers\<close> is the contract of \<open>RankDevice\<close>. The runs of all ranks are put together by
    \<open>delivered\<close>: a rank receives exactly the messages the others address to it, each checked against
    the source, rail, tag, type and count of its receive. The steps of all ranks are related to the
    column-wise transfers of \<open>Local_Ring\<close>, whose sums they inherit.
  \<^item> \<open>Tensor_Device\<close> (\<^verbatim>\<open>src/tensor_device\<close>: \<^verbatim>\<open>mod.rs\<close>, \<^verbatim>\<open>storage.rs\<close>, \<^verbatim>\<open>element.rs\<close>, \<^verbatim>\<open>reduction.rs\<close>, \<^verbatim>\<open>device.rs\<close>):
    buffers on a tensor backend. The backend is a parameter; the locale \<open>integer_tensors\<close> states what
    is used of it, a sublocale shows that the device keeps the contract of \<open>device_buffers\<close>, and the
    theorems on ring all-reduce, reduce-scatter and all-gather hold for every such backend.
  \<^item> \<open>Host_Exchange\<close> (\<open>exchange_with_options\<close> and \<open>barrier\<close> of \<^verbatim>\<open>src/rank/network.rs\<close> and \<^verbatim>\<open>transport.rs\<close>,
    \<^verbatim>\<open>src/rank/host/exchange.rs\<close>, \<^verbatim>\<open>stats.rs\<close>): a rank's side of a round, over a parameter that says what its
    connection answers, and the host-staged collectives. A lemma joins the sessions of all ranks with
    \<open>validate_and_route\<close> of the coordinator.
  \<^item> \<open>Device_Direct\<close> (\<^verbatim>\<open>src/rank/device_collective\<close>: \<^verbatim>\<open>direct.rs\<close>, the direct branches of \<^verbatim>\<open>reduce_dispatch.rs\<close>,
    \<^verbatim>\<open>reduction.rs\<close>): the device collectives that go through the coordinator. The locale \<open>value_buffers\<close>
    extends \<open>device_buffers\<close> by the operations on values, the tensor device is a sublocale of it, and the
    direct all-reduce is proved end to end: devices, sessions and coordinator.
  \<^item> \<open>Collective_Config\<close> (\<^verbatim>\<open>src/config.rs\<close>, \<^verbatim>\<open>src/global/shared.rs\<close>): parameters, strategies, messages and errors of
    the tensor-level interface.
  \<^item> \<open>Local_Collectives\<close>, \<open>Local_Ring\<close> (\<^verbatim>\<open>src/local/all_reduce\<close>, \<^verbatim>\<open>reduce\<close>, \<^verbatim>\<open>broadcast\<close>): the centralized, tree and
    ring algorithms between the devices of a node, which give the same result on every device, and
    the slices of the ring.
  \<^item> \<open>Local_Server\<close> (\<^verbatim>\<open>src/local/server.rs\<close> and the \<^verbatim>\<open>op.rs\<close> files): the server's state and every message;
    each callback is answered once, and a full round of calls in any order answers with the sum.
  \<^item> \<open>Orchestrator\<close> (\<^verbatim>\<open>src/global/orchestrator\<close>): sessions, registration, rounds and loss of nodes, with the
    invariant of all reachable states and the agreement of a round.
  \<^item> \<open>Rooted_Tree\<close> (\<^verbatim>\<open>src/global/node/rooted.rs\<close>, \<^verbatim>\<open>tree.rs\<close>): the neighbours each node computes form one tree.

  \<^bold>\<open>Conventions.\<close> A rank, a length, a bandwidth or a time is a natural number and every operation that
  can leave its width is written with its check or saturation; header fields, hashes and integer
  elements are words. An index out of range is a \<open>Panic\<close> value where a caller could cause it. Loops
  are recursive functions with termination proofs and no fuel is used; the recursion of the local
  tree algorithms, which may not end, is a partial function whose value \<open>None\<close> means that it does
  not return. Where a private function of the source is reached only with validated arguments, its
  lemmas state those arguments as hypotheses. Buffers are values: an operation that writes one
  returns it.

  \<^bold>\<open>Not modelled.\<close> Sockets, threads, locks and clocks themselves; the handshake, the client threads and
  their tracing (\<^verbatim>\<open>src/rank/peer.rs\<close>, \<^verbatim>\<open>transport.rs\<close>, \<^verbatim>\<open>work.rs\<close>); the choice between the algorithms of a
  device collective, the threads that run its channels side by side, and the pairwise and
  hierarchical device collectives; the typed entry points and bounded transfers above the tensor device; the exchange of tensors between
  nodes, which runs on an external data service; in-process and CUDA memory (\<^verbatim>\<open>src/in_process\<close>,
  \<^verbatim>\<open>torch-bridge\<close>), which call external runtimes. Sums of floating-point elements depend on their order,
  so the theorems on device collectives are for integer elements.
\<close>

end
